(* ===== verification/Float64.thy ===== *)
theory Float64
  imports Complex_Main "HOL-Library.Log_Nat" "HOL-Library.Word"
begin

text \<open>
  The IEEE 754 binary64 arithmetic that the Rust type \<^verbatim>\<open>f64\<close> stands for, as executable
  definitions over exact rationals.  A value is NaN, an infinity or a finite rational; every
  arithmetic operation computes the exact result and rounds it once with \<open>fl\<close>, to nearest with
  ties to even, with 53 bits of precision, gradual underflow at exponent -1074 and overflow to an
  infinity beyond the largest finite number.  A decimal literal \<open>0.3\<close> of the source is
  \<open>fl (3/10)\<close>, the nearest binary64 number, never the rational itself.  Casts saturate
  and map NaN to 0, as Rust's \<^verbatim>\<open>as\<close> does.  The two zeros are one value here: no comparison of
  the source tells them apart, and no division of the source has a negative zero divisor.
  The operations of \<^verbatim>\<open>libm\<close> (\<^verbatim>\<open>exp\<close>, \<^verbatim>\<open>ln\<close>) are not defined here:
  the definitions that use them take them as arguments.

  The lemmas give what the component proofs use: rounding is monotone, keeps signs, commutes with
  negation and is exact on integers below \<open>2^53\<close> and on dyadic numbers of at most 53 bits.
\<close>

section \<open>Rounding to binary64\<close>

definition pow2 :: "int \<Rightarrow> rat" where
  "pow2 e = 2 powi e"

definition ilog2 :: "rat \<Rightarrow> int" where
  "ilog2 q = (let (n, d) = quotient_of q;
                  k = int (floorlog 2 (nat n)) - int (floorlog 2 (nat d))
              in if pow2 k \<le> q then k else k - 1)"

definition round_even :: "rat \<Rightarrow> int" where
  "round_even q =
     (let f = \<lfloor>q\<rfloor>; r = q - of_int f
      in if r < 1 / 2 then f else if 1 / 2 < r then f + 1
         else if even f then f else f + 1)"

definition ulp_exp :: "rat \<Rightarrow> int" where
  "ulp_exp q = max (- 1074) (ilog2 q - 52)"

definition fl_mant :: "rat \<Rightarrow> int" where
  "fl_mant q = round_even (q / pow2 (ulp_exp q))"

datatype f64 = NaN | NInf | Fin rat | PInf

definition fl_pos :: "rat \<Rightarrow> rat option" where
  "fl_pos q = (let e = ulp_exp q; m = fl_mant q
               in if 971 < e \<or> (e = 971 \<and> 2 ^ 53 \<le> m) then None
                  else Some (of_int m * pow2 e))"

definition fl :: "rat \<Rightarrow> f64" where
  "fl q = (if q = 0 then Fin 0
           else if 0 < q then (case fl_pos q of None \<Rightarrow> PInf | Some m \<Rightarrow> Fin m)
           else (case fl_pos (- q) of None \<Rightarrow> NInf | Some m \<Rightarrow> Fin (- m)))"

lemma pow2_pos [simp]: "0 < pow2 e"
  by (simp add: pow2_def)

lemma pow2_nonneg [simp]: "0 \<le> pow2 e"
  using pow2_pos[of e] by linarith

lemma pow2_neq0 [simp]: "pow2 e \<noteq> 0"
  using pow2_pos[of e] by linarith

lemma pow2_0 [simp]: "pow2 0 = 1"
  by (simp add: pow2_def)

lemma pow2_add: "pow2 (a + b) = pow2 a * pow2 b"
  by (simp add: pow2_def power_int_add)

lemma pow2_nat: "0 \<le> e \<Longrightarrow> pow2 e = of_int (2 ^ nat e)"
  by (simp add: pow2_def power_int_def)

lemma pow2_mono: "a \<le> b \<Longrightarrow> pow2 a \<le> pow2 b"
  by (simp add: pow2_def power_int_increasing)

lemma pow2_strict_mono: "a < b \<Longrightarrow> pow2 a < pow2 b"
  by (simp add: pow2_def power_int_strict_increasing)

lemma pow2_less_iff: "pow2 a < pow2 b \<longleftrightarrow> a < b"
  using pow2_strict_mono[of a b] pow2_mono[of b a] by linarith

lemma pow2_le_iff: "pow2 a \<le> pow2 b \<longleftrightarrow> a \<le> b"
  using pow2_strict_mono[of b a] pow2_mono[of a b] by linarith

lemma pow2_diff: "pow2 (a - b) = pow2 a / pow2 b"
  by (simp add: pow2_def power_int_diff)

lemma floorlog2_bounds:
  assumes "0 < n"
  shows "pow2 (int (floorlog 2 (nat n)) - 1) \<le> of_int n"
    and "of_int n < pow2 (int (floorlog 2 (nat n)))"
proof -
  let ?k = "floorlog 2 (nat n)"
  have b: "2 ^ (?k - 1) \<le> nat n \<and> nat n < 2 ^ ?k"
    using assms by (intro floorlog_bounds) auto
  have kpos: "0 < ?k"
    using assms by (simp add: floorlog_def)
  have "(2::int) ^ (?k - 1) \<le> n" and hi: "n < 2 ^ ?k"
    using b assms by (simp_all add: nat_less_iff le_nat_iff)
  then have "(of_int (2 ^ (?k - 1)) :: rat) \<le> of_int n"
    by (simp only: of_int_le_iff)
  moreover have "pow2 (int ?k - 1) = of_int (2 ^ (?k - 1))"
    using kpos by (subst pow2_nat) (auto simp: nat_diff_distrib)
  ultimately show "pow2 (int ?k - 1) \<le> of_int n" by simp
  have "(of_int n :: rat) < of_int (2 ^ ?k)"
    using hi by (simp only: of_int_less_iff)
  then show "of_int n < pow2 (int ?k)" by (simp add: pow2_nat)
qed

lemma ilog2_bounds:
  assumes "0 < q"
  shows "pow2 (ilog2 q) \<le> q" and "q < pow2 (ilog2 q + 1)"
proof -
  obtain n d where nd: "quotient_of q = (n, d)" by fastforce
  then have d: "0 < d" and q: "q = of_int n / of_int d"
    by (auto simp: quotient_of_denom_pos quotient_of_div)
  with assms have n: "0 < n"
    by (simp add: zero_less_divide_iff)
  define a where "a = int (floorlog 2 (nat n))"
  define b where "b = int (floorlog 2 (nat d))"
  have n_lo: "pow2 (a - 1) \<le> of_int n" and n_hi: "of_int n < pow2 a"
    using floorlog2_bounds[OF n] by (simp_all add: a_def)
  have d_lo: "pow2 (b - 1) \<le> of_int d" and d_hi: "of_int d < pow2 b"
    using floorlog2_bounds[OF d] by (simp_all add: b_def)
  have dpos: "(0::rat) < of_int d" using d by simp
  have lo: "pow2 (a - b - 1) \<le> q"
  proof -
    have "pow2 (a - b - 1) * of_int d \<le> pow2 (a - b - 1) * pow2 b"
      using d_hi by (intro mult_left_mono) auto
    also have "\<dots> = pow2 (a - 1)" by (simp add: pow2_add[symmetric])
    also have "\<dots> \<le> of_int n" by (rule n_lo)
    finally show ?thesis using dpos by (simp add: q pos_le_divide_eq)
  qed
  have hi: "q < pow2 (a - b + 1)"
  proof -
    have "of_int n < pow2 a" by (rule n_hi)
    also have "\<dots> = pow2 (a - b + 1) * pow2 (b - 1)" by (simp add: pow2_add[symmetric])
    also have "\<dots> \<le> pow2 (a - b + 1) * of_int d"
      using d_lo by (intro mult_left_mono) auto
    finally show ?thesis using dpos by (simp add: q pos_divide_less_eq)
  qed
  have il: "ilog2 q = (if pow2 (a - b) \<le> q then a - b else a - b - 1)"
    by (simp add: ilog2_def nd Let_def a_def b_def)
  show "pow2 (ilog2 q) \<le> q" using lo by (simp add: il)
  show "q < pow2 (ilog2 q + 1)" using hi by (auto simp: il not_le)
qed

lemma ilog2_mono: "0 < q \<Longrightarrow> q \<le> r \<Longrightarrow> ilog2 q \<le> ilog2 r"
proof -
  assume q: "0 < q" and qr: "q \<le> r"
  have "pow2 (ilog2 q) < pow2 (ilog2 r + 1)"
    using ilog2_bounds(1)[OF q] qr ilog2_bounds(2)[of r] q by linarith
  then show ?thesis by (simp add: pow2_less_iff)
qed

lemma ilog2_unique: "pow2 k \<le> q \<Longrightarrow> q < pow2 (k + 1) \<Longrightarrow> ilog2 q = k"
proof -
  assume lo: "pow2 k \<le> q" and hi: "q < pow2 (k + 1)"
  have q: "0 < q" using lo pow2_pos[of k] by linarith
  have "pow2 (ilog2 q) < pow2 (k + 1)" "pow2 k < pow2 (ilog2 q + 1)"
    using ilog2_bounds[OF q] lo hi by linarith+
  then show ?thesis by (simp add: pow2_less_iff)
qed

subsection \<open>Round half to even\<close>

lemma round_even_of_int [simp]: "round_even (of_int n) = n"
  by (simp add: round_even_def)

lemma floor_numeral_divide [simp]: "\<lfloor>numeral a / (numeral b :: rat)\<rfloor> = numeral a div numeral b"
  using floor_divide_of_int_eq[of "numeral a" "numeral b", where ?'a = rat] by simp

lemma round_even_bounds: "\<lfloor>q\<rfloor> \<le> round_even q" "round_even q \<le> \<lfloor>q\<rfloor> + 1"
  by (auto simp: round_even_def Let_def)

lemma round_even_close: "\<bar>of_int (round_even q) - q\<bar> \<le> 1 / 2"
  using floor_correct[of q] by (auto simp: round_even_def Let_def abs_le_iff)

lemma round_even_mono: "q \<le> r \<Longrightarrow> round_even q \<le> round_even r"
proof -
  assume qr: "q \<le> r"
  have f: "\<lfloor>q\<rfloor> \<le> \<lfloor>r\<rfloor>" using qr by (rule floor_mono)
  show ?thesis
  proof (cases "\<lfloor>q\<rfloor> = \<lfloor>r\<rfloor>")
    case True
    then show ?thesis using qr by (auto simp: round_even_def Let_def)
  next
    case False
    then have "\<lfloor>q\<rfloor> + 1 \<le> \<lfloor>r\<rfloor>" using f by linarith
    then show ?thesis using round_even_bounds[of q] round_even_bounds[of r] by linarith
  qed
qed

lemma round_even_unique: "\<bar>of_int n - q\<bar> < 1 / 2 \<Longrightarrow> round_even q = n"
proof -
  assume n: "\<bar>of_int n - q\<bar> < 1 / 2"
  have "\<bar>of_int (round_even q) - of_int n\<bar> < (1::rat)"
    using n round_even_close[of q] by linarith
  then have "\<bar>round_even q - n\<bar> < 1" by linarith
  then show ?thesis by simp
qed

subsection \<open>Rounding is monotone\<close>

definition fl_mag :: "rat \<Rightarrow> rat" where
  "fl_mag q = of_int (fl_mant q) * pow2 (ulp_exp q)"

lemma fl_mag_le_pow2:
  assumes "0 < q" "q \<le> pow2 j" "- 1074 \<le> j"
  shows "fl_mag q \<le> pow2 j"
proof -
  have "pow2 (ilog2 q) \<le> pow2 j" using ilog2_bounds(1)[OF assms(1)] assms(2) by linarith
  then have e: "ulp_exp q \<le> j" using assms(3) by (simp add: ulp_exp_def pow2_le_iff)
  have "q / pow2 (ulp_exp q) \<le> pow2 (j - ulp_exp q)"
    using assms(2) by (simp add: pow2_diff divide_right_mono)
  also have "\<dots> = of_int (2 ^ nat (j - ulp_exp q))" using e by (intro pow2_nat) simp
  finally have "fl_mant q \<le> 2 ^ nat (j - ulp_exp q)"
    unfolding fl_mant_def by (metis round_even_mono round_even_of_int)
  then have "of_int (fl_mant q) \<le> (of_int (2 ^ nat (j - ulp_exp q)) :: rat)"
    by (simp only: of_int_le_iff)
  also have "\<dots> = pow2 (j - ulp_exp q)" using e by (intro pow2_nat[symmetric]) simp
  finally have "fl_mag q \<le> pow2 (j - ulp_exp q) * pow2 (ulp_exp q)"
    unfolding fl_mag_def by (intro mult_right_mono) (simp_all add: less_imp_le)
  then show ?thesis by (simp add: pow2_add[symmetric])
qed

lemma fl_mag_ge_pow2:
  assumes "pow2 j \<le> q" "ulp_exp q \<le> j"
  shows "pow2 j \<le> fl_mag q"
proof -
  have "of_int (2 ^ nat (j - ulp_exp q)) = pow2 (j - ulp_exp q)"
    using assms(2) by (intro pow2_nat[symmetric]) simp
  also have "\<dots> \<le> q / pow2 (ulp_exp q)"
    using assms(1) by (simp add: pow2_diff divide_right_mono)
  finally have "2 ^ nat (j - ulp_exp q) \<le> fl_mant q"
    unfolding fl_mant_def by (metis round_even_mono round_even_of_int)
  then have "of_int (2 ^ nat (j - ulp_exp q)) \<le> (of_int (fl_mant q) :: rat)"
    by (simp only: of_int_le_iff)
  moreover have "pow2 (j - ulp_exp q) = of_int (2 ^ nat (j - ulp_exp q))"
    using assms(2) by (intro pow2_nat) simp
  ultimately have "pow2 (j - ulp_exp q) \<le> of_int (fl_mant q)" by (simp only:)
  then have "pow2 (j - ulp_exp q) * pow2 (ulp_exp q) \<le> fl_mag q"
    unfolding fl_mag_def by (intro mult_right_mono) simp_all
  then show ?thesis by (simp add: pow2_add[symmetric])
qed

lemma fl_mag_mono:
  assumes "0 < q" "q \<le> r"
  shows "fl_mag q \<le> fl_mag r"
proof (cases "ulp_exp q = ulp_exp r")
  case True
  have "q / pow2 (ulp_exp q) \<le> r / pow2 (ulp_exp q)"
    using assms(2) by (intro divide_right_mono) (simp_all add: less_imp_le)
  then have "fl_mant q \<le> fl_mant r"
    unfolding fl_mant_def True by (rule round_even_mono)
  then show ?thesis
    unfolding fl_mag_def True by (intro mult_right_mono) (simp_all add: less_imp_le)
next
  case False
  have r: "0 < r" using assms by linarith
  have le: "ulp_exp q \<le> ulp_exp r"
    using ilog2_mono[OF assms] by (simp add: ulp_exp_def)
  with False have rr: "ulp_exp r = ilog2 r - 52" "- 1074 \<le> ilog2 r" "ilog2 q < ilog2 r"
    by (auto simp: ulp_exp_def)
  have "q \<le> pow2 (ilog2 r)"
    using ilog2_bounds(2)[OF assms(1)] rr(3) pow2_mono[of "ilog2 q + 1" "ilog2 r"] by linarith
  then have "fl_mag q \<le> pow2 (ilog2 r)" using fl_mag_le_pow2 assms(1) rr(2) by blast
  also have "\<dots> \<le> fl_mag r" using fl_mag_ge_pow2 ilog2_bounds(1)[OF r] rr(1) by simp
  finally show ?thesis .
qed

lemma fl_mag_nonneg: "0 < q \<Longrightarrow> 0 \<le> fl_mag q"
proof -
  assume "0 < q"
  then have "(of_int 0::rat) \<le> q / pow2 (ulp_exp q)" by (simp add: less_imp_le)
  then have "0 \<le> fl_mant q"
    unfolding fl_mant_def by (metis round_even_mono round_even_of_int)
  then show ?thesis by (simp add: fl_mag_def less_imp_le)
qed

lemma fl_mant_le: "0 < q \<Longrightarrow> - 1074 \<le> ilog2 q - 52 \<Longrightarrow> fl_mant q \<le> 2 ^ 53 \<and> 2 ^ 52 \<le> fl_mant q"
proof -
  assume q: "0 < q" and n: "- 1074 \<le> ilog2 q - 52"
  have e: "ulp_exp q = ilog2 q - 52" using n by (simp add: ulp_exp_def)
  have "q / pow2 (ulp_exp q) \<le> pow2 53"
    using ilog2_bounds(2)[OF q] pow2_add[of 53 "ilog2 q - 52"]
    by (simp add: e divide_le_eq add.commute)
  then have u: "q / pow2 (ulp_exp q) \<le> of_int (2 ^ 53)" by (simp add: pow2_nat)
  have "pow2 52 \<le> q / pow2 (ulp_exp q)"
    using ilog2_bounds(1)[OF q] pow2_add[of 52 "ilog2 q - 52"]
    by (simp add: e le_divide_eq)
  then have l: "of_int (2 ^ 52) \<le> q / pow2 (ulp_exp q)" by (simp add: pow2_nat)
  show ?thesis
    unfolding fl_mant_def using u l by (metis round_even_mono round_even_of_int)
qed


subsection \<open>Comparison\<close>

fun fle :: "f64 \<Rightarrow> f64 \<Rightarrow> bool" where
  "fle NaN _ = False"
| "fle _ NaN = False"
| "fle NInf _ = True"
| "fle _ PInf = True"
| "fle PInf _ = False"
| "fle _ NInf = False"
| "fle (Fin a) (Fin b) = (a \<le> b)"

fun flt :: "f64 \<Rightarrow> f64 \<Rightarrow> bool" where
  "flt NaN _ = False"
| "flt _ NaN = False"
| "flt PInf _ = False"
| "flt _ NInf = False"
| "flt NInf _ = True"
| "flt _ PInf = True"
| "flt (Fin a) (Fin b) = (a < b)"

definition feq :: "f64 \<Rightarrow> f64 \<Rightarrow> bool" where
  "feq x y = (x = y \<and> x \<noteq> NaN)"

definition is_finite :: "f64 \<Rightarrow> bool" where
  "is_finite x = (case x of Fin _ \<Rightarrow> True | _ \<Rightarrow> False)"

lemma is_finite_simps [simp]:
  "is_finite (Fin q)" "\<not> is_finite NaN" "\<not> is_finite PInf" "\<not> is_finite NInf"
  by (simp_all add: is_finite_def)

lemma is_finiteE: "is_finite x \<Longrightarrow> (\<And>q. x = Fin q \<Longrightarrow> P) \<Longrightarrow> P"
  by (cases x) simp_all

lemma fle_refl: "x \<noteq> NaN \<Longrightarrow> fle x x"
  by (cases x) simp_all

lemma fle_trans: "fle x y \<Longrightarrow> fle y z \<Longrightarrow> fle x z"
  by (cases x; cases y; cases z) auto

lemma flt_fle_trans: "flt x y \<Longrightarrow> fle y z \<Longrightarrow> flt x z"
  by (cases x; cases y; cases z) auto

lemma fle_flt_trans: "fle x y \<Longrightarrow> flt y z \<Longrightarrow> flt x z"
  by (cases x; cases y; cases z) auto

lemma flt_imp_fle: "flt x y \<Longrightarrow> fle x y"
  by (cases x; cases y) auto

lemma fle_antisym: "fle x y \<Longrightarrow> fle y x \<Longrightarrow> x = y"
  by (cases x; cases y) auto

lemma not_flt: "x \<noteq> NaN \<Longrightarrow> y \<noteq> NaN \<Longrightarrow> (\<not> flt x y) = fle y x"
  by (cases x; cases y) auto

subsection \<open>Rounding respects order, sign and exact values\<close>

lemma fl_pos_cases:
  assumes "0 < q"
  shows "fl q = (if 971 < ulp_exp q \<or> (ulp_exp q = 971 \<and> 2 ^ 53 \<le> fl_mant q) then PInf
                 else Fin (fl_mag q))"
  using assms by (simp add: fl_def fl_pos_def fl_mag_def Let_def)

lemma fl_neg: "fl (- q) = (case fl q of NaN \<Rightarrow> NaN | NInf \<Rightarrow> PInf | Fin r \<Rightarrow> Fin (- r) | PInf \<Rightarrow> NInf)"
  by (auto simp: fl_def split: option.splits)

lemma fl_not_NaN [simp]: "fl q \<noteq> NaN"
  by (simp add: fl_def split: option.splits)

lemma fl_0 [simp]: "fl 0 = Fin 0"
  by (simp add: fl_def)

lemma fl_overflow_mono:
  assumes "0 < q" "q \<le> r" "971 < ulp_exp q \<or> (ulp_exp q = 971 \<and> 2 ^ 53 \<le> fl_mant q)"
  shows "971 < ulp_exp r \<or> (ulp_exp r = 971 \<and> 2 ^ 53 \<le> fl_mant r)"
proof -
  have e: "ulp_exp q \<le> ulp_exp r" using ilog2_mono[OF assms(1,2)] by (simp add: ulp_exp_def)
  show ?thesis
  proof (cases "ulp_exp q = ulp_exp r")
    case True
    have "q / pow2 (ulp_exp q) \<le> r / pow2 (ulp_exp q)"
      using assms(2) by (intro divide_right_mono) simp_all
    then have "fl_mant q \<le> fl_mant r" unfolding fl_mant_def True by (rule round_even_mono)
    then show ?thesis using assms(3) True by auto
  qed (use e assms(3) in auto)
qed

lemma fl_pos_mono: "0 < q \<Longrightarrow> q \<le> r \<Longrightarrow> fle (fl q) (fl r)"
  using fl_overflow_mono[of q r] fl_mag_mono[of q r] by (auto simp: fl_pos_cases)

lemma fl_nonneg: "0 \<le> q \<Longrightarrow> fle (Fin 0) (fl q)"
  using fl_mag_nonneg[of q] by (cases "q = 0") (auto simp: fl_pos_cases)

lemma fl_nonpos: "q \<le> 0 \<Longrightarrow> fle (fl q) (Fin 0)"
  using fl_nonneg[of "- q"] by (cases "fl q") (auto simp: fl_neg)

lemma fl_mono: "q \<le> r \<Longrightarrow> fle (fl q) (fl r)"
proof -
  assume qr: "q \<le> r"
  consider "0 < q" | "q \<le> 0" "0 \<le> r" | "r < 0" using qr by linarith
  then show ?thesis
  proof cases
    case 1 then show ?thesis using qr by (rule fl_pos_mono)
  next
    case 2 then show ?thesis using fl_nonpos[of q] fl_nonneg[of r] fle_trans by blast
  next
    case 3
    then have "fle (fl (- r)) (fl (- q))" using qr by (intro fl_pos_mono) simp_all
    then show ?thesis by (cases "fl q"; cases "fl r") (auto simp: fl_neg)
  qed
qed

lemma fl_exact_pos:
  assumes "0 < m" "m < 2 ^ 53" "- 1074 \<le> e" "e \<le> 971"
  shows "fl (of_int m * pow2 e) = Fin (of_int m * pow2 e)"
proof -
  define q where "q = of_int m * pow2 e"
  have q: "0 < q" using assms(1) by (simp add: q_def)
  have "of_int m < (of_int (2 ^ 53) :: rat)" using assms(2) by (simp only: of_int_less_iff)
  also have "\<dots> = pow2 53" by (simp add: pow2_nat)
  finally have "q < pow2 53 * pow2 e" by (simp add: q_def)
  then have "q < pow2 (53 + e)" by (simp add: pow2_add)
  then have "pow2 (ilog2 q) < pow2 (53 + e)" using ilog2_bounds(1)[OF q] by linarith
  then have e: "ulp_exp q \<le> e" using assms(3) by (simp add: pow2_less_iff ulp_exp_def)
  define k where "k = m * 2 ^ nat (e - ulp_exp q)"
  have "q / pow2 (ulp_exp q) = of_int m * pow2 (e - ulp_exp q)"
    by (simp add: q_def pow2_diff)
  also have "\<dots> = of_int k" using e by (simp add: k_def pow2_nat)
  finally have k: "q / pow2 (ulp_exp q) = of_int k" .
  then have mant: "fl_mant q = k" by (simp add: fl_mant_def)
  have mag: "fl_mag q = q" using k by (simp add: fl_mag_def mant field_simps)
  have "ulp_exp q = 971 \<Longrightarrow> k < 2 ^ 53" using e assms(2,4) by (simp add: k_def)
  then show ?thesis using e assms(4) q mag by (auto simp: fl_pos_cases mant q_def[symmetric])
qed

lemma fl_exact:
  assumes "\<bar>m\<bar> < 2 ^ 53" "- 1074 \<le> e" "e \<le> 971"
  shows "fl (of_int m * pow2 e) = Fin (of_int m * pow2 e)"
proof -
  consider "m = 0" | "0 < m" | "m < 0" by linarith
  then show ?thesis
  proof cases
    case 3
    have "fl (- (of_int (- m) * pow2 e)) = Fin (of_int m * pow2 e)"
      using fl_exact_pos[of "- m" e] 3 assms by (subst fl_neg) simp
    then show ?thesis by simp
  qed (use assms fl_exact_pos in auto)
qed

lemma fl_of_int: "\<bar>n\<bar> < 2 ^ 53 \<Longrightarrow> fl (of_int n) = Fin (of_int n)"
  using fl_exact[of n 0] by simp

lemma fl_of_nat: "n < 2 ^ 53 \<Longrightarrow> fl (of_nat n) = Fin (of_nat n)"
  using fl_of_int[of "int n"] by simp

lemma fl_numeral: "(numeral n :: int) < 2 ^ 53 \<Longrightarrow> fl (numeral n) = Fin (numeral n)"
  using fl_of_int[of "numeral n"] by simp

lemma fl_1 [simp]: "fl 1 = Fin 1"
  using fl_of_int[of 1] by simp

lemma fl_eqI:
  assumes "pow2 (e + 52) \<le> q" "q < pow2 (e + 53)" "round_even (q / pow2 e) = m"
    "- 1074 \<le> e" "e < 971"
  shows "fl q = Fin (of_int m * pow2 e)"
proof -
  have q: "0 < q" using assms(1) pow2_pos[of "e + 52"] by linarith
  have "ilog2 q = e + 52" using assms(1,2) by (intro ilog2_unique) (simp_all add: add.assoc)
  then have u: "ulp_exp q = e" using assms(4) by (simp add: ulp_exp_def)
  have "fl_mant q = m" using assms(3) by (simp add: fl_mant_def u)
  then show ?thesis using q u assms(5) by (simp add: fl_pos_cases fl_mag_def)
qed

subsection \<open>Arithmetic\<close>

fun fneg :: "f64 \<Rightarrow> f64" where
  "fneg NaN = NaN"
| "fneg NInf = PInf"
| "fneg PInf = NInf"
| "fneg (Fin a) = Fin (- a)"

fun fadd :: "f64 \<Rightarrow> f64 \<Rightarrow> f64" where
  "fadd NaN _ = NaN"
| "fadd _ NaN = NaN"
| "fadd PInf NInf = NaN"
| "fadd NInf PInf = NaN"
| "fadd PInf _ = PInf"
| "fadd _ PInf = PInf"
| "fadd NInf _ = NInf"
| "fadd _ NInf = NInf"
| "fadd (Fin a) (Fin b) = fl (a + b)"

definition fsub :: "f64 \<Rightarrow> f64 \<Rightarrow> f64" where
  "fsub x y = fadd x (fneg y)"

fun signum :: "f64 \<Rightarrow> int" where
  "signum NaN = 0"
| "signum NInf = - 1"
| "signum PInf = 1"
| "signum (Fin a) = (if 0 < a then 1 else if a < 0 then - 1 else 0)"

definition finf :: "int \<Rightarrow> f64" where
  "finf s = (if 0 < s then PInf else if s < 0 then NInf else NaN)"

definition fmul :: "f64 \<Rightarrow> f64 \<Rightarrow> f64" where
  "fmul x y = (case (x, y) of
      (NaN, _) \<Rightarrow> NaN
    | (_, NaN) \<Rightarrow> NaN
    | (Fin a, Fin b) \<Rightarrow> fl (a * b)
    | _ \<Rightarrow> finf (signum x * signum y))"

definition fdiv :: "f64 \<Rightarrow> f64 \<Rightarrow> f64" where
  "fdiv x y = (case (x, y) of
      (NaN, _) \<Rightarrow> NaN
    | (_, NaN) \<Rightarrow> NaN
    | (Fin a, Fin b) \<Rightarrow> (if b = 0 then finf (signum x) else fl (a / b))
    | (Fin a, _) \<Rightarrow> Fin 0
    | (_, Fin b) \<Rightarrow> (if b < 0 then fneg x else x)
    | _ \<Rightarrow> NaN)"

definition fmax :: "f64 \<Rightarrow> f64 \<Rightarrow> f64" where
  "fmax x y = (if x = NaN then y else if y = NaN then x else if flt x y then y else x)"

definition fmin :: "f64 \<Rightarrow> f64 \<Rightarrow> f64" where
  "fmin x y = (if x = NaN then y else if y = NaN then x else if flt y x then y else x)"

definition fclamp :: "f64 \<Rightarrow> f64 \<Rightarrow> f64 \<Rightarrow> f64" where
  "fclamp x lo hi = (let x' = (if flt x lo then lo else x) in if flt hi x' then hi else x')"

fun fceil :: "f64 \<Rightarrow> f64" where
  "fceil (Fin a) = Fin (of_int \<lceil>a\<rceil>)"
| "fceil x = x"

definition round_away :: "rat \<Rightarrow> int" where
  "round_away q = (if 0 \<le> q then \<lfloor>q + 1 / 2\<rfloor> else - \<lfloor>- q + 1 / 2\<rfloor>)"

fun fround :: "f64 \<Rightarrow> f64" where
  "fround (Fin a) = Fin (of_int (round_away a))"
| "fround x = x"

definition trunc :: "rat \<Rightarrow> int" where
  "trunc q = (if 0 \<le> q then \<lfloor>q\<rfloor> else \<lceil>q\<rceil>)"

definition sat_cast :: "int \<Rightarrow> int \<Rightarrow> f64 \<Rightarrow> int" where
  "sat_cast lo hi x = (case x of
      NaN \<Rightarrow> 0 | NInf \<Rightarrow> lo | PInf \<Rightarrow> hi | Fin a \<Rightarrow> max lo (min hi (trunc a)))"

definition f64_as_u32 :: "f64 \<Rightarrow> 32 word" where
  "f64_as_u32 x = of_int (sat_cast 0 (2 ^ 32 - 1) x)"

definition f64_as_i64 :: "f64 \<Rightarrow> int" where
  "f64_as_i64 = sat_cast (- (2 ^ 63)) (2 ^ 63 - 1)"

definition f64_as_usize :: "f64 \<Rightarrow> nat" where
  "f64_as_usize x = nat (sat_cast 0 (2 ^ 64 - 1) x)"

definition f64_of_int :: "int \<Rightarrow> f64" where
  "f64_of_int n = fl (of_int n)"

definition f64_of_nat :: "nat \<Rightarrow> f64" where
  "f64_of_nat n = fl (of_nat n)"

definition f64_of_u32 :: "32 word \<Rightarrow> f64" where
  "f64_of_u32 w = f64_of_nat (unat w)"

fun f64_rank :: "f64 \<Rightarrow> int \<times> rat" where
  "f64_rank NInf = (0, 0)"
| "f64_rank (Fin a) = (1, a)"
| "f64_rank PInf = (2, 0)"
| "f64_rank NaN = (3, 0)"

definition total_le :: "f64 \<Rightarrow> f64 \<Rightarrow> bool" where
  "total_le x y = (fst (f64_rank x) < fst (f64_rank y) \<or>
     (fst (f64_rank x) = fst (f64_rank y) \<and> snd (f64_rank x) \<le> snd (f64_rank y)))"

subsection \<open>Monotone arithmetic\<close>

lemma fle_NInf [simp]: "fle NInf x \<longleftrightarrow> x \<noteq> NaN"
  by (cases x) simp_all

lemma fle_PInf [simp]: "fle x PInf \<longleftrightarrow> x \<noteq> NaN"
  by (cases x) simp_all

lemma fdiv_Fin: "b \<noteq> 0 \<Longrightarrow> fdiv (Fin a) (Fin b) = fl (a / b)"
  by (simp add: fdiv_def)

lemma fmul_Fin [simp]: "fmul (Fin a) (Fin b) = fl (a * b)"
  by (simp add: fmul_def)

lemma fsub_Fin [simp]: "fsub (Fin a) (Fin b) = fl (a - b)"
  by (simp add: fsub_def)

lemma fadd_mono_right:
  "fle y z \<Longrightarrow> fadd x y \<noteq> NaN \<Longrightarrow> fadd x z \<noteq> NaN \<Longrightarrow> fle (fadd x y) (fadd x z)"
  by (cases x; cases y; cases z) (auto intro: fl_mono fle_refl)

lemma fadd_mono_left:
  "fle y z \<Longrightarrow> fadd y x \<noteq> NaN \<Longrightarrow> fadd z x \<noteq> NaN \<Longrightarrow> fle (fadd y x) (fadd z x)"
  by (cases x; cases y; cases z) (auto intro: fl_mono fle_refl)

lemma fneg_antimono: "fle x y \<Longrightarrow> fle (fneg y) (fneg x)"
  by (cases x; cases y) auto

lemma fneg_NaN_iff [simp]: "fneg x = NaN \<longleftrightarrow> x = NaN"
  by (cases x) auto

lemma fmul_mono_nonneg:
  assumes "fle x y" "fle (Fin 0) z" "fmul x z \<noteq> NaN" "fmul y z \<noteq> NaN"
  shows "fle (fmul x z) (fmul y z)"
  using assms
  by (cases x; cases y; cases z)
     (auto simp: fmul_def finf_def mult_right_mono split: if_splits intro: fl_mono)

lemma fmul_nonneg:
  "fle (Fin 0) x \<Longrightarrow> fle (Fin 0) y \<Longrightarrow> fmul x y \<noteq> NaN \<Longrightarrow> fle (Fin 0) (fmul x y)"
  by (cases x; cases y) (auto simp: fmul_def finf_def intro: fl_nonneg split: if_splits)

end
