(* ===== verification/Core.thy ===== *)
theory Core
  imports Prelude
begin

text \<open>
  The crate \<^verbatim>\<open>ccs-core\<close>: branded identifiers (\<^verbatim>\<open>ids.rs\<close>), units
  (\<^verbatim>\<open>units.rs\<close>), the closed tag enums with their wire spellings
  (\<^verbatim>\<open>kind.rs\<close>), line ranges (\<^verbatim>\<open>range.rs\<close>) and the token estimator with its
  per-session calibration (\<^verbatim>\<open>estimate.rs\<close>).
\<close>

section \<open>Identifiers and units\<close>

datatype ModelId = ModelId (model_str: str)

datatype MessageId = MessageId (message_str: str)

datatype SessionId = SessionId (session_str: str)

datatype RefId = RefId (ref_str: str)

datatype RefIdError = MissingPrefix | BadLength | NonHex

type_synonym TokenCount = u32
type_synonym ByteOffset = nat
type_synonym Generation = nat

definition REF_PREFIX :: str where
  "REF_PREFIX = lit ''sha256:''"

definition REF_HEX_LEN :: nat where
  "REF_HEX_LEN = 64"

definition is_lower_hex :: "nat \<Rightarrow> bool" where
  "is_lower_hex b = ((48 \<le> b \<and> b \<le> 57) \<or> (97 \<le> b \<and> b \<le> 102))"

definition RefId_parse :: "str \<Rightarrow> RefIdError + RefId" where
  "RefId_parse s = (case strip_prefix REF_PREFIX s of
      None \<Rightarrow> Inl MissingPrefix
    | Some digest \<Rightarrow>
        if str_len digest = REF_HEX_LEN
        then if list_all is_lower_hex (utf8 digest) then Inr (RefId s) else Inl NonHex
        else Inl BadLength)"

record LineRange =
  lr_start :: nat
  lr_end :: nat

datatype SegmentKind = UserTurn | AssistantTurn | ToolPair | System | Tools

datatype ChoiceTag = Truncate | Summarize | Compress | Keep

fun SegmentKind_wire :: "SegmentKind \<Rightarrow> str" where
  "SegmentKind_wire UserTurn = lit ''user_turn''"
| "SegmentKind_wire AssistantTurn = lit ''assistant_turn''"
| "SegmentKind_wire ToolPair = lit ''tool_pair''"
| "SegmentKind_wire System = lit ''system''"
| "SegmentKind_wire Tools = lit ''tools''"

fun ChoiceTag_wire :: "ChoiceTag \<Rightarrow> str" where
  "ChoiceTag_wire Truncate = lit ''truncate''"
| "ChoiceTag_wire Summarize = lit ''summarize''"
| "ChoiceTag_wire Compress = lit ''compress''"
| "ChoiceTag_wire Keep = lit ''keep''"

section \<open>Token estimation and calibration\<close>

definition estimate_chars_proxy :: "str \<Rightarrow> TokenCount" where
  "estimate_chars_proxy text = f64_as_u32 (fceil (fdiv (f64_of_nat (length text)) (fl (7 / 2))))"

definition CALIBRATION_ALPHA :: f64 where
  "CALIBRATION_ALPHA = fl (3 / 10)"

datatype TokenScale = TokenScale (scale_get: f64)

definition TokenScale_default :: TokenScale where
  "TokenScale_default = TokenScale (fl 1)"

definition TokenScale_fold :: "TokenScale \<Rightarrow> f64 \<Rightarrow> f64 \<Rightarrow> TokenScale" where
  "TokenScale_fold self observed estimated =
     (if \<not> (is_finite observed \<and> is_finite estimated) \<or> fle observed (fl 0) \<or> fle estimated (fl 0)
      then self
      else let ratio = fdiv observed estimated
           in if feq (scale_get self) (scale_get TokenScale_default) then TokenScale ratio
              else TokenScale (fadd (fmul (fsub (fl 1) CALIBRATION_ALPHA) (scale_get self))
                                    (fmul CALIBRATION_ALPHA ratio)))"

definition TokenScale_apply :: "TokenScale \<Rightarrow> TokenCount \<Rightarrow> TokenCount" where
  "TokenScale_apply self estimate = f64_as_u32 (fround (fmul (f64_of_u32 estimate) (scale_get self)))"

definition TokenScale_apply_signed :: "TokenScale \<Rightarrow> int \<Rightarrow> int" where
  "TokenScale_apply_signed self estimate = f64_as_i64 (fround (fmul (f64_of_int estimate) (scale_get self)))"

section \<open>Reference identifiers\<close>

lemma utf8_ascii: "\<forall>c \<in> set s. c < 128 \<Longrightarrow> utf8 s = s"
  by (induction s) (simp_all add: utf8_def utf8_char_def)

lemma is_lower_hex_ascii: "is_lower_hex b \<Longrightarrow> b < 128"
  by (auto simp: is_lower_hex_def)

text \<open>A scalar whose bytes are all below 128 is ASCII, so a string whose UTF-8 bytes are lower-case
  hex digits consists of lower-case hex digits.\<close>

lemma utf8_char_all_ascii: "list_all (\<lambda>b. b < 128) (utf8_char c) \<Longrightarrow> c < 128"
  by (auto simp: utf8_char_def split: if_splits)

lemma list_all_hex_utf8: "list_all is_lower_hex (utf8 s) \<longleftrightarrow> list_all is_lower_hex s"
proof (induction s)
  case (Cons c s)
  have "list_all is_lower_hex (utf8_char c) \<longleftrightarrow> is_lower_hex c"
  proof
    assume h: "list_all is_lower_hex (utf8_char c)"
    then have "c < 128" by (intro utf8_char_all_ascii) (auto simp: list_all_iff is_lower_hex_ascii)
    with h show "is_lower_hex c" by (simp add: utf8_char_def)
  qed (simp add: utf8_char_def is_lower_hex_ascii)
  then show ?case using Cons by (simp add: utf8_def)
qed (simp add: utf8_def)

definition is_ref_shape :: "str \<Rightarrow> bool" where
  "is_ref_shape s = (starts_with s REF_PREFIX \<and>
     length s = length REF_PREFIX + 64 \<and> list_all is_lower_hex (drop (length REF_PREFIX) s))"

lemma is_ref_shape_iff:
  "is_ref_shape s \<longleftrightarrow> (\<exists>d. s = REF_PREFIX @ d \<and> length d = 64 \<and> list_all is_lower_hex d)"
  by (auto simp: is_ref_shape_def starts_with_iff)

lemma RefId_parse_Inr_iff: "RefId_parse s = Inr r \<longleftrightarrow> r = RefId s \<and> is_ref_shape s"
proof -
  have hex: "list_all is_lower_hex d \<Longrightarrow> str_len d = length d" for d
    by (rule str_len_ascii) (auto simp: list_all_iff is_lower_hex_ascii)
  show ?thesis
    by (auto simp: RefId_parse_def is_ref_shape_iff list_all_hex_utf8 REF_HEX_LEN_def hex
          strip_prefix_Some_iff split: option.splits if_splits)
qed

section \<open>The estimator is exact\<close>

lemma fl_7_2: "fl (7 / 2) = Fin (7 / 2)"
  using fl_exact[of 7 "- 1"] by (simp add: pow2_def)

text \<open>A number strictly between two integers, at least an eighth above the lower one, is rounded
  to a number strictly above the lower one and at most the upper one.\<close>

lemma fl_strictly_above:
  assumes "of_int k + 1 / 8 \<le> q" "q \<le> of_int k + 1" "0 \<le> k" "k < 2 ^ 49"
  obtains r where "fl q = Fin r" "of_int k < r" "r \<le> of_int k + 1"
proof -
  have "fl (of_int (8 * k + 1) * pow2 (- 3)) = Fin (of_int (8 * k + 1) * pow2 (- 3))"
    using assms(3,4) by (intro fl_exact) simp_all
  moreover have "of_int (8 * k + 1) * pow2 (- 3) = of_int k + 1 / 8"
    by (simp add: pow2_def power_int_minus field_simps)
  ultimately have lo: "fl (of_int k + 1 / 8) = Fin (of_int k + 1 / 8)" by simp
  have hi: "fl (of_int (k + 1)) = Fin (of_int (k + 1))"
    using assms(3,4) by (intro fl_of_int) simp
  have "fle (Fin (of_int k + 1 / 8)) (fl q)" using fl_mono[OF assms(1)] by (simp only: lo)
  moreover have "fle (fl q) (Fin (of_int k + 1))"
    using fl_mono[of q "of_int (k + 1)"] assms(2) hi by simp
  ultimately show ?thesis using that by (cases "fl q") auto
qed

lemma ceil_div_7: "(m + 6) div 7 = (if m mod 7 = 0 then m div 7 else m div 7 + 1)" for m :: nat
  by presburger

lemma fceil_two_sevenths:
  assumes "n < 2 ^ 49"
  shows "fceil (fdiv (f64_of_nat n) (fl (7 / 2))) = Fin (of_int (int ((2 * n + 6) div 7)))"
proof -
  define m where "m = 2 * n"
  define k where "k = m div 7"
  define r where "r = m mod 7"
  have m: "m = 7 * k + r" "r < 7" by (simp_all add: k_def r_def)
  have k: "0 \<le> int k" "int k < 2 ^ 49" using assms m by (simp_all add: m_def)
  have div: "fdiv (f64_of_nat n) (fl (7 / 2)) = fl (of_nat m / 7)"
    using assms by (simp add: f64_of_nat_def fl_of_nat fl_7_2 fdiv_Fin m_def mult.commute)
  have c: "(2 * n + 6) div 7 = (if r = 0 then k else k + 1)"
    unfolding m_def[symmetric] ceil_div_7 by (simp add: k_def r_def)
  show ?thesis
  proof (cases "r = 0")
    case True
    then have "fl (of_nat m / 7) = Fin (of_nat k)" using m k by (simp add: fl_of_nat)
    then show ?thesis unfolding div c using True by simp
  next
    case False
    have q: "of_int (int k) + 1 / 8 \<le> (of_nat m / 7 :: rat)" "of_nat m / 7 \<le> (of_int (int k) + 1 :: rat)"
    proof -
      have "(of_nat (7 * k + 1) :: rat) \<le> of_nat m" "(of_nat m :: rat) \<le> of_nat (7 * k + 7)"
        using m False unfolding of_nat_le_iff by simp_all
      then show "of_int (int k) + 1 / 8 \<le> (of_nat m / 7 :: rat)" "of_nat m / 7 \<le> (of_int (int k) + 1 :: rat)"
        by simp_all
    qed
    obtain x where x: "fl (of_nat m / 7) = Fin x" "of_int (int k) < x" "x \<le> of_int (int k) + 1"
      using q k by (rule fl_strictly_above)
    have "\<lceil>x\<rceil> = int k + 1" using x(2,3) by (simp add: ceiling_unique)
    then show ?thesis unfolding div c x(1) using False by simp
  qed
qed

lemma estimate_chars_proxy_eq:
  assumes "length text < 2 ^ 49"
  shows "estimate_chars_proxy text = of_nat (min (2 ^ 32 - 1) ((2 * length text + 6) div 7))"
proof -
  have "trunc (of_int (int m)) = int m" for m by (simp add: trunc_def)
  then show ?thesis
    unfolding estimate_chars_proxy_def fceil_two_sevenths[OF assms] f64_as_u32_def sat_cast_def
    by (simp add: min_def)
qed

section \<open>Calibration\<close>

lemma f64_of_u32_eq: "f64_of_u32 w = Fin (of_nat (unat w))"
proof -
  have "unat w < 2 ^ 53" using unsigned_less[of w, where ?'a = nat] by simp
  then show ?thesis unfolding f64_of_u32_def f64_of_nat_def by (rule fl_of_nat)
qed

lemma round_away_of_int [simp]: "round_away (of_int n) = n"
proof -
  have "\<lfloor>of_int k + (1 / 2 :: rat)\<rfloor> = k" for k :: int by (simp add: floor_unique)
  then have "\<lfloor>of_int n + (1 / 2 :: rat)\<rfloor> = n" "\<lfloor>of_int (- n) + (1 / 2 :: rat)\<rfloor> = - n" by blast+
  then show ?thesis by (simp add: round_away_def)
qed

lemma f64_as_u32_of_nat: "k < 2 ^ 32 \<Longrightarrow> f64_as_u32 (Fin (of_nat k)) = of_nat k"
  by (simp add: f64_as_u32_def sat_cast_def trunc_def)

lemma TokenScale_apply_default: "TokenScale_apply TokenScale_default n = n"
proof -
  define k where "k = unat n"
  have k: "n = of_nat k" "k < 2 ^ 32"
    using unsigned_less[of n, where ?'a = nat] by (simp_all add: k_def)
  then have u: "unat n = k" by (simp add: unat_of_nat)
  have "fmul (f64_of_u32 n) (fl 1) = Fin (of_nat k)"
    using k(2) by (simp add: f64_of_u32_eq u fl_of_nat del: of_nat_unat)
  moreover have "round_away (of_nat k) = int k"
    using round_away_of_int[of "int k"] by simp
  ultimately show ?thesis
    using k by (simp add: TokenScale_apply_def TokenScale_default_def f64_as_u32_of_nat)
qed

lemma TokenScale_apply_signed_default:
  "\<bar>d\<bar> < 2 ^ 53 \<Longrightarrow> TokenScale_apply_signed TokenScale_default d = d"
  by (auto simp: TokenScale_apply_signed_def TokenScale_default_def f64_of_int_def fl_of_int
        f64_as_i64_def sat_cast_def trunc_def)

text \<open>The two EWMA weights as binary64 numbers.  Their sum is just below 1, by half an ulp, and
  rounds to 1: this is why the blend stays inside the interval its arguments lie in.\<close>

lemma CALIBRATION_ALPHA_eq: "CALIBRATION_ALPHA = Fin (5404319552844595 * pow2 (- 54))"
proof -
  have "fl (3 / 10) = Fin (of_int 5404319552844595 * pow2 (- 54))"
    by (rule fl_eqI) (simp_all add: pow2_def power_int_minus round_even_def Let_def)
  then show ?thesis by (simp add: CALIBRATION_ALPHA_def)
qed

lemma one_minus_alpha_eq: "fsub (fl 1) CALIBRATION_ALPHA = Fin (6305039478318694 * pow2 (- 53))"
proof -
  have "fl (1 - 5404319552844595 * pow2 (- 54)) = Fin (of_int 6305039478318694 * pow2 (- 53))"
    by (rule fl_eqI) (simp_all add: pow2_def power_int_minus round_even_def Let_def)
  then show ?thesis by (simp add: CALIBRATION_ALPHA_eq)
qed

definition scale_ok :: "TokenScale \<Rightarrow> bool" where
  "scale_ok s = (fle (Fin (pow2 (- 32))) (scale_get s) \<and> fle (scale_get s) (Fin (pow2 32)))"

lemma fl_between:
  assumes "lo \<le> q" "q \<le> hi" "fl lo = Fin lo'" "fl hi = Fin hi'"
  obtains r where "fl q = Fin r" "lo' \<le> r" "r \<le> hi'"
  using fl_mono[OF assms(1)] fl_mono[OF assms(2)] that by (cases "fl q") (auto simp: assms(3,4))

lemma fl_pow2: "- 1074 \<le> e \<Longrightarrow> e \<le> 971 \<Longrightarrow> fl (pow2 e) = Fin (pow2 e)"
  using fl_exact[of 1 e] by simp

lemma fl_dyadic_scaled:
  assumes "\<bar>m\<bar> < 2 ^ 53" "- 1074 \<le> e + k" "e + k \<le> 971"
  shows "fl (of_int m * pow2 e * pow2 k) = Fin (of_int m * pow2 e * pow2 k)"
  using fl_exact[OF assms] by (simp add: pow2_add mult.assoc)

lemma ewma_bounded:
  assumes "pow2 (- 32) \<le> s" "s \<le> pow2 32" "pow2 (- 32) \<le> r" "r \<le> pow2 32"
  shows "\<exists>t. fadd (fmul (fsub (fl 1) CALIBRATION_ALPHA) (Fin s)) (fmul CALIBRATION_ALPHA (Fin r)) = Fin t
             \<and> pow2 (- 32) \<le> t \<and> t \<le> pow2 32"
proof -
  define w :: rat where "w = 6305039478318694 * pow2 (- 53)"
  define a :: rat where "a = 5404319552844595 * pow2 (- 54)"
  have pos: "0 \<le> w" "0 \<le> a" by (simp_all add: w_def a_def)
  have wk: "fl (w * pow2 k) = Fin (w * pow2 k)" if "- 32 \<le> k" "k \<le> 32" for k
    using fl_dyadic_scaled[of 6305039478318694 "- 53" k] that by (simp add: w_def)
  have ak: "fl (a * pow2 k) = Fin (a * pow2 k)" if "- 32 \<le> k" "k \<le> 32" for k
    using fl_dyadic_scaled[of 5404319552844595 "- 54" k] that by (simp add: a_def)
  obtain x where x: "fl (w * s) = Fin x" "w * pow2 (- 32) \<le> x" "x \<le> w * pow2 32"
    using fl_between[OF mult_left_mono[OF assms(1) pos(1)] mult_left_mono[OF assms(2) pos(1)]
        wk[of "- 32"] wk[of 32]] by auto
  obtain y where y: "fl (a * r) = Fin y" "a * pow2 (- 32) \<le> y" "y \<le> a * pow2 32"
    using fl_between[OF mult_left_mono[OF assms(3) pos(2)] mult_left_mono[OF assms(4) pos(2)]
        ak[of "- 32"] ak[of 32]] by auto
  have lo: "fl ((w + a) * pow2 (- 32)) = Fin (pow2 (- 32))"
  proof -
    have "fl ((w + a) * pow2 (- 32)) = Fin (of_int 9007199254740992 * pow2 (- 85))"
      by (rule fl_eqI)
        (simp_all add: w_def a_def pow2_def power_int_minus round_even_def Let_def)
    then show ?thesis by (simp add: pow2_def power_int_minus)
  qed
  have hi: "(w + a) * pow2 32 \<le> pow2 32"
    by (simp add: w_def a_def pow2_def power_int_minus)
  have "(w + a) * pow2 (- 32) \<le> x + y" "x + y \<le> pow2 32"
    using x(2,3) y(2,3) hi by (simp_all add: distrib_right)
  then obtain t where "fl (x + y) = Fin t" "pow2 (- 32) \<le> t" "t \<le> pow2 32"
    using fl_between[OF _ _ lo fl_pow2[of 32]] by auto
  then show ?thesis
    using x(1) y(1) unfolding one_minus_alpha_eq unfolding CALIBRATION_ALPHA_eq w_def[symmetric] a_def[symmetric]
    by simp
qed

lemma u32_ratio_bounded:
  fixes m n :: "32 word"
  assumes "0 < m" "0 < n"
  shows "\<exists>r. fdiv (f64_of_u32 m) (f64_of_u32 n) = Fin r \<and> pow2 (- 32) \<le> r \<and> r \<le> pow2 32"
proof -
  define x y where "x = unat m" and "y = unat n"
  have b: "1 \<le> x" "x < 2 ^ 32" "1 \<le> y" "y < 2 ^ 32"
    using assms unsigned_less[of m, where ?'a = nat] unsigned_less[of n, where ?'a = nat]
    by (simp_all add: x_def y_def word_less_nat_alt)
  have b': "(1::rat) \<le> of_nat x" "of_nat x \<le> (2 ^ 32 :: rat)" "(1::rat) \<le> of_nat y"
    "of_nat y \<le> (2 ^ 32 :: rat)"
    using b of_nat_mono[of x "2 ^ 32", where ?'a = rat] of_nat_mono[of y "2 ^ 32", where ?'a = rat] by simp_all
  have "of_nat x / of_nat y \<le> (pow2 32 :: rat)"
    using b' by (simp add: pow2_def divide_le_eq)
  moreover have "pow2 (- 32) \<le> (of_nat x / of_nat y :: rat)"
    using b' by (simp add: pow2_def power_int_minus le_divide_eq)
  ultimately obtain r where "fl (of_nat x / of_nat y) = Fin r" "pow2 (- 32) \<le> r" "r \<le> pow2 32"
    using fl_between[OF _ _ fl_pow2[of "- 32"] fl_pow2[of 32]] by auto
  moreover have "fdiv (f64_of_u32 m) (f64_of_u32 n) = fl (of_nat x / of_nat y)"
    using b(3) by (simp add: f64_of_u32_eq x_def[symmetric] y_def[symmetric] fdiv_Fin del: of_nat_unat)
  ultimately show ?thesis by simp
qed

lemma TokenScale_fold_ok:
  assumes "scale_ok s"
  shows "scale_ok (TokenScale_fold s (f64_of_u32 observed) (f64_of_u32 estimated))"
proof (cases "0 < observed \<and> 0 < estimated")
  case True
  obtain r where r: "fdiv (f64_of_u32 observed) (f64_of_u32 estimated) = Fin r"
    "pow2 (- 32) \<le> r" "r \<le> pow2 32"
    using u32_ratio_bounded True by blast
  obtain q where q: "scale_get s = Fin q" "pow2 (- 32) \<le> q" "q \<le> pow2 32"
    using assms by (cases "scale_get s") (auto simp: scale_ok_def)
  obtain t where "fadd (fmul (fsub (fl 1) CALIBRATION_ALPHA) (Fin q)) (fmul CALIBRATION_ALPHA (Fin r)) = Fin t"
    "pow2 (- 32) \<le> t" "t \<le> pow2 32"
    using ewma_bounded[OF q(2,3) r(2,3)] by blast
  then show ?thesis
    using assms r by (simp add: TokenScale_fold_def q(1) Let_def scale_ok_def)
next
  case False
  then have "observed = 0 \<or> estimated = 0" by (auto simp: word_gt_0)
  then show ?thesis using assms by (auto simp: TokenScale_fold_def f64_of_u32_eq)
qed

lemma scale_ok_default: "scale_ok TokenScale_default"
  by (simp add: scale_ok_def TokenScale_default_def pow2_def power_int_minus)

lemma scale_ok_folds:
  "scale_ok s \<Longrightarrow> scale_ok (foldl (\<lambda>s (m, n). TokenScale_fold s (f64_of_u32 m) (f64_of_u32 n)) s obs)"
  by (induction obs arbitrary: s) (auto intro: TokenScale_fold_ok)

lemma neg_div_neg_7: "- ((- a) div 7) = (a + 6) div (7 :: int)"
  by presburger

section \<open>Properties\<close>

text \<open>C16: the token estimate of a text is exactly the ceiling of its number of characters over
  3.5, computed in binary64 as it is, with the cast to 32 bits saturating: no rounding error is
  visible for any text below \<open>2^49\<close> characters.\<close>

theorem estimate_chars_proxy_exact:
  assumes "length text < 2 ^ 49"
  shows "unat (estimate_chars_proxy text) = min (2 ^ 32 - 1) (nat \<lceil>of_nat (length text) / (7 / 2 :: rat)\<rceil>)"
proof -
  have "of_nat (length text) / (7 / 2 :: rat) = of_int (int (2 * length text)) / of_int 7" by simp
  then have "\<lceil>of_nat (length text) / (7 / 2 :: rat)\<rceil> = - ((- int (2 * length text)) div 7)"
    using ceiling_divide_eq_div[of "int (2 * length text)" 7, where ?'a = rat] by (simp add: mult.commute)
  also have "\<dots> = (int (2 * length text) + 6) div 7" by (rule neg_div_neg_7)
  also have "\<dots> = int ((2 * length text + 6) div 7)" by (simp add: zdiv_int)
  finally show ?thesis
    unfolding estimate_chars_proxy_eq[OF assms] by (simp add: unat_of_nat)
qed

theorem estimate_chars_proxy_exact_witness:
  "length (lit ''abcdefgh'') < 2 ^ 49 \<and> unat (estimate_chars_proxy (lit ''abcdefgh'')) = 3"
  using estimate_chars_proxy_exact[of "lit ''abcdefgh''"] by (simp add: ceiling_unique[of 3])

text \<open>The calibration multiplier can not be poisoned: whatever 32-bit token counts are
  observed and estimated, and however often, the folded scale is a finite number between
  \<open>2^-32\<close> and \<open>2^32\<close>; a count of zero leaves it unchanged.\<close>

theorem TokenScale_never_degenerates:
  "\<exists>q. scale_get (foldl (\<lambda>s (m, n). TokenScale_fold s (f64_of_u32 m) (f64_of_u32 n))
                    TokenScale_default obs) = Fin q \<and> 1 / 2 ^ 32 \<le> q \<and> q \<le> 2 ^ 32
   \<and> TokenScale_fold s (f64_of_u32 0) x = s \<and> TokenScale_fold s x (f64_of_u32 0) = s"
proof -
  define t where "t = foldl (\<lambda>s (m, n). TokenScale_fold s (f64_of_u32 m) (f64_of_u32 n)) TokenScale_default obs"
  have "scale_ok t" unfolding t_def by (rule scale_ok_folds[OF scale_ok_default])
  then have "\<exists>q. scale_get t = Fin q \<and> 1 / 2 ^ 32 \<le> q \<and> q \<le> 2 ^ 32"
    by (cases "scale_get t") (auto simp: scale_ok_def pow2_def power_int_minus field_simps)
  then show ?thesis unfolding t_def by (auto simp: TokenScale_fold_def f64_of_u32_eq)
qed

text \<open>An uncalibrated session prices in raw estimates: the default scale changes no 32-bit
  count, and no signed delta below \<open>2^53\<close> in magnitude.\<close>

theorem TokenScale_default_identity:
  "TokenScale_apply TokenScale_default n = n \<and>
   (\<bar>d\<bar> < 2 ^ 53 \<longrightarrow> TokenScale_apply_signed TokenScale_default d = d)"
  by (simp add: TokenScale_apply_default TokenScale_apply_signed_default)

theorem TokenScale_default_identity_witness:
  "TokenScale_apply TokenScale_default 1000 = 1000 \<and>
   TokenScale_apply_signed TokenScale_default (- 500) = - 500"
  using TokenScale_default_identity[of 1000 "- 500"] by simp

text \<open>A string parses as a reference id exactly when it is \<open>sha256:\<close> followed by 64
  lower-case hex digits, and then the id is the string itself; every other string is rejected with
  an error, whatever its encoding.\<close>

theorem RefId_parse_accepts_exactly:
  "(RefId_parse s = Inr r) =
     (r = RefId s \<and> (\<exists>d. s = lit ''sha256:'' @ d \<and> length d = 64 \<and>
        (\<forall>c \<in> set d. c \<in> {48..57} \<or> c \<in> {97..102})))"
  unfolding RefId_parse_Inr_iff is_ref_shape_iff REF_PREFIX_def
  by (auto simp: list_all_iff is_lower_hex_def)

theorem RefId_parse_accepts_exactly_witness:
  "RefId_parse (lit ''sha256:'' @ replicate 64 97) = Inr (RefId (lit ''sha256:'' @ replicate 64 97))"
  using RefId_parse_accepts_exactly[of "lit ''sha256:'' @ replicate 64 97"
      "RefId (lit ''sha256:'' @ replicate 64 97)"] by simp

end
