(* ===== verification/Economics.thy ===== *)
theory Economics
  imports Core
begin

text \<open>
  The crate \<^verbatim>\<open>ccs-economics\<close>: the per-model constants (\<^verbatim>\<open>model.rs\<close>), the
  warmth of the upstream prompt cache (\<^verbatim>\<open>cache.rs\<close>) and the bust / saving / break-even /
  NPV functions (\<^verbatim>\<open>cost.rs\<close>).  The trait \<^verbatim>\<open>BatchView\<close>, through which the
  policy crate hands its batches over, is the record of the three values its methods return.  All
  amounts are binary64 numbers, rounded at each operation in the order the source writes them.
\<close>

section \<open>The cost model\<close>

definition DEFAULT_TTL_AUTO_S :: f64 where "DEFAULT_TTL_AUTO_S = fl 3600"

definition DEFAULT_TTL_FORCED_S :: f64 where "DEFAULT_TTL_FORCED_S = fl 300"

definition DEFAULT_NPV_FLOOR :: f64 where "DEFAULT_NPV_FLOOR = fl 0"

record ModelEconomics =
  base_input :: f64
  write_mult :: f64
  read_mult :: f64
  min_cache_floor :: TokenCount

record EconomicsConfig =
  ttl_auto_s :: f64
  ttl_forced_s :: f64
  npv_floor :: f64

definition EconomicsConfig_default :: EconomicsConfig where
  "EconomicsConfig_default =
     \<lparr>ttl_auto_s = DEFAULT_TTL_AUTO_S, ttl_forced_s = DEFAULT_TTL_FORCED_S, npv_floor = DEFAULT_NPV_FLOOR\<rparr>"

definition economics_for :: "ModelId \<Rightarrow> ModelEconomics option" where
  "economics_for model = (let m = model_str model in
     if m = lit ''claude-opus-4-8'' then
       Some \<lparr>base_input = fl (5 / 1000000), write_mult = fl 2, read_mult = fl (1 / 10), min_cache_floor = 1024\<rparr>
     else if m = lit ''claude-sonnet-4-6'' \<or> m = lit ''claude-sonnet-4-5'' then
       Some \<lparr>base_input = fl (3 / 1000000), write_mult = fl 2, read_mult = fl (1 / 10), min_cache_floor = 1024\<rparr>
     else if m = lit ''claude-haiku-4-5-20251001'' \<or> m = lit ''claude-haiku-4-5'' then
       Some \<lparr>base_input = fl (1 / 1000000), write_mult = fl 2, read_mult = fl (1 / 10), min_cache_floor = 4096\<rparr>
     else None)"

record CacheUsage =
  cache_creation_input_tokens :: TokenCount
  cache_read_input_tokens :: TokenCount
  input_tokens :: TokenCount

record CacheState =
  cached_prefix_tokens :: TokenCount
  last_request_ts :: f64
  assumed_ttl_s :: f64
  cs_model :: ModelId
  cs_breakpoints :: "nat list"

definition idle_seconds :: "CacheState \<Rightarrow> f64 \<Rightarrow> f64" where
  "idle_seconds self now = fsub now (last_request_ts self)"

definition p_alive :: "CacheState \<Rightarrow> f64 \<Rightarrow> f64" where
  "p_alive self now =
     fclamp (fsub (fl 1) (fdiv (idle_seconds self now) (assumed_ttl_s self))) (fl 0) (fl 1)"

definition is_cold :: "CacheState \<Rightarrow> f64 \<Rightarrow> bool" where
  "is_cold self now = fle (assumed_ttl_s self) (idle_seconds self now)"

definition cache_observe :: "CacheState \<Rightarrow> CacheUsage \<Rightarrow> f64 \<Rightarrow> CacheState" where
  "cache_observe self usage now =
     \<lparr>cached_prefix_tokens = cache_read_input_tokens usage + cache_creation_input_tokens usage,
      last_request_ts = now,
      assumed_ttl_s = assumed_ttl_s self,
      cs_model = cs_model self,
      cs_breakpoints = cs_breakpoints self\<rparr>"

record Cost =
  dollars :: f64
  cost_tokens :: TokenCount

record BatchView =
  bv_suffix_tokens :: TokenCount
  bv_total_removed :: int
  bv_quality_gain :: f64

definition bust_cost :: "BatchView \<Rightarrow> CacheState \<Rightarrow> ModelEconomics \<Rightarrow> f64 \<Rightarrow> Cost" where
  "bust_cost batch cache econ now =
     (if is_cold cache now then \<lparr>dollars = fl 0, cost_tokens = 0\<rparr>
      else let suffix = bv_suffix_tokens batch
           in \<lparr>dollars = fmul (fmul (fmul (f64_of_u32 suffix) (base_input econ))
                                   (fsub (write_mult econ) (read_mult econ)))
                             (p_alive cache now),
               cost_tokens = suffix\<rparr>)"

definition recurring_saving :: "BatchView \<Rightarrow> ModelEconomics \<Rightarrow> f64 \<Rightarrow> Cost" where
  "recurring_saving batch econ n_turns =
     (let removed = bv_total_removed batch
      in \<lparr>dollars = fmul (fmul (fmul n_turns (f64_of_int removed)) (base_input econ)) (read_mult econ),
          cost_tokens = word_of_int (max removed 0)\<rparr>)"

definition break_even_turns :: "BatchView \<Rightarrow> CacheState \<Rightarrow> ModelEconomics \<Rightarrow> f64 \<Rightarrow> f64" where
  "break_even_turns batch cache econ now =
     (if is_cold cache now then fl 0
      else fdiv (fmul (f64_of_u32 (bv_suffix_tokens batch)) (fsub (write_mult econ) (read_mult econ)))
                (fmul (f64_of_int (bv_total_removed batch)) (read_mult econ)))"

definition npv :: "BatchView \<Rightarrow> CacheState \<Rightarrow> ModelEconomics \<Rightarrow> f64 \<Rightarrow> f64 \<Rightarrow> f64" where
  "npv batch cache econ n_turns now =
     fsub (fadd (dollars (recurring_saving batch econ n_turns)) (bv_quality_gain batch))
          (dollars (bust_cost batch cache econ now))"

section \<open>Warmth\<close>

text \<open>With finite timestamps and a positive TTL the warmth is a probability, it never rises as the
  clock advances, and it is exactly 0 once the cache is cold.\<close>

definition clocked :: "CacheState \<Rightarrow> f64 \<Rightarrow> bool" where
  "clocked cache now = (is_finite now \<and> is_finite (last_request_ts cache) \<and>
     is_finite (assumed_ttl_s cache) \<and> flt (fl 0) (assumed_ttl_s cache))"

lemma clockedE:
  assumes "clocked cache now"
  obtains t l d where "now = Fin t" "last_request_ts cache = Fin l" "assumed_ttl_s cache = Fin d" "0 < d"
  using assms by (auto simp: clocked_def elim!: is_finiteE)

lemma fdiv_mono_pos: "fle x y \<Longrightarrow> 0 < d \<Longrightarrow> fle (fdiv x (Fin d)) (fdiv y (Fin d))"
  by (cases x; cases y) (auto simp: fdiv_def divide_right_mono intro: fl_mono)

lemma fdiv_pos_not_NaN: "x \<noteq> NaN \<Longrightarrow> 0 < d \<Longrightarrow> fdiv x (Fin d) \<noteq> NaN"
  by (cases x) (auto simp: fdiv_def)

lemma fsub_1_antimono:
  "fle x y \<Longrightarrow> fle (fsub (Fin 1) y) (fsub (Fin 1) x)"
  by (cases x; cases y) (auto simp: fsub_def intro: fl_mono)

lemma fclamp_mono: "fle x y \<Longrightarrow> fle (fclamp x (Fin 0) (Fin 1)) (fclamp y (Fin 0) (Fin 1))"
  by (cases x; cases y) (auto simp: fclamp_def Let_def)

lemma fclamp_01: "x \<noteq> NaN \<Longrightarrow>
  fle (Fin 0) (fclamp x (Fin 0) (Fin 1)) \<and> fle (fclamp x (Fin 0) (Fin 1)) (Fin 1)"
  by (cases x) (auto simp: fclamp_def Let_def)

lemma fsub_1_NaN: "x \<noteq> NaN \<Longrightarrow> fsub (Fin 1) x \<noteq> NaN"
  by (cases x) (auto simp: fsub_def)

lemma idle_not_NaN: "clocked cache now \<Longrightarrow> idle_seconds cache now \<noteq> NaN"
  by (auto elim!: clockedE simp: idle_seconds_def)

lemma p_alive_prob:
  assumes "clocked cache now"
  shows "fle (Fin 0) (p_alive cache now) \<and> fle (p_alive cache now) (Fin 1)"
proof -
  have "fsub (Fin 1) (fdiv (idle_seconds cache now) (assumed_ttl_s cache)) \<noteq> NaN"
    using assms idle_not_NaN[OF assms]
    by (auto elim!: clockedE intro!: fsub_1_NaN dest: fdiv_pos_not_NaN)
  then show ?thesis unfolding p_alive_def fl_1 fl_0 by (rule fclamp_01)
qed

lemma idle_mono:
  assumes "clocked cache t1" "clocked cache t2" "fle t1 t2"
  shows "fle (idle_seconds cache t1) (idle_seconds cache t2)"
  using assms by (auto elim!: clockedE simp: idle_seconds_def intro!: fl_mono)

lemma p_alive_antimono:
  assumes "clocked cache t1" "clocked cache t2" "fle t1 t2"
  shows "fle (p_alive cache t2) (p_alive cache t1)"
proof -
  obtain d where d: "assumed_ttl_s cache = Fin d" "0 < d" using assms(1) by (auto elim: clockedE)
  show ?thesis
    using idle_mono[OF assms] d unfolding p_alive_def fl_1 fl_0
    by (auto intro!: fclamp_mono fsub_1_antimono fdiv_mono_pos)
qed

lemma p_alive_cold:
  assumes "clocked cache now" "is_cold cache now"
  shows "p_alive cache now = Fin 0"
proof -
  obtain d where d: "assumed_ttl_s cache = Fin d" "0 < d" using assms(1) by (auto elim: clockedE)
  have "fdiv (Fin d) (Fin d) = Fin 1" using d(2) by (simp add: fdiv_def)
  then have "fle (Fin 1) (fdiv (idle_seconds cache now) (Fin d))"
    using fdiv_mono_pos[OF assms(2)[unfolded is_cold_def d(1)] d(2)] by simp
  then have "fle (fsub (Fin 1) (fdiv (idle_seconds cache now) (Fin d))) (Fin 0)"
    using fsub_1_antimono by fastforce
  then show ?thesis
    unfolding p_alive_def fl_1 fl_0 d(1)
    by (cases "fsub (Fin 1) (fdiv (idle_seconds cache now) (Fin d))") (auto simp: fclamp_def)
qed

section \<open>Amounts stay finite\<close>

text \<open>A non-negative amount bounded by a power of two; products and differences of amounts are
  amounts, so for the models of the table the bust cost is always a finite number.\<close>

definition amount :: "int \<Rightarrow> f64 \<Rightarrow> bool" where
  "amount k x = (fle (Fin 0) x \<and> fle x (Fin (pow2 k)))"

lemma amountE: "amount k x \<Longrightarrow> (\<And>q. x = Fin q \<Longrightarrow> 0 \<le> q \<Longrightarrow> q \<le> pow2 k \<Longrightarrow> P) \<Longrightarrow> P"
  by (cases x) (auto simp: amount_def)

lemma amount_fl: "0 \<le> q \<Longrightarrow> q \<le> pow2 k \<Longrightarrow> - 1074 \<le> k \<Longrightarrow> k \<le> 971 \<Longrightarrow> amount k (fl q)"
  using fl_between[OF _ _ fl_0 fl_pow2[of k]] by (fastforce simp: amount_def)

lemma amount_fmul:
  assumes "amount i x" "amount j y" "- 1074 \<le> i + j" "i + j \<le> 971"
  shows "amount (i + j) (fmul x y)"
  using assms by (auto elim!: amountE intro!: amount_fl simp: pow2_add mult_mono)

lemma amount_fsub:
  assumes "amount i x" "fle (Fin 0) y" "fle y x" "- 1074 \<le> i" "i \<le> 971"
  shows "amount i (fsub x y)"
  using assms by (cases y) (auto elim!: amountE intro!: amount_fl)

lemma amount_u32: "amount 32 (f64_of_u32 w)"
proof -
  have "unat w \<le> 2 ^ 32" using unsigned_less[of w, where ?'a = nat] by simp
  then have "(of_nat (unat w) :: rat) \<le> of_nat (2 ^ 32)" by (simp only: of_nat_le_iff)
  then show ?thesis
    unfolding amount_def f64_of_u32_eq fle.simps pow2_def by (simp del: of_nat_unat)
qed

lemma fl_2 [simp]: "fl 2 = Fin 2"
  using fl_of_int[of 2] by simp

lemma economics_for_amounts:
  assumes "economics_for model = Some econ"
  shows "amount 0 (base_input econ)" "amount 1 (fsub (write_mult econ) (read_mult econ))"
    "amount 0 (read_mult econ)"
proof -
  have m: "write_mult econ = Fin 2" "read_mult econ = fl (1 / 10)"
    and b: "\<exists>q. base_input econ = fl q \<and> 0 \<le> q \<and> q \<le> 1"
    using assms by (auto simp: economics_for_def Let_def split: if_splits)
  have r: "amount 0 (fl (1 / 10))" by (rule amount_fl) simp_all
  then show "amount 0 (read_mult econ)" by (simp add: m)
  show "amount 0 (base_input econ)" using b amount_fl[of _ 0] by auto
  have "amount 1 (Fin 2)" by (simp add: amount_def pow2_def)
  moreover have "fle (Fin 0) (fl (1 / 10))" "fle (fl (1 / 10)) (Fin 2)"
    using r fle_trans[of "fl (1 / 10)" "Fin 1" "Fin 2"] by (simp_all add: amount_def)
  ultimately show "amount 1 (fsub (write_mult econ) (read_mult econ))"
    unfolding m by (intro amount_fsub) simp_all
qed

lemma bust_cost_amount:
  assumes "economics_for model = Some econ" "clocked cache now"
  shows "amount 33 (dollars (bust_cost batch cache econ now))"
proof (cases "is_cold cache now")
  case True
  then show ?thesis by (simp add: bust_cost_def amount_def)
next
  case False
  note e = economics_for_amounts[OF assms(1)]
  have "amount 0 (p_alive cache now)" using p_alive_prob[OF assms(2)] by (simp add: amount_def)
  then have "amount (32 + 0 + 1 + 0) (dollars (bust_cost batch cache econ now))"
    using False unfolding bust_cost_def Let_def
    by (simp del: add_0_right) (intro amount_fmul amount_u32 e; simp)
  then show ?thesis by simp
qed

lemma amount_not_NaN: "amount k x \<Longrightarrow> x \<noteq> NaN"
  by (auto elim: amountE)

lemma fmul_mono_right_nonneg:
  assumes "fle y z" "amount k x" "amount i y" "amount j z"
  shows "fle (fmul x y) (fmul x z)"
  using assms by (auto elim!: amountE intro!: fl_mono simp: mult_left_mono)

lemma bust_cost_antimono:
  assumes "economics_for model = Some econ" "clocked cache t1" "clocked cache t2" "fle t1 t2"
  shows "fle (dollars (bust_cost batch cache econ t2)) (dollars (bust_cost batch cache econ t1))"
proof (cases "is_cold cache t2")
  case True
  then show ?thesis
    using bust_cost_amount[OF assms(1,2)] by (auto simp: bust_cost_def amount_def)
next
  case False
  note e = economics_for_amounts[OF assms(1)]
  have f1: "\<not> is_cold cache t1"
    using False idle_mono[OF assms(2-4)] by (auto simp: is_cold_def dest: fle_trans)
  have "amount (32 + 0 + 1) (fmul (fmul (f64_of_u32 (bv_suffix_tokens batch)) (base_input econ))
          (fsub (write_mult econ) (read_mult econ)))"
    by (intro amount_fmul amount_u32 e; simp)
  moreover have "amount 0 (p_alive cache t1)" "amount 0 (p_alive cache t2)"
    using p_alive_prob assms(2,3) by (simp_all add: amount_def)
  ultimately show ?thesis
    using False f1 p_alive_antimono[OF assms(2-4)]
    by (auto simp: bust_cost_def Let_def intro: fmul_mono_right_nonneg)
qed

lemma fsub_mono:
  assumes "fle a b" "fle y x" "is_finite x" "is_finite y"
  shows "fle (fsub a x) (fsub b y)"
proof -
  have "fle (fadd a (fneg x)) (fadd b (fneg x))"
    using assms(1,3) by (intro fadd_mono_left) (cases a; cases b; auto elim!: is_finiteE)+
  moreover have "fle (fadd b (fneg x)) (fadd b (fneg y))"
    using assms by (intro fadd_mono_right fneg_antimono) (cases a; cases b; auto elim!: is_finiteE)+
  ultimately show ?thesis unfolding fsub_def by (rule fle_trans)
qed

lemma finite_minus_not_NaN: "x \<noteq> NaN \<Longrightarrow> fsub (Fin q) x \<noteq> NaN"
  by (cases x) (simp_all add: fsub_def)

section \<open>Properties\<close>

text \<open>With finite timestamps and a positive TTL the warmth is a probability, it never rises as
  the clock advances, and a cold cache has warmth exactly 0, so that the cold gate and the warmth
  agree.\<close>

theorem p_alive_is_a_decaying_probability:
  assumes "clocked cache t1" "clocked cache t2" "fle t1 t2"
  shows "fle (Fin 0) (p_alive cache t1) \<and> fle (p_alive cache t1) (Fin 1) \<and>
         fle (p_alive cache t2) (p_alive cache t1) \<and>
         (is_cold cache t2 \<longrightarrow> p_alive cache t2 = Fin 0)"
  using p_alive_prob[OF assms(1)] p_alive_antimono[OF assms] p_alive_cold[OF assms(2)] by blast

definition demo_cache :: CacheState where
  "demo_cache = \<lparr>cached_prefix_tokens = 0, last_request_ts = fl 0, assumed_ttl_s = DEFAULT_TTL_FORCED_S,
     cs_model = ModelId (lit ''claude-opus-4-8''), cs_breakpoints = []\<rparr>"

lemma fl_300 [simp]: "fl 300 = Fin 300"
  using fl_of_int[of 300] by simp

theorem p_alive_is_a_decaying_probability_witness:
  "p_alive demo_cache (Fin 300) = Fin 0 \<and> fle (p_alive demo_cache (Fin 0)) (Fin 1)"
  using p_alive_is_a_decaying_probability[of demo_cache "Fin 0" "Fin 300"]
  by (simp add: demo_cache_def clocked_def DEFAULT_TTL_FORCED_S_def is_cold_def idle_seconds_def)

text \<open>For every model of the table, the bust cost of a batch is a finite non-negative amount
  that is 0 once the cache is cold and never rises as the cache ages; so the NPV of a batch
  never falls when time passes or its quality gain grows.\<close>

theorem npv_never_falls:
  assumes "economics_for model = Some econ" "clocked cache t1" "clocked cache t2" "fle t1 t2"
    and "fle (bv_quality_gain b1) (bv_quality_gain b2)" "bv_suffix_tokens b1 = bv_suffix_tokens b2"
    and "bv_total_removed b1 = bv_total_removed b2"
    and "npv b1 cache econ n t1 \<noteq> NaN" "npv b2 cache econ n t2 \<noteq> NaN"
  shows "fle (npv b1 cache econ n t1) (npv b2 cache econ n t2) \<and>
         is_finite (dollars (bust_cost b1 cache econ t1)) \<and>
         fle (Fin 0) (dollars (bust_cost b1 cache econ t1)) \<and>
         (is_cold cache t1 \<longrightarrow> dollars (bust_cost b1 cache econ t1) = Fin 0)"
proof -
  let ?R = "dollars (recurring_saving b1 econ n)"
  have R: "dollars (recurring_saving b2 econ n) = ?R"
    using assms(7) by (simp add: recurring_saving_def Let_def)
  have B: "bust_cost b2 cache econ t2 = bust_cost b1 cache econ t2"
    using assms(6) by (simp add: bust_cost_def)
  note a1 = bust_cost_amount[OF assms(1,2), of b1] and a2 = bust_cost_amount[OF assms(1,3), of b1]
  have fin: "is_finite (dollars (bust_cost b1 cache econ t1))" "is_finite (dollars (bust_cost b1 cache econ t2))"
    using a1 a2 by (auto elim!: amountE)
  have "fadd ?R (bv_quality_gain b1) \<noteq> NaN" "fadd ?R (bv_quality_gain b2) \<noteq> NaN"
    using assms(8,9) by (auto simp: npv_def R fsub_def)
  then have "fle (fadd ?R (bv_quality_gain b1)) (fadd ?R (bv_quality_gain b2))"
    using assms(5) by (intro fadd_mono_right)
  then have "fle (npv b1 cache econ n t1) (npv b2 cache econ n t2)"
    unfolding npv_def R B using fin bust_cost_antimono[OF assms(1-4)] by (intro fsub_mono)
  then show ?thesis using fin(1) a1 by (auto simp: amount_def bust_cost_def)
qed

lemma economics_for_opus:
  "\<exists>econ. economics_for (ModelId (lit ''claude-opus-4-8'')) = Some econ"
  by (simp add: economics_for_def)

theorem npv_never_falls_witness:
  "\<exists>econ. economics_for (ModelId (lit ''claude-opus-4-8'')) = Some econ \<and>
     fle (npv \<lparr>bv_suffix_tokens = 0, bv_total_removed = 0, bv_quality_gain = Fin 1\<rparr> demo_cache econ (Fin 0) (Fin 0))
         (npv \<lparr>bv_suffix_tokens = 0, bv_total_removed = 0, bv_quality_gain = Fin 2\<rparr> demo_cache econ (Fin 0) (Fin 300))"
proof -
  obtain econ where econ: "economics_for (ModelId (lit ''claude-opus-4-8'')) = Some econ"
    using economics_for_opus by blast
  note e = economics_for_amounts[OF econ]
  have c: "clocked demo_cache (Fin 0)" "clocked demo_cache (Fin 300)"
    by (simp_all add: demo_cache_def clocked_def DEFAULT_TTL_FORCED_S_def)
  have R: "dollars (recurring_saving \<lparr>bv_suffix_tokens = 0, bv_total_removed = 0, bv_quality_gain = q\<rparr> econ (Fin 0)) = Fin 0" for q
    using e(1,3) by (auto simp: recurring_saving_def f64_of_int_def elim!: amountE)
  have nn: "npv \<lparr>bv_suffix_tokens = 0, bv_total_removed = 0, bv_quality_gain = Fin q\<rparr> demo_cache econ (Fin 0) t \<noteq> NaN"
    if "clocked demo_cache t" "fl q = Fin q" for q t
    using amount_not_NaN[OF bust_cost_amount[OF econ that(1)]] that(2) unfolding npv_def R
    by (auto simp: finite_minus_not_NaN)
  show ?thesis
    using npv_never_falls[OF econ c, of "\<lparr>bv_suffix_tokens = 0, bv_total_removed = 0, bv_quality_gain = Fin 1\<rparr>"
        "\<lparr>bv_suffix_tokens = 0, bv_total_removed = 0, bv_quality_gain = Fin 2\<rparr>" "Fin 0"]
      nn[OF c(1), of 1] nn[OF c(2), of 2] econ by auto
qed

end
