(* ===== verification/Wire.thy ===== *)
theory Wire
  imports Economics
begin

text \<open>
  The parse boundary \<^verbatim>\<open>ccs-policy/src/wire.rs\<close> and the knobs
  \<^verbatim>\<open>ccs-policy/src/config.rs\<close> with the weights they carry.

  A borrowed \<^verbatim>\<open>&RawValue\<close> is its verbatim text.  The JSON library is code of its own: the
  record \<open>serde\<close> names the decoders the crate instantiates it at (the request envelope,
  a string, an array of raw values, the derived field structs), and every definition that parses
  takes it as an argument.  What the crate writes itself - the hand-written
  \<^verbatim>\<open>Deserialize\<close> of message contents, the classification of blocks, the pairing ids -
  is defined here over it.
\<close>

section \<open>Wire types\<close>

datatype Role = RoleUser | RoleAssistant | RoleSystem

type_synonym RawValue = str

datatype ContentBlock =
    BText (braw: RawValue)
  | BToolUse (braw: RawValue)
  | BToolResult (braw: RawValue)
  | BThinking (braw: RawValue)
  | BRedactedThinking (braw: RawValue)
  | BServerToolUse (braw: RawValue)
  | BServerToolResult (braw: RawValue)
  | BOther (braw: RawValue)

datatype MessageContent = MText (mc_raw: RawValue) (mc_text: str) | MBlocks (mc_blocks: "ContentBlock list")

record WireMessage =
  role :: Role
  content :: MessageContent

record WireBody =
  wb_model :: ModelId
  wb_system :: "RawValue option"
  wb_tools :: "RawValue option"
  messages :: "WireMessage list"
  max_tokens :: u32

record IdFields =
  idf_id :: "str option"
  idf_tool_use_id :: "str option"
  idf_name :: "str option"

text \<open>The envelope as the derived deserializer reads it, message contents still raw.\<close>

record RawBody =
  rb_model :: ModelId
  rb_system :: "RawValue option"
  rb_tools :: "RawValue option"
  rb_messages :: "(Role \<times> RawValue) list"
  rb_max_tokens :: u32

datatype ToolResultContent = TRText str | TRBlocks "RawValue list" | TREmpty

record ToolResultFields =
  trf_is_error :: "bool option"
  trf_content :: ToolResultContent

text \<open>The same block as the recode passes read it: its content when that is a string.\<close>

datatype RecodeContent = RCText str | RCOther

record serde =
  js_body :: "nat list \<Rightarrow> RawBody option"
  js_string :: "RawValue \<Rightarrow> str option"
  js_array :: "RawValue \<Rightarrow> RawValue list option"
  js_type_tag :: "RawValue \<Rightarrow> str option option"
  js_id_fields :: "RawValue \<Rightarrow> IdFields option"
  js_text_field :: "RawValue \<Rightarrow> str option"
  js_tool_result :: "RawValue \<Rightarrow> ToolResultFields option"
  js_result_content :: "RawValue \<Rightarrow> RecodeContent option"
  js_envelope :: "nat list \<Rightarrow> (str \<times> RawValue) list option"

section \<open>Parsing\<close>

definition classify :: "serde \<Rightarrow> RawValue \<Rightarrow> ContentBlock" where
  "classify J raw = (case js_type_tag J raw of
      Some (Some t) \<Rightarrow>
        if t = lit ''text'' then BText raw
        else if t = lit ''tool_use'' then BToolUse raw
        else if t = lit ''tool_result'' then BToolResult raw
        else if t = lit ''thinking'' then BThinking raw
        else if t = lit ''redacted_thinking'' then BRedactedThinking raw
        else if t = lit ''server_tool_use'' then BServerToolUse raw
        else if t = lit ''web_search_tool_result'' \<or> t = lit ''web_fetch_tool_result''
                \<or> t = lit ''code_execution_tool_result'' then BServerToolResult raw
        else BOther raw
    | _ \<Rightarrow> BOther raw)"

definition MessageContent_deserialize :: "serde \<Rightarrow> RawValue \<Rightarrow> MessageContent option" where
  "MessageContent_deserialize J raw =
     (if starts_with (trim_start raw) [34]
      then map_option (MText raw) (js_string J raw)
      else map_option (\<lambda>raws. MBlocks (map (classify J) raws)) (js_array J raw))"

fun deserialize_messages :: "serde \<Rightarrow> (Role \<times> RawValue) list \<Rightarrow> WireMessage list option" where
  "deserialize_messages J [] = Some []"
| "deserialize_messages J ((r, raw) # ms) =
     (case MessageContent_deserialize J raw of
        None \<Rightarrow> None
      | Some c \<Rightarrow> map_option (\<lambda>rest. \<lparr>role = r, content = c\<rparr> # rest) (deserialize_messages J ms))"

definition parse_body :: "serde \<Rightarrow> nat list \<Rightarrow> WireBody option" where
  "parse_body J bytes = (case js_body J bytes of
      None \<Rightarrow> None
    | Some rb \<Rightarrow> map_option (\<lambda>ms. \<lparr>wb_model = rb_model rb, wb_system = rb_system rb,
          wb_tools = rb_tools rb, messages = ms, max_tokens = rb_max_tokens rb\<rparr>)
        (deserialize_messages J (rb_messages rb)))"

definition is_string :: "MessageContent \<Rightarrow> bool" where
  "is_string c = (case c of MText _ _ \<Rightarrow> True | MBlocks _ \<Rightarrow> False)"

definition blocks :: "MessageContent \<Rightarrow> ContentBlock list" where
  "blocks c = (case c of MBlocks bs \<Rightarrow> bs | MText _ _ \<Rightarrow> [])"

definition raws :: "MessageContent \<Rightarrow> RawValue list" where
  "raws c = (case c of MText raw _ \<Rightarrow> [raw] | MBlocks bs \<Rightarrow> map braw bs)"

definition rendered :: "MessageContent \<Rightarrow> str" where
  "rendered c = (case c of MText _ text \<Rightarrow> text | MBlocks bs \<Rightarrow> concat (map braw bs))"

definition is_client_tool_use :: "ContentBlock \<Rightarrow> bool" where
  "is_client_tool_use b = (case b of BToolUse _ \<Rightarrow> True | _ \<Rightarrow> False)"

definition is_tool_result :: "ContentBlock \<Rightarrow> bool" where
  "is_tool_result b = (case b of BToolResult _ \<Rightarrow> True | _ \<Rightarrow> False)"

definition tool_use_id :: "serde \<Rightarrow> ContentBlock \<Rightarrow> str option" where
  "tool_use_id J b = (case js_id_fields J (braw b) of
      None \<Rightarrow> None
    | Some idf \<Rightarrow> (case b of
          BToolUse _ \<Rightarrow> idf_id idf
        | BServerToolUse _ \<Rightarrow> idf_id idf
        | BToolResult _ \<Rightarrow> idf_tool_use_id idf
        | BServerToolResult _ \<Rightarrow> idf_tool_use_id idf
        | _ \<Rightarrow> None))"

definition tool_name :: "serde \<Rightarrow> ContentBlock \<Rightarrow> str option" where
  "tool_name J b = (case js_id_fields J (braw b) of
      None \<Rightarrow> None
    | Some idf \<Rightarrow> (case b of
          BToolUse _ \<Rightarrow> idf_name idf
        | BServerToolUse _ \<Rightarrow> idf_name idf
        | _ \<Rightarrow> None))"

section \<open>Policy knobs\<close>

definition RECENCY_WINDOW_N :: nat where "RECENCY_WINDOW_N = 3"

definition HUMAN_VERBATIM_MAX :: nat where "HUMAN_VERBATIM_MAX = 16384"

definition PRE_GATE_MIN_CHARS :: nat where "PRE_GATE_MIN_CHARS = 256"

definition CACHE_HINT_CAP :: nat where "CACHE_HINT_CAP = 4"

definition LOOKBACK_POSITIONS :: nat where "LOOKBACK_POSITIONS = 20"

definition FRESHNESS_TAU_GENS :: f64 where "FRESHNESS_TAU_GENS = fl 4"

definition SIZE_SATURATION_TOKENS :: f64 where "SIZE_SATURATION_TOKENS = fl 4096"

definition Q_WEIGHT_DOLLARS :: f64 where "Q_WEIGHT_DOLLARS = fl (5 / 10000)"

record ScoreWeights =
  w_freshness :: f64
  w_economics :: f64
  w_size :: f64
  w_content_type :: f64
  w_access_count :: f64
  tau :: f64
  size_scale :: f64
  q_weight :: f64
  score_floor :: f64

definition ScoreWeights_default :: ScoreWeights where
  "ScoreWeights_default =
     \<lparr>w_freshness = fl 1, w_economics = fl 1, w_size = fl 1, w_content_type = fl 1,
      w_access_count = fl 1, tau = FRESHNESS_TAU_GENS, size_scale = SIZE_SATURATION_TOKENS,
      q_weight = Q_WEIGHT_DOLLARS, score_floor = NInf\<rparr>"

record PolicyConfig =
  recency_window_n :: nat
  human_verbatim_max :: nat
  pre_gate_min_chars :: nat
  cache_hint_cap :: nat
  lookback_positions :: nat
  weights :: ScoreWeights

definition PolicyConfig_default :: PolicyConfig where
  "PolicyConfig_default =
     \<lparr>recency_window_n = RECENCY_WINDOW_N, human_verbatim_max = HUMAN_VERBATIM_MAX,
      pre_gate_min_chars = PRE_GATE_MIN_CHARS, cache_hint_cap = CACHE_HINT_CAP,
      lookback_positions = LOOKBACK_POSITIONS, weights = ScoreWeights_default\<rparr>"

section \<open>Block kinds\<close>

lemma braw_classify [simp]: "braw (classify J raw) = raw"
  by (simp add: classify_def split: option.splits)

lemma blocks_simps [simp]: "blocks (MText r t) = []" "blocks (MBlocks bs) = bs"
  by (simp_all add: blocks_def)

lemma raws_simps [simp]: "raws (MText r t) = [r]" "raws (MBlocks bs) = map braw bs"
  by (simp_all add: raws_def)

lemma deserialize_messages_roles:
  "deserialize_messages J ms = Some ws \<Longrightarrow> map role ws = map fst ms"
  by (induction J ms arbitrary: ws rule: deserialize_messages.induct)
     (auto split: option.splits)

end
