(* ===== verification/Segment.thy ===== *)
theory Segment
  imports Wire
begin

text \<open>
  Segmentation, \<^verbatim>\<open>ccs-policy/src/segment.rs\<close>, and the segment canonicalizer
  \<^verbatim>\<open>ccs-policy/src/payload.rs\<close>.  The \<^verbatim>\<open>while\<close> loop of
  \<^verbatim>\<open>segment_prompt\<close> is \<open>segment_loop\<close>, a function of the message index, the
  user-turn generation and the mutable pair (segments so far, running byte offset).
\<close>

section \<open>Definitions\<close>

record Segment =
  index :: nat
  kind :: SegmentKind
  byte_offset :: ByteOffset
  token_estimate :: TokenCount
  generation :: Generation
  pinned :: bool
  is_current :: bool
  is_true_human :: bool
  source_uuids :: "MessageId list"

record Build =
  b_kind :: SegmentKind
  b_generation :: Generation
  b_pinned :: bool
  b_is_true_human :: bool
  b_source_uuids :: "MessageId list"
  b_raws :: "RawValue list"
  b_rendered :: str

definition push :: "Segment list \<times> nat \<Rightarrow> Build \<Rightarrow> Segment list \<times> nat" where
  "push st b = (case st of (segments, offset) \<Rightarrow>
     (segments @ [\<lparr>index = length segments, kind = b_kind b, byte_offset = offset,
                   token_estimate = estimate_chars_proxy (b_rendered b),
                   generation = b_generation b, pinned = b_pinned b, is_current = False,
                   is_true_human = b_is_true_human b, source_uuids = b_source_uuids b\<rparr>],
      offset + sum_list (map str_len (b_raws b))))"

definition message_id :: "nat \<Rightarrow> MessageId" where
  "message_id i = MessageId (dec i)"

definition has_client_tool_use :: "MessageContent \<Rightarrow> bool" where
  "has_client_tool_use c = list_ex is_client_tool_use (blocks c)"

definition is_true_human_content :: "MessageContent \<Rightarrow> bool" where
  "is_true_human_content c = is_string c"

definition paired_user :: "serde \<Rightarrow> WireMessage list \<Rightarrow> nat \<Rightarrow> nat option" where
  "paired_user J msgs i =
     (let use_ids = filter_map (tool_use_id J) (filter is_client_tool_use (blocks (content (msgs ! i))));
          j = i + 1
      in if use_ids \<noteq> [] \<and> j < length msgs \<and> role (msgs ! j) = RoleUser \<and>
            list_ex (\<lambda>b. is_tool_result b \<and>
                         (case tool_use_id J b of None \<Rightarrow> False | Some u \<Rightarrow> u \<in> set use_ids))
                    (blocks (content (msgs ! j)))
         then Some j else None)"

lemma paired_user_Some: "paired_user J msgs i = Some j \<Longrightarrow> j = i + 1 \<and> j < length msgs"
  by (auto simp: paired_user_def Let_def split: if_splits)

function segment_loop :: "serde \<Rightarrow> WireMessage list \<Rightarrow> nat \<Rightarrow> nat \<Rightarrow> Segment list \<times> nat \<Rightarrow> Segment list \<times> nat" where
  "segment_loop J msgs i gen st =
     (if \<not> i < length msgs then st
      else let m = msgs ! i in
        case role m of
          RoleAssistant \<Rightarrow> (case paired_user J msgs i of
              Some j \<Rightarrow> segment_loop J msgs (j + 1) gen (push st
                \<lparr>b_kind = ToolPair, b_generation = gen, b_pinned = False, b_is_true_human = False,
                 b_source_uuids = [message_id i, message_id j],
                 b_raws = raws (content m) @ raws (content (msgs ! j)),
                 b_rendered = rendered (content m) @ rendered (content (msgs ! j))\<rparr>)
            | None \<Rightarrow> segment_loop J msgs (i + 1) gen (push st
                \<lparr>b_kind = AssistantTurn, b_generation = gen,
                 b_pinned = has_client_tool_use (content m), b_is_true_human = False,
                 b_source_uuids = [message_id i],
                 b_raws = raws (content m), b_rendered = rendered (content m)\<rparr>))
        | RoleUser \<Rightarrow> segment_loop J msgs (i + 1) (gen + 1) (push st
                \<lparr>b_kind = UserTurn, b_generation = gen + 1, b_pinned = False,
                 b_is_true_human = is_true_human_content (content m),
                 b_source_uuids = [message_id i],
                 b_raws = raws (content m), b_rendered = rendered (content m)\<rparr>)
        | RoleSystem \<Rightarrow> segment_loop J msgs (i + 1) gen (push st
                \<lparr>b_kind = System, b_generation = gen, b_pinned = False, b_is_true_human = False,
                 b_source_uuids = [message_id i],
                 b_raws = raws (content m), b_rendered = rendered (content m)\<rparr>))"
  by pat_completeness auto

termination
  by (relation "measure (\<lambda>(J, msgs, i, gen, st). length msgs - i)") (auto dest: paired_user_Some)

definition prefix_build :: "SegmentKind \<Rightarrow> RawValue \<Rightarrow> Build" where
  "prefix_build k raw = \<lparr>b_kind = k, b_generation = 0, b_pinned = False, b_is_true_human = False,
     b_source_uuids = [], b_raws = [raw], b_rendered = raw\<rparr>"

definition mark_last :: "Segment list \<Rightarrow> Segment list" where
  "mark_last segs = (if segs = [] then []
     else butlast segs @ [(last segs)\<lparr>pinned := True, is_current := True\<rparr>])"

definition segment_prompt :: "serde \<Rightarrow> WireBody \<Rightarrow> Segment list" where
  "segment_prompt J body =
     (let st0 = ([], 0);
          st1 = (case wb_tools body of None \<Rightarrow> st0 | Some tools \<Rightarrow> push st0 (prefix_build Tools tools));
          st2 = (case wb_system body of None \<Rightarrow> st1 | Some sys \<Rightarrow> push st1 (prefix_build System sys))
      in mark_last (fst (segment_loop J (messages body) 0 0 st2)))"

definition fresh_boundary :: "Segment list \<Rightarrow> Generation" where
  "fresh_boundary segments =
     (let gens = remdups_adj (sort (filter (\<lambda>g. 0 < g) (map generation segments)))
      in case nth_opt gens (length gens - 2) of Some g \<Rightarrow> g | None \<Rightarrow> 0)"

definition is_recency_protected :: "Segment \<Rightarrow> Segment list \<Rightarrow> PolicyConfig \<Rightarrow> bool" where
  "is_recency_protected seg segments cfg = (length segments - recency_window_n cfg \<le> index seg)"

definition is_prune_candidate :: "Segment \<Rightarrow> Segment list \<Rightarrow> PolicyConfig \<Rightarrow> bool" where
  "is_prune_candidate seg segments cfg = (\<not> pinned seg \<and> \<not> is_recency_protected seg segments cfg)"

definition source_messages :: "Segment \<Rightarrow> WireBody \<Rightarrow> WireMessage list" where
  "source_messages seg body =
     filter_map (nth_opt (messages body)) (filter_map (\<lambda>u. parse_usize (message_str u)) (source_uuids seg))"

definition segment_payload_bytes :: "Segment \<Rightarrow> WireBody \<Rightarrow> nat list" where
  "segment_payload_bytes seg body =
     concat (map utf8 (concat (map (\<lambda>m. raws (content m)) (source_messages seg body))))"

section \<open>The segments as a rendering of the builds\<close>

text \<open>Proof device: the loop as the list of builds it pushes, and the segments they render to.\<close>

definition pair_build :: "WireMessage list \<Rightarrow> nat \<Rightarrow> nat \<Rightarrow> Build" where
  "pair_build msgs i gen = \<lparr>b_kind = ToolPair, b_generation = gen, b_pinned = False,
     b_is_true_human = False, b_source_uuids = [message_id i, message_id (i + 1)],
     b_raws = raws (content (msgs ! i)) @ raws (content (msgs ! (i + 1))),
     b_rendered = rendered (content (msgs ! i)) @ rendered (content (msgs ! (i + 1)))\<rparr>"

definition turn_build :: "SegmentKind \<Rightarrow> WireMessage list \<Rightarrow> nat \<Rightarrow> nat \<Rightarrow> bool \<Rightarrow> bool \<Rightarrow> Build" where
  "turn_build k msgs i gen pin human = \<lparr>b_kind = k, b_generation = gen, b_pinned = pin,
     b_is_true_human = human, b_source_uuids = [message_id i],
     b_raws = raws (content (msgs ! i)), b_rendered = rendered (content (msgs ! i))\<rparr>"

function builds :: "serde \<Rightarrow> WireMessage list \<Rightarrow> nat \<Rightarrow> nat \<Rightarrow> Build list" where
  "builds J msgs i gen =
     (if \<not> i < length msgs then []
      else case role (msgs ! i) of
          RoleAssistant \<Rightarrow>
            if paired_user J msgs i = None
            then turn_build AssistantTurn msgs i gen (has_client_tool_use (content (msgs ! i))) False
                 # builds J msgs (i + 1) gen
            else pair_build msgs i gen # builds J msgs (i + 2) gen
        | RoleUser \<Rightarrow>
            turn_build UserTurn msgs i (gen + 1) False (is_true_human_content (content (msgs ! i)))
            # builds J msgs (i + 1) (gen + 1)
        | RoleSystem \<Rightarrow> turn_build System msgs i gen False False # builds J msgs (i + 1) gen)"
  by pat_completeness auto

termination
  by (relation "measure (\<lambda>(J, msgs, i, gen). length msgs - i)") auto

declare builds.simps [simp del] segment_loop.simps [simp del]

lemma builds_cases:
  "\<not> i < length msgs \<Longrightarrow> builds J msgs i gen = []"
  "i < length msgs \<Longrightarrow> role (msgs ! i) = RoleUser \<Longrightarrow> builds J msgs i gen =
     turn_build UserTurn msgs i (gen + 1) False (is_true_human_content (content (msgs ! i)))
     # builds J msgs (i + 1) (gen + 1)"
  "i < length msgs \<Longrightarrow> role (msgs ! i) = RoleSystem \<Longrightarrow> builds J msgs i gen =
     turn_build System msgs i gen False False # builds J msgs (i + 1) gen"
  "i < length msgs \<Longrightarrow> role (msgs ! i) = RoleAssistant \<Longrightarrow> paired_user J msgs i = None \<Longrightarrow> builds J msgs i gen =
     turn_build AssistantTurn msgs i gen (has_client_tool_use (content (msgs ! i))) False
     # builds J msgs (i + 1) gen"
  "i < length msgs \<Longrightarrow> role (msgs ! i) = RoleAssistant \<Longrightarrow> paired_user J msgs i = Some (i + 1) \<Longrightarrow>
     builds J msgs i gen = pair_build msgs i gen # builds J msgs (i + 2) gen"
  by (subst builds.simps, simp)+

lemma builds_induct [case_names Done User Sys Asst Pair]:
  assumes "\<And>i gen. \<not> i < length msgs \<Longrightarrow> P i gen"
    and "\<And>i gen. i < length msgs \<Longrightarrow> role (msgs ! i) = RoleUser \<Longrightarrow> P (i + 1) (gen + 1) \<Longrightarrow> P i gen"
    and "\<And>i gen. i < length msgs \<Longrightarrow> role (msgs ! i) = RoleSystem \<Longrightarrow> P (i + 1) gen \<Longrightarrow> P i gen"
    and "\<And>i gen. i < length msgs \<Longrightarrow> role (msgs ! i) = RoleAssistant \<Longrightarrow> paired_user J msgs i = None
           \<Longrightarrow> P (i + 1) gen \<Longrightarrow> P i gen"
    and "\<And>i gen. i + 1 < length msgs \<Longrightarrow> role (msgs ! i) = RoleAssistant
           \<Longrightarrow> paired_user J msgs i = Some (i + 1) \<Longrightarrow> P (i + 2) gen \<Longrightarrow> P i gen"
  shows "P i gen"
proof (induction "length msgs - i" arbitrary: i gen rule: less_induct)
  case less
  show ?case
  proof (cases "i < length msgs")
    case True
    then have IH: "P (i + 1) g" "P (i + 2) g" for g by (auto intro: less)
    show ?thesis
    proof (cases "role (msgs ! i)")
      case RoleAssistant
      then show ?thesis
        using True IH assms(4,5) paired_user_Some[of J msgs i]
        by (cases "paired_user J msgs i") blast+
    qed (use True IH assms(2,3) in blast)+
  qed (use assms(1) in blast)
qed

definition blen :: "Build \<Rightarrow> nat" where
  "blen b = sum_list (map str_len (b_raws b))"

definition mk_seg :: "nat \<Rightarrow> nat \<Rightarrow> Build \<Rightarrow> Segment" where
  "mk_seg k off b = \<lparr>index = k, kind = b_kind b, byte_offset = off,
     token_estimate = estimate_chars_proxy (b_rendered b), generation = b_generation b,
     pinned = b_pinned b, is_current = False, is_true_human = b_is_true_human b,
     source_uuids = b_source_uuids b\<rparr>"

fun render :: "nat \<Rightarrow> nat \<Rightarrow> Build list \<Rightarrow> Segment list" where
  "render k off [] = []"
| "render k off (b # bs) = mk_seg k off b # render (Suc k) (off + blen b) bs"

definition all_builds :: "serde \<Rightarrow> WireBody \<Rightarrow> Build list" where
  "all_builds J body =
     (case wb_tools body of None \<Rightarrow> [] | Some t \<Rightarrow> [prefix_build Tools t]) @
     (case wb_system body of None \<Rightarrow> [] | Some s \<Rightarrow> [prefix_build System s]) @
     builds J (messages body) 0 0"

lemma push_eq: "push (segs, off) b = (segs @ [mk_seg (length segs) off b], off + blen b)"
  by (simp add: push_def mk_seg_def blen_def)

lemma foldl_push:
  "foldl push (segs, off) bs = (segs @ render (length segs) off bs, off + sum_list (map blen bs))"
  by (induction bs arbitrary: segs off) (simp_all add: push_eq)

lemma segment_loop_builds: "segment_loop J msgs i gen st = foldl push st (builds J msgs i gen)"
proof (induction i gen arbitrary: st rule: builds_induct[where J = J and msgs = msgs])
  case (Pair i gen)
  then show ?case
    by (subst segment_loop.simps) (simp add: builds_cases(5) pair_build_def Let_def)
qed (subst segment_loop.simps, simp add: builds_cases turn_build_def Let_def)+

lemma segment_prompt_render: "segment_prompt J body = mark_last (render 0 0 (all_builds J body))"
proof -
  have "segment_prompt J body = mark_last (fst (foldl push ([], 0) (all_builds J body)))"
    by (simp add: segment_prompt_def all_builds_def segment_loop_builds Let_def split: option.splits)
  then show ?thesis by (simp add: foldl_push)
qed

lemma length_render [simp]: "length (render k off bs) = length bs"
  by (induction bs arbitrary: k off) simp_all

lemma nth_render:
  "n < length bs \<Longrightarrow> render k off bs ! n = mk_seg (k + n) (off + sum_list (map blen (take n bs))) (bs ! n)"
proof (induction bs arbitrary: k off n)
  case (Cons b bs)
  then show ?case by (cases n) (simp_all add: add.assoc)
qed simp

lemma render_append:
  "render k off (as @ bs) = render k off as @ render (k + length as) (off + sum_list (map blen as)) bs"
  by (induction as arbitrary: k off) (simp_all add: add.assoc)

lemma length_mark_last [simp]: "length (mark_last segs) = length segs"
  by (cases segs rule: rev_cases) (simp_all add: mark_last_def)

lemma nth_mark_last:
  "n < length segs \<Longrightarrow> mark_last segs ! n =
     (if n + 1 = length segs then (segs ! n)\<lparr>pinned := True, is_current := True\<rparr> else segs ! n)"
  by (cases segs rule: rev_cases) (auto simp: mark_last_def nth_append)

lemma butlast_mark_last [simp]: "butlast (mark_last segs) = butlast segs"
  by (simp add: mark_last_def)

lemma segment_prompt_nth:
  assumes "n < length (segment_prompt J body)"
  shows "segment_prompt J body ! n =
    (let s = mk_seg n (sum_list (map blen (take n (all_builds J body)))) (all_builds J body ! n)
     in if n + 1 = length (segment_prompt J body) then s\<lparr>pinned := True, is_current := True\<rparr> else s)"
  using assms by (simp add: segment_prompt_render nth_mark_last nth_render Let_def)

lemma length_segment_prompt: "length (segment_prompt J body) = length (all_builds J body)"
  by (simp add: segment_prompt_render)

section \<open>Every message is in exactly one segment\<close>

definition source_indices :: "MessageId list \<Rightarrow> nat list" where
  "source_indices us = filter_map (\<lambda>u. parse_usize (message_str u)) us"

lemma source_indices_message_ids:
  "\<forall>i \<in> set is. i < 2 ^ 64 \<Longrightarrow> source_indices (map message_id is) = is"
  unfolding source_indices_def by (induction "is") (auto simp: message_id_def parse_usize_dec)

lemma builds_sources:
  "concat (map b_source_uuids (builds J msgs i gen)) = map message_id [i..<length msgs]"
proof (induction i gen rule: builds_induct[where J = J and msgs = msgs])
  case (Pair i gen)
  then have "[i..<length msgs] = i # (i + 1) # [i + 2..<length msgs]" by (simp add: upt_conv_Cons)
  with Pair show ?case by (simp add: builds_cases(5) pair_build_def)
qed (simp_all add: builds_cases turn_build_def upt_conv_Cons)

lemma source_indices_append [simp]: "source_indices (us @ vs) = source_indices us @ source_indices vs"
  by (simp add: source_indices_def)

lemma source_indices_concat: "source_indices (concat uss) = concat (map source_indices uss)"
  by (induction uss) (simp_all add: source_indices_def)

lemma render_map:
  assumes "\<And>k off b. f (mk_seg k off b) = g b"
  shows "map f (render k off bs) = map g bs"
  using assms by (induction bs arbitrary: k off) simp_all

lemma mark_last_map:
  assumes "\<And>s. f (s\<lparr>pinned := True, is_current := True\<rparr>) = f s"
  shows "map f (mark_last segs) = map f segs"
  using assms by (cases segs rule: rev_cases) (simp_all add: mark_last_def)

lemma segment_prompt_map:
  assumes "\<And>k off b. f (mk_seg k off b) = g b" "\<And>s. f (s\<lparr>pinned := True, is_current := True\<rparr>) = f s"
  shows "map f (segment_prompt J body) = map g (all_builds J body)"
  unfolding segment_prompt_render mark_last_map[of f, OF assms(2)] by (rule render_map[of f, OF assms(1)])

lemma all_builds_sources:
  "concat (map b_source_uuids (all_builds J body)) = map message_id [0..<length (messages body)]"
  by (auto simp: all_builds_def builds_sources prefix_build_def split: option.splits)

lemma segment_sources:
  assumes "length (messages body) \<le> 2 ^ 64"
  shows "concat (map (\<lambda>s. source_indices (source_uuids s)) (segment_prompt J body)) = [0..<length (messages body)]"
proof -
  have "map (\<lambda>s. source_indices (source_uuids s)) (segment_prompt J body)
      = map (source_indices \<circ> b_source_uuids) (all_builds J body)"
    by (rule segment_prompt_map) (simp_all add: mk_seg_def)
  then have "concat (map (\<lambda>s. source_indices (source_uuids s)) (segment_prompt J body))
      = source_indices (concat (map b_source_uuids (all_builds J body)))"
    by (simp add: source_indices_concat)
  also have "\<dots> = [0..<length (messages body)]"
    using assms by (simp add: all_builds_sources source_indices_message_ids)
  finally show ?thesis .
qed

lemma segment_prompt_index: "n < length (segment_prompt J body) \<Longrightarrow> index (segment_prompt J body ! n) = n"
  by (simp add: segment_prompt_nth mk_seg_def Let_def)

section \<open>Byte offsets and payloads\<close>

definition prompt_spans :: "WireBody \<Rightarrow> RawValue list" where
  "prompt_spans body =
     (case wb_tools body of None \<Rightarrow> [] | Some t \<Rightarrow> [t]) @
     (case wb_system body of None \<Rightarrow> [] | Some s \<Rightarrow> [s]) @
     concat (map (\<lambda>m. raws (content m)) (messages body))"

definition message_spans :: "WireMessage list \<Rightarrow> nat list \<Rightarrow> RawValue list" where
  "message_spans msgs is = concat (map (\<lambda>k. raws (content (msgs ! k))) is)"

definition build_ok :: "WireMessage list \<Rightarrow> Build \<Rightarrow> bool" where
  "build_ok msgs b = (\<exists>is. b_source_uuids b = map message_id is \<and> (\<forall>k \<in> set is. k < length msgs) \<and>
     (is \<noteq> [] \<longrightarrow> b_raws b = message_spans msgs is))"

lemma builds_ok: "b \<in> set (builds J msgs i gen) \<Longrightarrow> build_ok msgs b"
proof (induction i gen rule: builds_induct[where J = J and msgs = msgs])
  case (Pair i gen)
  have "build_ok msgs (pair_build msgs i gen)" using Pair(1)
    unfolding build_ok_def by (intro exI[of _ "[i, i + 1]"]) (auto simp: pair_build_def message_spans_def)
  with Pair show ?case by (auto simp: builds_cases(5))
next
  case (User i gen)
  have "build_ok msgs (turn_build k msgs i g x y)" for k g x y using User(1)
    unfolding build_ok_def by (intro exI[of _ "[i]"]) (auto simp: turn_build_def message_spans_def)
  with User show ?case by (auto simp: builds_cases)
next
  case (Sys i gen)
  have "build_ok msgs (turn_build k msgs i g x y)" for k g x y using Sys(1)
    unfolding build_ok_def by (intro exI[of _ "[i]"]) (auto simp: turn_build_def message_spans_def)
  with Sys show ?case by (auto simp: builds_cases)
next
  case (Asst i gen)
  have "build_ok msgs (turn_build k msgs i g x y)" for k g x y using Asst(1)
    unfolding build_ok_def by (intro exI[of _ "[i]"]) (auto simp: turn_build_def message_spans_def)
  with Asst show ?case by (auto simp: builds_cases)
qed (simp add: builds_cases)

lemma builds_raws: "concat (map b_raws (builds J msgs i gen)) = message_spans msgs [i..<length msgs]"
proof (induction i gen rule: builds_induct[where J = J and msgs = msgs])
  case (Pair i gen)
  then have "[i..<length msgs] = i # (i + 1) # [i + 2..<length msgs]" by (simp add: upt_conv_Cons)
  with Pair show ?case by (simp add: builds_cases(5) pair_build_def message_spans_def)
qed (simp_all add: builds_cases turn_build_def message_spans_def upt_conv_Cons)

lemma all_builds_raws: "concat (map b_raws (all_builds J body)) = prompt_spans body"
proof -
  have "message_spans msgs [0..<length msgs] = concat (map (\<lambda>m. raws (content m)) msgs)" for msgs
    unfolding message_spans_def by (intro arg_cong[where f = concat] nth_equalityI) simp_all
  then show ?thesis
    by (auto simp: all_builds_def builds_raws prompt_spans_def prefix_build_def split: option.splits)
qed

lemma utf8_append [simp]: "utf8 (s @ t) = utf8 s @ utf8 t"
  by (simp add: utf8_def)

lemma utf8_concat: "concat (map utf8 ss) = utf8 (concat ss)"
  by (induction ss) (simp_all add: utf8_def)

lemma sum_str_len: "sum_list (map str_len rs) = length (utf8 (concat rs))"
  by (induction rs) (simp_all add: length_utf8)

lemma sum_blen: "sum_list (map blen bs) = length (utf8 (concat (concat (map b_raws bs))))"
  by (induction bs) (simp_all add: blen_def sum_str_len utf8_def)

lemma prefix_build_ok: "build_ok msgs (prefix_build k raw)"
  unfolding build_ok_def by (intro exI[of _ "[]"]) (simp add: prefix_build_def)

lemma all_builds_ok: "b \<in> set (all_builds J body) \<Longrightarrow> build_ok (messages body) b"
  using builds_ok[of b J "messages body" 0 0]
  by (auto simp: all_builds_def prefix_build_ok split: option.splits)

lemma filter_map_nth_opt: "\<forall>k \<in> set is. k < length xs \<Longrightarrow> filter_map (nth_opt xs) is = map ((!) xs) is"
  by (rule filter_map_all_Some) (auto simp: nth_opt_def)

lemma source_messages_of_ids:
  assumes "source_uuids s = map message_id is" "\<forall>k \<in> set is. k < length (messages body)"
    "length (messages body) \<le> 2 ^ 64"
  shows "source_messages s body = map ((!) (messages body)) is"
proof -
  have "filter_map (\<lambda>u. parse_usize (message_str u)) (source_uuids s) = is"
    using source_indices_message_ids[of "is"] assms by (fastforce simp: source_indices_def)
  then show ?thesis using assms(2) by (simp add: source_messages_def filter_map_nth_opt)
qed

lemma segment_payload_of_build:
  assumes "source_uuids s = b_source_uuids b" "build_ok (messages body) b"
    "length (messages body) \<le> 2 ^ 64" "b_source_uuids b \<noteq> []"
  shows "segment_payload_bytes s body = utf8 (concat (b_raws b))"
proof -
  obtain "is" where "is": "b_source_uuids b = map message_id is" "\<forall>k \<in> set is. k < length (messages body)"
    "is \<noteq> [] \<longrightarrow> b_raws b = message_spans (messages body) is"
    using assms(2) by (auto simp: build_ok_def)
  moreover have "is \<noteq> []" using assms(4) "is"(1) by auto
  ultimately show ?thesis
    using source_messages_of_ids[of s "is" body] assms(1,3)
    by (simp add: segment_payload_bytes_def message_spans_def utf8_concat comp_def)
qed

lemma segment_payload_nil: "source_uuids s = [] \<Longrightarrow> segment_payload_bytes s body = []"
  by (simp add: segment_payload_bytes_def source_messages_def)

lemma segment_payload_at_offset:
  assumes n: "n < length (segment_prompt J body)" and len: "length (messages body) \<le> 2 ^ 64"
  defines "s \<equiv> segment_prompt J body ! n" and "bytes \<equiv> utf8 (concat (prompt_spans body))"
  shows "take (length (segment_payload_bytes s body)) (drop (byte_offset s) bytes) = segment_payload_bytes s body"
    and "byte_offset s \<le> length bytes"
proof -
  define bs where "bs = all_builds J body"
  have nb: "n < length bs" using n by (simp add: bs_def length_segment_prompt)
  have s: "source_uuids s = b_source_uuids (bs ! n)" "byte_offset s = sum_list (map blen (take n bs))"
    using segment_prompt_nth[OF n] by (simp_all add: s_def bs_def mk_seg_def Let_def)
  have ok: "build_ok (messages body) (bs ! n)" using nb unfolding bs_def by (intro all_builds_ok[of _ J]) simp
  have "prompt_spans body = concat (map b_raws (take n bs @ bs ! n # drop (Suc n) bs))"
    unfolding all_builds_raws[of J body, symmetric] bs_def[symmetric] using nb by (simp add: id_take_nth_drop[symmetric])
  then have split: "bytes = utf8 (concat (concat (map b_raws (take n bs)))) @ utf8 (concat (b_raws (bs ! n)))
      @ utf8 (concat (concat (map b_raws (drop (Suc n) bs))))"
    by (simp add: bytes_def)
  show "byte_offset s \<le> length bytes" by (simp add: split s(2) sum_blen)
  show "take (length (segment_payload_bytes s body)) (drop (byte_offset s) bytes) = segment_payload_bytes s body"
    using segment_payload_of_build[OF s(1) ok len] segment_payload_nil[of s body] s(1)
    by (cases "b_source_uuids (bs ! n) = []") (simp_all add: split s(2) sum_blen)
qed

section \<open>Pins\<close>

lemma last_current:
  assumes "n < length (segment_prompt J body)"
  shows "is_current (segment_prompt J body ! n) = (n + 1 = length (segment_prompt J body))"
    and "n + 1 = length (segment_prompt J body) \<Longrightarrow> pinned (segment_prompt J body ! n)"
  using segment_prompt_nth[OF assms] by (simp_all add: mk_seg_def Let_def)

text \<open>What it is for the next message to answer a message: it is a user's, and one of its tool results has the
  id of one of the client tool calls.\<close>

definition answers_call :: "serde \<Rightarrow> WireMessage list \<Rightarrow> nat \<Rightarrow> bool" where
  "answers_call J msgs k = (k + 1 < length msgs \<and> role (msgs ! (k + 1)) = RoleUser \<and>
     (\<exists>u \<in> set (blocks (content (msgs ! k))). \<exists>r \<in> set (blocks (content (msgs ! (k + 1)))).
        is_client_tool_use u \<and> is_tool_result r \<and> tool_use_id J u \<noteq> None \<and> tool_use_id J r = tool_use_id J u))"

lemma paired_user_iff: "paired_user J msgs k = (if answers_call J msgs k then Some (k + 1) else None)"
proof -
  have ids: "x \<in> set (filter_map (tool_use_id J) (filter is_client_tool_use bs)) \<longleftrightarrow>
      (\<exists>u \<in> set bs. is_client_tool_use u \<and> tool_use_id J u = Some x)" for x bs by (auto simp: set_filter_map)
  have hit: "list_ex (\<lambda>b. is_tool_result b \<and> (case tool_use_id J b of None \<Rightarrow> False
        | Some u \<Rightarrow> u \<in> set (filter_map (tool_use_id J) (filter is_client_tool_use bs)))) rs \<longleftrightarrow>
      (\<exists>u \<in> set bs. \<exists>r \<in> set rs. is_client_tool_use u \<and> is_tool_result r \<and> tool_use_id J u \<noteq> None \<and> tool_use_id J r = tool_use_id J u)"
    for bs rs unfolding list_ex_iff ids by (fastforce split: option.splits)
  have "filter_map (tool_use_id J) (filter is_client_tool_use bs) \<noteq> []"
    if "u \<in> set bs" "is_client_tool_use u" "tool_use_id J u \<noteq> None" for u bs
    using ids[of _ bs] that by (metis empty_iff list.set(1) not_None_eq)
  then show ?thesis unfolding paired_user_def answers_call_def Let_def hit by auto
qed

text \<open>An assistant message is paired exactly when it is answered; otherwise it stands alone, pinned when it
  has a client tool call; and nothing else is pinned.\<close>

definition build_safe :: "serde \<Rightarrow> WireMessage list \<Rightarrow> Build \<Rightarrow> bool" where
  "build_safe J msgs b =
     ((\<forall>k < length msgs. message_id k \<in> set (b_source_uuids b) \<longrightarrow> role (msgs ! k) = RoleAssistant \<longrightarrow>
        (b_kind b = ToolPair) = answers_call J msgs k) \<and>
      (b_kind b = ToolPair \<longrightarrow> (\<exists>k. b_source_uuids b = [message_id k, message_id (k + 1)] \<and>
        role (msgs ! k) = RoleAssistant \<and> answers_call J msgs k)) \<and>
      b_pinned b = (\<exists>k < length msgs. b_source_uuids b = [message_id k] \<and> role (msgs ! k) = RoleAssistant \<and>
        has_client_tool_use (content (msgs ! k)) \<and> \<not> answers_call J msgs k))"

lemma message_id_inject [simp]: "message_id i = message_id j \<longleftrightarrow> i = j"
  by (simp add: message_id_def)

lemma builds_safe: "b \<in> set (builds J msgs i gen) \<Longrightarrow> build_safe J msgs b"
proof (induction i gen rule: builds_induct[where J = J and msgs = msgs])
  case (Pair i gen)
  have "build_safe J msgs (pair_build msgs i gen)"
    using Pair(2,3) by (auto simp: build_safe_def pair_build_def paired_user_iff answers_call_def split: if_splits)
  with Pair show ?case by (auto simp: builds_cases(5))
qed (auto simp: builds_cases build_safe_def turn_build_def paired_user_iff split: if_splits)

lemma all_builds_safe: "b \<in> set (all_builds J body) \<Longrightarrow> build_safe J (messages body) b"
  using builds_safe[of b J "messages body" 0 0]
  by (auto simp: all_builds_def prefix_build_def build_safe_def split: option.splits)

section \<open>Segments are stable when the conversation grows\<close>

lemma paired_user_append:
  "i + 1 < length msgs \<Longrightarrow> paired_user J (msgs @ extra) i = paired_user J msgs i"
  by (simp add: paired_user_def nth_append Let_def)

lemma turn_build_append: "i < length msgs \<Longrightarrow> turn_build k (msgs @ extra) i = turn_build k msgs i"
  by (simp add: fun_eq_iff turn_build_def nth_append)

lemma pair_build_append: "i + 1 < length msgs \<Longrightarrow> pair_build (msgs @ extra) i = pair_build msgs i"
  by (simp add: fun_eq_iff pair_build_def nth_append)

lemma builds_nonempty: "i < length msgs \<Longrightarrow> builds J msgs i gen \<noteq> []"
  by (subst builds.simps) (simp split: Role.splits)

lemma builds_append:
  "\<exists>rest. builds J (msgs @ extra) i gen = butlast (builds J msgs i gen) @ rest"
proof (induction i gen rule: builds_induct[where J = J and msgs = msgs])
  case (User i gen)
  then show ?case using builds_nonempty[of "i + 1" msgs J]
    by (cases "i + 1 < length msgs") (auto simp: builds_cases turn_build_append nth_append)
next
  case (Sys i gen)
  then show ?case using builds_nonempty[of "i + 1" msgs J]
    by (cases "i + 1 < length msgs") (auto simp: builds_cases turn_build_append nth_append)
next
  case (Asst i gen)
  then show ?case using builds_nonempty[of "i + 1" msgs J]
    by (cases "i + 1 < length msgs")
       (auto simp: builds_cases turn_build_append nth_append paired_user_append)
next
  case (Pair i gen)
  then show ?case using builds_nonempty[of "i + 2" msgs J]
    by (cases "i + 2 < length msgs")
       (auto simp: builds_cases pair_build_append nth_append paired_user_append)
qed (simp add: builds_cases)

lemma segment_prompt_append:
  "\<exists>rest. segment_prompt J (body\<lparr>messages := messages body @ extra\<rparr>)
        = butlast (segment_prompt J body) @ rest"
  (is "\<exists>rest. segment_prompt J ?grown = _ @ rest")
proof (cases "extra = []")
  case True
  then show ?thesis
    by (cases "segment_prompt J body" rule: rev_cases) simp_all
next
  case False
  let ?pre = "(case wb_tools body of None \<Rightarrow> [] | Some t \<Rightarrow> [prefix_build Tools t]) @
     (case wb_system body of None \<Rightarrow> [] | Some s \<Rightarrow> [prefix_build System s])"
  obtain rest where rest: "builds J (messages body @ extra) 0 0 = butlast (builds J (messages body) 0 0) @ rest"
    using builds_append by blast
  obtain rest' where "all_builds J ?grown = butlast (all_builds J body) @ rest'" and ne: "rest' \<noteq> []"
  proof (cases "messages body = []")
    case True
    have "builds J extra 0 0 \<noteq> []" using False by (intro builds_nonempty) simp
    moreover have "all_builds J body = ?pre" "all_builds J ?grown = ?pre @ builds J extra 0 0"
      using True by (simp_all add: all_builds_def builds_cases)
    ultimately show ?thesis
      using that[of "(if ?pre = [] then [] else [last ?pre]) @ builds J extra 0 0"]
      by (cases ?pre rule: rev_cases) auto
  next
    case m: False
    then have b: "builds J (messages body) 0 0 \<noteq> []" by (intro builds_nonempty) simp
    have "rest \<noteq> []"
    proof
      assume "rest = []"
      have "length (concat (map b_source_uuids (builds J (messages body @ extra) 0 0)))
          \<le> length (concat (map b_source_uuids (builds J (messages body) 0 0)))"
        unfolding rest \<open>rest = []\<close> using b
        by (cases "builds J (messages body) 0 0" rule: rev_cases) simp_all
      then show False using False by (simp add: builds_sources)
    qed
    then show ?thesis
      using that[of rest] rest b by (simp add: all_builds_def butlast_append)
  qed
  then have "segment_prompt J ?grown = mark_last (render 0 0 (butlast (all_builds J body)) @
      render (length (butlast (all_builds J body))) (sum_list (map blen (butlast (all_builds J body)))) rest')"
    (is "_ = mark_last (?A @ ?B)") by (simp add: segment_prompt_render render_append)
  also have "\<dots> = ?A @ mark_last ?B" using ne by (cases rest') (auto simp: mark_last_def butlast_append)
  also have "?A = butlast (segment_prompt J body)"
    by (cases "all_builds J body" rule: rev_cases)
       (simp_all add: segment_prompt_render render_append mark_last_def)
  finally show ?thesis by blast
qed

section \<open>Generations\<close>

definition user_turns :: "Build list \<Rightarrow> nat" where
  "user_turns bs = length (filter (\<lambda>b. b_kind b = UserTurn) bs)"

lemma user_turns_Cons [simp]:
  "user_turns (b # bs) = (if b_kind b = UserTurn then 1 else 0) + user_turns bs"
  by (simp add: user_turns_def)

lemma user_turns_simps [simp]: "user_turns [] = 0" "user_turns (as @ bs) = user_turns as + user_turns bs"
  by (simp_all add: user_turns_def)

lemma build_kinds [simp]:
  "b_kind (turn_build k msgs i g p h) = k" "b_generation (turn_build k msgs i g p h) = g"
  "b_kind (pair_build msgs i g) = ToolPair" "b_generation (pair_build msgs i g) = g"
  "b_kind (prefix_build k raw) = k" "b_generation (prefix_build k raw) = 0"
  by (simp_all add: turn_build_def pair_build_def prefix_build_def)

lemma generations_ge: "b \<in> set (builds J msgs i gen) \<Longrightarrow> gen \<le> b_generation b"
proof (induction i gen rule: builds_induct[where J = J and msgs = msgs])
  case (User i gen)
  then show ?case by (auto simp: builds_cases)
qed (auto simp: builds_cases)

lemma generations_sorted: "sorted (map b_generation (builds J msgs i gen))"
  by (induction i gen rule: builds_induct[where J = J and msgs = msgs])
     (auto simp: builds_cases dest: generations_ge)

lemma generations_set:
  "{g \<in> b_generation ` set (builds J msgs i gen). gen < g} = {gen + 1..gen + user_turns (builds J msgs i gen)}"
proof (induction i gen rule: builds_induct[where J = J and msgs = msgs])
  case (User i gen)
  let ?B = "builds J msgs (i + 1) (gen + 1)"
  have "{g \<in> insert (gen + 1) (b_generation ` set ?B). gen < g}
      = insert (gen + 1) {g \<in> b_generation ` set ?B. gen + 1 < g}"
    by (auto dest: generations_ge)
  also have "\<dots> = {gen + 1..gen + 1 + user_turns ?B}" unfolding User(3) by auto
  finally show ?case using User(1,2) by (simp add: builds_cases)
qed (auto simp: builds_cases)

lemma positive_generations:
  "{g \<in> b_generation ` set (all_builds J body). 0 < g} = {1..user_turns (all_builds J body)}"
  using generations_set[of J "messages body" 0 0]
  by (auto simp: all_builds_def split: option.splits)

lemma remdups_adj_sorted_interval:
  assumes "sorted xs" "set xs = {1..(n::nat)}"
  shows "remdups_adj xs = [1..<n + 1]"
proof (rule sorted_distinct_set_unique)
  show "distinct (remdups_adj xs)" using assms(1)
    by (induction xs rule: remdups_adj.induct) auto
  show "set (remdups_adj xs) = set [1..<n + 1]" unfolding remdups_adj_set assms(2) by auto
  show "sorted [1..<n + 1]" by (rule sorted_upt)
qed (simp_all add: assms(1) sorted_remdups_adj)

lemma fresh_boundary_eq:
  assumes "{g \<in> set (map generation segs). 0 < g} = {1..n}"
  shows "fresh_boundary segs = (if n \<le> 1 then n else n - 1)"
proof -
  have "set (sort (filter (\<lambda>g. 0 < g) (map generation segs))) = {1..n}" using assms by auto
  then have "remdups_adj (sort (filter (\<lambda>g. 0 < g) (map generation segs))) = [1..<n + 1]"
    by (intro remdups_adj_sorted_interval) simp_all
  then show ?thesis by (auto simp: fresh_boundary_def Let_def nth_opt_def simp del: upt_Suc)
qed

lemma source_messages_append:
  assumes "s \<in> set (segment_prompt J body)" "length (messages body @ extra) \<le> 2 ^ 64"
  shows "source_messages s (body\<lparr>messages := messages body @ extra\<rparr>) = source_messages s body"
proof -
  obtain n where n: "n < length (segment_prompt J body)" "s = segment_prompt J body ! n"
    using assms(1) by (metis in_set_conv_nth)
  have "source_uuids s = b_source_uuids (all_builds J body ! n)"
    using segment_prompt_nth[OF n(1)] n(2) by (simp add: mk_seg_def Let_def)
  moreover have "build_ok (messages body) (all_builds J body ! n)"
    using n(1) by (intro all_builds_ok[of _ J]) (simp add: length_segment_prompt)
  ultimately obtain "is" where "is": "source_uuids s = map message_id is" "\<forall>k \<in> set is. k < length (messages body)"
    by (auto simp: build_ok_def)
  have a: "source_messages s body = map ((!) (messages body)) is"
    using assms(2) by (intro source_messages_of_ids "is") simp
  have "source_messages s (body\<lparr>messages := messages body @ extra\<rparr>) = map ((!) (messages body @ extra)) is"
    using source_messages_of_ids[of s "is" "body\<lparr>messages := messages body @ extra\<rparr>"] "is" assms(2) by force
  also have "\<dots> = map ((!) (messages body)) is" using "is"(2) by (simp add: nth_append)
  finally show ?thesis by (simp only: a)
qed

section \<open>Properties\<close>

text \<open>C13: segmentation loses nothing and duplicates nothing: read in order, the segments' sources
  are exactly the messages of the body, each once and in order; a segment's index is its position;
  and its byte offset locates its canonical payload in the concatenated raw spans of the prompt
  (tools, system, messages).\<close>

theorem segmentation_partitions_the_prompt:
  assumes "length (messages body) \<le> 2 ^ 64"
  shows "concat (map (\<lambda>s. source_indices (source_uuids s)) (segment_prompt J body)) = [0..<length (messages body)] \<and>
    map index (segment_prompt J body) = [0..<length (segment_prompt J body)] \<and>
    (\<forall>s \<in> set (segment_prompt J body).
       take (length (segment_payload_bytes s body)) (drop (byte_offset s) (utf8 (concat (prompt_spans body))))
         = segment_payload_bytes s body)"
proof -
  have "map index (segment_prompt J body) = [0..<length (segment_prompt J body)]"
    by (rule nth_equalityI) (simp_all add: segment_prompt_index)
  then show ?thesis
    using segment_sources[OF assms, of J] segment_payload_at_offset(1)[OF _ assms, of _ J]
    by (auto simp: in_set_conv_nth)
qed

definition demo_serde :: serde where
  "demo_serde = \<lparr>js_body = (\<lambda>_. None), js_string = Some, js_array = (\<lambda>r. Some [r]),
     js_type_tag = (\<lambda>r. Some (Some (lit ''text''))),
     js_id_fields = (\<lambda>r. Some \<lparr>idf_id = Some r, idf_tool_use_id = Some r, idf_name = None\<rparr>),
     js_text_field = Some, js_tool_result = (\<lambda>r. Some \<lparr>trf_is_error = None, trf_content = TRText r\<rparr>),
     js_result_content = (\<lambda>r. Some (RCText r)), js_envelope = (\<lambda>_. None)\<rparr>"

text \<open>A body with a user prompt, a closed tool call and an open one.\<close>

definition demo_body :: WireBody where
  "demo_body = \<lparr>wb_model = ModelId (lit ''claude-opus-4-8''), wb_system = Some (lit ''s''), wb_tools = None,
     messages = [\<lparr>role = RoleUser, content = MText (lit ''a'') (lit ''a'')\<rparr>,
       \<lparr>role = RoleAssistant, content = MBlocks [BToolUse (lit ''t1'')]\<rparr>,
       \<lparr>role = RoleUser, content = MBlocks [BToolResult (lit ''t1'')]\<rparr>,
       \<lparr>role = RoleAssistant, content = MBlocks [BToolUse (lit ''t2'')]\<rparr>,
       \<lparr>role = RoleUser, content = MText (lit ''b'') (lit ''b'')\<rparr>],
     max_tokens = 1\<rparr>"

lemma length_demo_body: "length (messages demo_body) = 5"
  by (simp add: demo_body_def)

theorem segmentation_partitions_the_prompt_witness:
  "length (messages demo_body) = 5 \<and>
   concat (map (\<lambda>s. source_indices (source_uuids s)) (segment_prompt demo_serde demo_body)) = [0..<5]"
  using segmentation_partitions_the_prompt[of demo_body demo_serde] by (simp add: length_demo_body)

text \<open>C14: nothing in flight is offered for compaction: the last segment and only it is current, and
  it is pinned.  An assistant message is in a tool pair exactly when the next message is a user's with a tool
  result for one of its client tool calls, by id; the pair is those two messages.  Apart from the last segment,
  the pinned segments are exactly the assistant messages, alone in their segment, with a client tool call but no such
  answer to any of them.\<close>

theorem segmentation_pins_open_work:
  assumes "n < length (segment_prompt J body)"
  defines "s \<equiv> segment_prompt J body ! n"
  shows "is_current s = (n + 1 = length (segment_prompt J body)) \<and>
    (kind s = ToolPair \<longrightarrow> (\<exists>k. source_uuids s = [message_id k, message_id (k + 1)] \<and> role (messages body ! k) = RoleAssistant)) \<and>
    (\<forall>k < length (messages body). message_id k \<in> set (source_uuids s) \<longrightarrow> role (messages body ! k) = RoleAssistant \<longrightarrow>
       (kind s = ToolPair) = (k + 1 < length (messages body) \<and> role (messages body ! (k + 1)) = RoleUser \<and>
          (\<exists>u \<in> set (blocks (content (messages body ! k))). \<exists>r \<in> set (blocks (content (messages body ! (k + 1)))).
             is_client_tool_use u \<and> is_tool_result r \<and> tool_use_id J u \<noteq> None \<and> tool_use_id J r = tool_use_id J u))) \<and>
    pinned s = (is_current s \<or> (\<exists>k < length (messages body). source_uuids s = [message_id k] \<and> kind s \<noteq> ToolPair \<and>
       role (messages body ! k) = RoleAssistant \<and> (\<exists>u \<in> set (blocks (content (messages body ! k))). is_client_tool_use u)))"
proof -
  have safe: "build_safe J (messages body) (all_builds J body ! n)"
    using assms(1) by (intro all_builds_safe) (simp add: length_segment_prompt)
  have s: "source_uuids s = b_source_uuids (all_builds J body ! n)" "kind s = b_kind (all_builds J body ! n)"
    "is_current s = (n + 1 = length (segment_prompt J body))" "pinned s = (b_pinned (all_builds J body ! n) \<or> is_current s)"
    using segment_prompt_nth[OF assms(1)] by (simp_all add: s_def mk_seg_def Let_def)
  have kinds: "\<forall>k < length (messages body). message_id k \<in> set (source_uuids s) \<longrightarrow> role (messages body ! k) = RoleAssistant \<longrightarrow>
      (kind s = ToolPair) = answers_call J (messages body) k"
    "kind s = ToolPair \<longrightarrow> (\<exists>k. source_uuids s = [message_id k, message_id (k + 1)] \<and> role (messages body ! k) = RoleAssistant)"
    using safe unfolding build_safe_def s(1,2) by blast+
  have "b_pinned (all_builds J body ! n) = (\<exists>k < length (messages body). source_uuids s = [message_id k] \<and> kind s \<noteq> ToolPair \<and>
       role (messages body ! k) = RoleAssistant \<and> (\<exists>u \<in> set (blocks (content (messages body ! k))). is_client_tool_use u))"
    using safe kinds(1) unfolding build_safe_def s(1,2)[symmetric] has_client_tool_use_def list_ex_iff by fastforce
  then show ?thesis using s kinds unfolding answers_call_def by blast
qed

lemma demo_message_3:
  "messages demo_body ! 3 = \<lparr>role = RoleAssistant, content = MBlocks [BToolUse (lit ''t2'')]\<rparr>"
  by (simp add: demo_body_def)

lemma demo_segments:
  "length (segment_prompt demo_serde demo_body) = 5"
  "source_uuids (segment_prompt demo_serde demo_body ! 3) = [message_id 3]"
  "kind (segment_prompt demo_serde demo_body ! 3) = AssistantTurn"
  "source_uuids (segment_prompt demo_serde demo_body ! 2) = [message_id 1, message_id 2]"
  by (simp_all add: segment_prompt_def demo_body_def segment_loop.simps paired_user_def Let_def push_def
      prefix_build_def mark_last_def is_client_tool_use_def is_tool_result_def tool_use_id_def demo_serde_def)

theorem segmentation_pins_open_work_witness:
  "pinned (segment_prompt demo_serde demo_body ! 3) \<and> kind (segment_prompt demo_serde demo_body ! 2) = ToolPair \<and>
   \<not> pinned (segment_prompt demo_serde demo_body ! 2)"
proof -
  have "role (messages demo_body ! 1) = RoleAssistant" "role (messages demo_body ! 2) = RoleUser"
    "blocks (content (messages demo_body ! 1)) = [BToolUse (lit ''t1'')]" "blocks (content (messages demo_body ! 2)) = [BToolResult (lit ''t1'')]"
    by (simp_all add: demo_body_def)
  moreover have ids: "tool_use_id demo_serde (BToolUse x) = Some x" "tool_use_id demo_serde (BToolResult x) = Some x" for x
    by (simp_all add: tool_use_id_def demo_serde_def)
  ultimately have "kind (segment_prompt demo_serde demo_body ! 2) = ToolPair \<and> \<not> pinned (segment_prompt demo_serde demo_body ! 2)"
    using segmentation_pins_open_work[of 2 demo_serde demo_body] demo_segments(1,4) ids
    by (auto simp: length_demo_body is_client_tool_use_def is_tool_result_def numeral_2_eq_2)
  then show ?thesis
    using segmentation_pins_open_work[of 3 demo_serde demo_body] demo_segments(1-3)
    by (auto simp: length_demo_body demo_message_3 is_client_tool_use_def)
qed

text \<open>C15: history is stable: when messages are appended, every segment but the last is produced
  again unchanged at the same place, with the same canonical payload, so refs addressed by payload
  keep matching.\<close>

theorem segments_stable_under_growth:
  assumes "length (messages body @ extra) \<le> 2 ^ 64"
  shows "(\<exists>rest. segment_prompt J (body\<lparr>messages := messages body @ extra\<rparr>)
            = butlast (segment_prompt J body) @ rest) \<and>
    (\<forall>s \<in> set (butlast (segment_prompt J body)).
       segment_payload_bytes s (body\<lparr>messages := messages body @ extra\<rparr>) = segment_payload_bytes s body)"
  using segment_prompt_append source_messages_append[OF _ assms]
  by (auto simp: segment_payload_bytes_def dest!: in_set_butlastD)

theorem segments_stable_under_growth_witness:
  "\<exists>rest. segment_prompt demo_serde (demo_body\<lparr>messages := messages demo_body @ messages demo_body\<rparr>)
     = butlast (segment_prompt demo_serde demo_body) @ rest"
  using segments_stable_under_growth[of demo_body "messages demo_body" demo_serde] by (simp add: length_demo_body)

text \<open>The freshness cutoff is the second newest user generation: with \<open>g\<close> user turns the
  boundary is generation \<open>g - 1\<close> (or \<open>g\<close> itself when there are fewer than two), and generations never
  decrease along the conversation.\<close>

theorem fresh_boundary_is_second_newest:
  "(let g = length (filter (\<lambda>s. kind s = UserTurn) (segment_prompt J body))
    in fresh_boundary (segment_prompt J body) = (if g \<le> 1 then g else g - 1)) \<and>
   sorted (map generation (segment_prompt J body))"
proof -
  have g: "map generation (segment_prompt J body) = map b_generation (all_builds J body)"
    by (rule segment_prompt_map) (simp_all add: mk_seg_def)
  have k: "map kind (segment_prompt J body) = map b_kind (all_builds J body)"
    by (rule segment_prompt_map) (simp_all add: mk_seg_def)
  have "length (filter (\<lambda>s. kind s = UserTurn) (segment_prompt J body))
      = length (filter (\<lambda>k. k = UserTurn) (map kind (segment_prompt J body)))"
    by (simp add: filter_map comp_def)
  then have u: "length (filter (\<lambda>s. kind s = UserTurn) (segment_prompt J body)) = user_turns (all_builds J body)"
    unfolding k user_turns_def by (simp add: filter_map comp_def)
  have "sorted (map b_generation (all_builds J body))"
    by (auto simp: all_builds_def generations_sorted sorted_append split: option.splits)
  then show ?thesis
    unfolding u g using fresh_boundary_eq[of "segment_prompt J body"] positive_generations[of J body]
    by (simp add: g Let_def del: One_nat_def)
qed

end
