(* ===== verification/Policy.thy ===== *)
theory Policy
  imports Segment
begin

text \<open>
  The per-segment policy of \<^verbatim>\<open>ccs-policy\<close>: salience pins (\<^verbatim>\<open>salience.rs\<close>),
  the lossy ladder (\<^verbatim>\<open>strategy.rs\<close>), the summarizer's decisions and their self-repair
  (\<^verbatim>\<open>decision.rs\<close>), squash candidates and batches (\<^verbatim>\<open>candidate.rs\<close>),
  cache-breakpoint planning (\<^verbatim>\<open>breakpoint.rs\<close>) and the token budget
  (\<^verbatim>\<open>budget.rs\<close>).
\<close>

section \<open>Salience\<close>

record Constraint =
  con_text :: str
  con_source_message :: MessageId
  con_superseded_by :: "MessageId option"

record Decision =
  dec_text :: str
  dec_rationale :: str
  dec_planned :: bool
  dec_superseded_by :: "MessageId option"

record InFlightWork =
  ifw_task :: str
  ifw_last_safe_point :: str
  ifw_open_files :: "str list"
  ifw_skill_paths :: "str list"

record WorkingState =
  constraints :: "Constraint list"
  decisions :: "Decision list"
  in_flight :: "InFlightWork option"

definition WorkingState_default :: WorkingState where
  "WorkingState_default = \<lparr>constraints = [], decisions = [], in_flight = None\<rparr>"

definition carries_live_constraint :: "Segment \<Rightarrow> WorkingState \<Rightarrow> bool" where
  "carries_live_constraint seg state =
     list_ex (\<lambda>c. con_source_message c \<in> set (source_uuids seg))
             (filter (\<lambda>c. con_superseded_by c = None) (constraints state))"

definition is_pinned :: "Segment \<Rightarrow> WorkingState \<Rightarrow> bool" where
  "is_pinned seg state =
     ((kind seg = UserTurn \<and> is_true_human seg) \<or> carries_live_constraint seg state)"

section \<open>The ladder\<close>

datatype Strategy =
    SKeep
  | SRecode (rc_content: str) (rc_ref_id: "RefId option")
  | STruncate "LineRange list"
  | SSummarize str
  | SReversibleRef (rr_ref_id: RefId) (rr_summary: str)
  | SDrop

datatype StrategyKind = KKeep | KRecode | KTruncate | KSummarize | KReversibleRef | KDrop

definition LADDER_PRIORITY :: "StrategyKind list" where
  "LADDER_PRIORITY = [KRecode, KTruncate, KSummarize, KReversibleRef, KKeep]"

record ContentDecision =
  choice :: ChoiceTag
  ranges_to_keep :: "LineRange list"
  summary_content :: "str option"

definition normalize :: "ContentDecision \<Rightarrow> ContentDecision" where
  "normalize self =
     (if choice self = Truncate \<and> ranges_to_keep self = [] then self\<lparr>choice := Keep\<rparr>
      else if choice self = Summarize \<and> (case summary_content self of None \<Rightarrow> [] | Some s \<Rightarrow> s) = []
      then self\<lparr>choice := Compress\<rparr>
      else self)"

definition pre_gate :: "ContentDecision \<Rightarrow> nat \<Rightarrow> PolicyConfig \<Rightarrow> Strategy option" where
  "pre_gate self original_len cfg =
     (if original_len < pre_gate_min_chars cfg then Some SKeep
      else case (choice self, summary_content self) of
          (Summarize, Some summary) \<Rightarrow> if original_len < length summary then Some SKeep else None
        | _ \<Rightarrow> None)"

section \<open>Candidates\<close>

record SquashCandidate =
  earliest_offset :: ByteOffset
  suffix_tokens :: TokenCount
  net_removed :: int
  quality_gain :: f64
  ref_id :: RefId
  strategy :: Strategy

record SquashBatch =
  candidates :: "SquashCandidate list"

definition of_single :: "SquashCandidate \<Rightarrow> SquashBatch" where
  "of_single cand = \<lparr>candidates = [cand]\<rparr>"

definition head_offset :: "SquashBatch \<Rightarrow> ByteOffset" where
  "head_offset self = (case map earliest_offset (candidates self) of
      [] \<Rightarrow> 0 | x # xs \<Rightarrow> fold min xs x)"

definition batch_suffix_tokens :: "SquashBatch \<Rightarrow> TokenCount" where
  "batch_suffix_tokens self = fold max (map suffix_tokens (candidates self)) 0"

definition batch_total_removed :: "SquashBatch \<Rightarrow> int" where
  "batch_total_removed self = foldl (\<lambda>acc c. i64_wrap (acc + net_removed c)) 0 (candidates self)"

definition batch_quality_gain :: "SquashBatch \<Rightarrow> f64" where
  "batch_quality_gain self = foldl (\<lambda>acc c. fadd acc (quality_gain c)) (Fin 0) (candidates self)"

definition batch_view :: "SquashBatch \<Rightarrow> BatchView" where
  "batch_view self = \<lparr>bv_suffix_tokens = batch_suffix_tokens self,
     bv_total_removed = batch_total_removed self, bv_quality_gain = batch_quality_gain self\<rparr>"

definition approx_chars :: "Segment \<Rightarrow> nat" where
  "approx_chars seg = f64_as_usize (fround (fmul (f64_of_u32 (token_estimate seg)) (fl (7 / 2))))"

definition is_huge_human_paste :: "Segment \<Rightarrow> PolicyConfig \<Rightarrow> bool" where
  "is_huge_human_paste seg cfg =
     (is_true_human seg \<and> kind seg = UserTurn \<and> human_verbatim_max cfg < approx_chars seg)"

definition is_squash_candidate :: "Segment \<Rightarrow> WorkingState \<Rightarrow> PolicyConfig \<Rightarrow> bool" where
  "is_squash_candidate seg working cfg = (\<not> is_pinned seg working \<or> is_huge_human_paste seg cfg)"

section \<open>Breakpoints\<close>

record BreakpointPlan =
  positions :: "nat list"

definition cap_cache_hints_to :: "nat list \<Rightarrow> nat \<Rightarrow> nat list" where
  "cap_cache_hints_to ps cap = (if length ps \<le> cap then ps else drop (length ps - cap) ps)"

definition cap_cache_hints :: "nat list \<Rightarrow> nat list" where
  "cap_cache_hints ps = cap_cache_hints_to ps CACHE_HINT_CAP"

fun prefix_scan :: "nat \<Rightarrow> Segment list \<Rightarrow> (nat \<times> nat) list" where
  "prefix_scan acc [] = []"
| "prefix_scan acc (seg # segs) =
     (let acc' = acc + unat (token_estimate seg) in (index seg, acc') # prefix_scan acc' segs)"

definition plan_breakpoints :: "Segment list \<Rightarrow> TokenCount \<Rightarrow> PolicyConfig \<Rightarrow> BreakpointPlan" where
  "plan_breakpoints segments min_floor cfg =
     (let min_fl = unat min_floor;
          lookback_start = length segments - lookback_positions cfg;
          ps = map fst (filter (\<lambda>(i, prefix). lookback_start \<le> i \<and> min_fl \<le> prefix \<and>
                   \<not> is_recency_protected (segments ! i) segments cfg) (prefix_scan 0 segments))
      in \<lparr>positions = cap_cache_hints_to ps (cache_hint_cap cfg)\<rparr>)"

section \<open>Budget\<close>

datatype Pressure = Nominal | OverBudget

definition soft_pressure :: "TokenCount \<Rightarrow> TokenCount \<Rightarrow> Pressure" where
  "soft_pressure window just_added =
     (let max_tokens = fmul (fl (8 / 10)) (f64_of_u32 window)
      in if flt (fdiv max_tokens (fl 2)) (f64_of_u32 just_added) then OverBudget else Nominal)"

definition hard_target :: "TokenCount \<Rightarrow> TokenCount \<Rightarrow> TokenCount" where
  "hard_target window max_output =
     max (u32_saturating_sub (u32_saturating_sub window max_output) 1024) 256"

definition is_reasoning_block :: "ContentBlock \<Rightarrow> bool" where
  "is_reasoning_block b = (case b of BThinking _ \<Rightarrow> True | BRedactedThinking _ \<Rightarrow> True | _ \<Rightarrow> False)"

definition segment_has_reasoning :: "WireBody \<Rightarrow> Segment \<Rightarrow> bool" where
  "segment_has_reasoning body seg =
     list_ex is_reasoning_block (concat (map (\<lambda>m. blocks (content m)) (source_messages seg body)))"

fun rposition :: "('a \<Rightarrow> bool) \<Rightarrow> 'a list \<Rightarrow> nat option" where
  "rposition P [] = None"
| "rposition P (x # xs) = (case rposition P xs of Some i \<Rightarrow> Some (Suc i)
     | None \<Rightarrow> if P x then Some 0 else None)"

definition strip_reasoning :: "WireBody \<Rightarrow> Segment list \<Rightarrow> nat list" where
  "strip_reasoning body segments =
     (let latest_assistant = rposition (\<lambda>s. kind s = AssistantTurn) segments
      in map index (filter (segment_has_reasoning body)
           (filter (\<lambda>s. kind s = AssistantTurn \<and> Some (index s) \<noteq> latest_assistant) segments)))"

definition shed_tokens :: "WireBody \<Rightarrow> Segment \<Rightarrow> u32" where
  "shed_tokens body seg =
     (let kept = concat (map braw (filter (\<lambda>b. \<not> is_reasoning_block b)
                   (concat (map (\<lambda>m. blocks (content m)) (source_messages seg body)))))
      in u32_saturating_sub (token_estimate seg) (estimate_chars_proxy kept))"

section \<open>Decisions\<close>

text \<open>A normalized decision always carries the payload its choice needs.\<close>

definition consistent :: "ContentDecision \<Rightarrow> bool" where
  "consistent d = ((choice d = Truncate \<longrightarrow> ranges_to_keep d \<noteq> []) \<and>
     (choice d = Summarize \<longrightarrow> (\<exists>s. summary_content d = Some s \<and> s \<noteq> [])))"

lemma normalize_consistent: "consistent (normalize d)"
  by (auto simp: consistent_def normalize_def split: option.splits)

lemma normalize_id: "consistent d \<Longrightarrow> normalize d = d"
  by (auto simp: consistent_def normalize_def split: option.splits)

section \<open>Sizes\<close>

lemma approx_chars_eq: "approx_chars seg = (7 * unat (token_estimate seg) + 1) div 2"
proof -
  define n where "n = unat (token_estimate seg)"
  have n: "n < 2 ^ 32" using unsigned_less[of "token_estimate seg", where ?'a = nat] by (simp add: n_def)
  have "fmul (f64_of_u32 (token_estimate seg)) (fl (7 / 2)) = fl (of_int (7 * int n) * pow2 (- 1))"
    by (simp add: f64_of_u32_eq fl_7_2 n_def[symmetric] pow2_def power_int_minus mult.commute del: of_nat_unat)
  also have "\<dots> = Fin (of_int (7 * int n) * pow2 (- 1))" using n by (intro fl_exact) simp_all
  finally have f: "fmul (f64_of_u32 (token_estimate seg)) (fl (7 / 2)) = Fin (7 * of_nat n / 2)"
    by (simp add: pow2_def power_int_minus)
  have "round_away (7 * of_nat n / 2) = \<lfloor>of_int (int (7 * n + 1)) / (of_int 2 :: rat)\<rfloor>"
    by (simp add: round_away_def add_divide_distrib add.commute)
  also have "\<dots> = int (7 * n + 1) div 2" by (rule floor_divide_of_int_eq)
  finally have r: "round_away (7 * of_nat n / 2) = int ((7 * n + 1) div 2)" by (simp add: zdiv_int)
  have "trunc (of_int (int ((7 * n + 1) div 2))) = int ((7 * n + 1) div 2)" by (simp add: trunc_def)
  moreover have "int ((7 * n + 1) div 2) < 2 ^ 64" using n by simp
  ultimately have "sat_cast 0 (2 ^ 64 - 1) (Fin (of_int (int ((7 * n + 1) div 2)))) = int ((7 * n + 1) div 2)"
    by (simp add: sat_cast_def)
  then show ?thesis by (simp add: approx_chars_def f64_as_usize_def f r n_def[symmetric])
qed

section \<open>Breakpoint plans\<close>

definition wf_segments :: "Segment list \<Rightarrow> bool" where
  "wf_segments segs = (map index segs = [0..<length segs])"

lemma wf_segments_nth: "wf_segments segs \<Longrightarrow> i < length segs \<Longrightarrow> index (segs ! i) = i"
  unfolding wf_segments_def by (metis add_0 nth_map nth_upt)

lemma segment_prompt_wf: "wf_segments (segment_prompt J body)"
  unfolding wf_segments_def by (rule nth_equalityI) (simp_all add: segment_prompt_index)

definition prefix_tokens :: "Segment list \<Rightarrow> nat \<Rightarrow> nat" where
  "prefix_tokens segs i = sum_list (map (\<lambda>s. unat (token_estimate s)) (take (i + 1) segs))"

lemma prefix_scan_eq:
  "prefix_scan acc segs = map (\<lambda>i. (index (segs ! i), acc + prefix_tokens segs i)) [0..<length segs]"
proof (induction segs arbitrary: acc)
  case (Cons s segs)
  have "[0..<length (s # segs)] = 0 # map Suc [0..<length segs]"
    by (simp add: upt_conv_Cons map_Suc_upt del: upt_Suc)
  then show ?case by (simp add: Cons prefix_tokens_def Let_def comp_def add.assoc)
qed simp

definition eligible_breakpoint :: "Segment list \<Rightarrow> TokenCount \<Rightarrow> PolicyConfig \<Rightarrow> nat \<Rightarrow> bool" where
  "eligible_breakpoint segs min_fl cfg i =
     (length segs - lookback_positions cfg \<le> i \<and> i < length segs - recency_window_n cfg \<and>
      unat min_fl \<le> prefix_tokens segs i)"

lemma plan_breakpoints_eq:
  assumes "wf_segments segs"
  shows "positions (plan_breakpoints segs min_fl cfg) =
    (let E = filter (eligible_breakpoint segs min_fl cfg) [0..<length segs]
     in drop (length E - cache_hint_cap cfg) E)"
proof -
  have scan: "prefix_scan 0 segs = map (\<lambda>i. (i, prefix_tokens segs i)) [0..<length segs]"
    unfolding prefix_scan_eq using wf_segments_nth[OF assms] by (intro map_cong) simp_all
  have "filter (\<lambda>(i, prefix). length segs - lookback_positions cfg \<le> i \<and> unat min_fl \<le> prefix \<and>
      \<not> is_recency_protected (segs ! i) segs cfg) (prefix_scan 0 segs)
    = map (\<lambda>i. (i, prefix_tokens segs i)) (filter (eligible_breakpoint segs min_fl cfg) [0..<length segs])"
    unfolding scan filter_map comp_def
    by (intro arg_cong[where f = "map _"] filter_cong)
       (auto simp: eligible_breakpoint_def is_recency_protected_def wf_segments_nth[OF assms])
  then show ?thesis
    by (simp add: plan_breakpoints_def cap_cache_hints_to_def Let_def comp_def)
qed

lemma drop_suffix_sorted: "sorted_wrt P xs \<Longrightarrow> sorted_wrt P (drop n xs)"
  by (rule sorted_wrt_drop)

lemma breakpoints_sorted:
  "sorted_wrt (<) (filter (eligible_breakpoint segs min_fl cfg) [0..<length segs])"
  by (rule sorted_wrt_filter) (simp add: sorted_wrt_upt)

section \<open>Properties\<close>

text \<open>A breakpoint plan is exactly the latest \<open>cache_hint_cap\<close> eligible positions, in strictly
  increasing order; every position is inside the lookback window, ahead of the volatile recency tail
  and closes a prefix of at least the model's cacheable minimum; an eligible position is left out
  only when the cap is reached by later ones.\<close>

theorem plan_breakpoints_keeps_latest_stable_prefixes:
  fixes segs :: "Segment list" and min_fl :: TokenCount and cfg :: PolicyConfig
  assumes "wf_segments segs"
  defines "ps \<equiv> positions (plan_breakpoints segs min_fl cfg)"
  shows "length ps \<le> cache_hint_cap cfg \<and> sorted_wrt (<) ps \<and>
    (\<forall>p \<in> set ps. length segs - lookback_positions cfg \<le> p \<and> p < length segs \<and>
       \<not> is_recency_protected (segs ! p) segs cfg \<and> unat min_fl \<le> prefix_tokens segs p) \<and>
    (\<forall>i < length segs. eligible_breakpoint segs min_fl cfg i \<longrightarrow> i \<notin> set ps \<longrightarrow>
       length ps = cache_hint_cap cfg \<and> (\<forall>p \<in> set ps. i < p))"
proof -
  let ?E = "filter (eligible_breakpoint segs min_fl cfg) [0..<length segs]"
  let ?n = "length ?E - cache_hint_cap cfg"
  have ps: "ps = drop ?n ?E" unfolding ps_def plan_breakpoints_eq[OF assms(1)] Let_def ..
  have len: "length ps \<le> cache_hint_cap cfg" unfolding ps by simp
  have sorted: "sorted_wrt (<) ps" unfolding ps by (rule drop_suffix_sorted[OF breakpoints_sorted])
  have elig: "p < length segs \<and> eligible_breakpoint segs min_fl cfg p" if "p \<in> set ps" for p
    using that set_drop_subset[of ?n ?E] unfolding ps by auto
  have latest: "length ps = cache_hint_cap cfg \<and> (\<forall>p \<in> set ps. i < p)"
    if "i < length segs" "eligible_breakpoint segs min_fl cfg i" "i \<notin> set ps" for i
  proof -
    have "i \<in> set (take ?n ?E @ drop ?n ?E)" unfolding append_take_drop_id using that by simp
    then have i: "i \<in> set (take ?n ?E)" using that(3) unfolding ps set_append by blast
    then have "0 < ?n" by (cases "?n = 0") simp_all
    moreover have "sorted_wrt (<) (take ?n ?E @ drop ?n ?E)"
      unfolding append_take_drop_id by (rule breakpoints_sorted)
    then have "\<forall>p \<in> set (drop ?n ?E). i < p" using i unfolding sorted_wrt_append by blast
    ultimately show ?thesis unfolding ps by simp
  qed
  have "length segs - lookback_positions cfg \<le> p \<and> p < length segs \<and>
      \<not> is_recency_protected (segs ! p) segs cfg \<and> unat min_fl \<le> prefix_tokens segs p" if "p \<in> set ps" for p
    using elig[OF that] wf_segments_nth[OF assms(1)]
    by (simp add: eligible_breakpoint_def is_recency_protected_def)
  then show ?thesis using len sorted latest by blast
qed

definition demo_segment :: "nat \<Rightarrow> SegmentKind \<Rightarrow> Segment" where
  "demo_segment i k = \<lparr>index = i, kind = k, byte_offset = 0, token_estimate = 1000, generation = 1,
     pinned = False, is_current = False, is_true_human = False, source_uuids = [message_id i]\<rparr>"

theorem plan_breakpoints_keeps_latest_stable_prefixes_witness:
  "wf_segments (map (\<lambda>i. demo_segment i AssistantTurn) [0..<4]) \<and>
   sorted_wrt (<) (positions (plan_breakpoints (map (\<lambda>i. demo_segment i AssistantTurn) [0..<4]) 900 PolicyConfig_default))"
proof -
  have "wf_segments (map (\<lambda>i. demo_segment i AssistantTurn) [0..<4])"
    by (simp add: wf_segments_def demo_segment_def comp_def)
  then show ?thesis using plan_breakpoints_keeps_latest_stable_prefixes by blast
qed

text \<open>Self-repair of a summarizer decision always yields a decision that carries what its
  choice needs, changes nothing that already did, and is idempotent; and after it a rewrite that
  the pre-gate lets through is on an original above the size floor and, when it is a summary, is
  not longer than the original.\<close>

theorem normalize_repairs:
  "consistent (normalize d) \<and> (consistent d \<longrightarrow> normalize d = d) \<and> normalize (normalize d) = normalize d \<and>
   (pre_gate (normalize d) n cfg = None \<longrightarrow>
      pre_gate_min_chars cfg \<le> n \<and>
      (choice (normalize d) = Summarize \<longrightarrow>
         (\<exists>s. summary_content (normalize d) = Some s \<and> s \<noteq> [] \<and> length s \<le> n)))"
proof -
  have "pre_gate_min_chars cfg \<le> n \<and> (choice (normalize d) = Summarize \<longrightarrow>
      (\<exists>s. summary_content (normalize d) = Some s \<and> s \<noteq> [] \<and> length s \<le> n))"
    if "pre_gate (normalize d) n cfg = None"
    using that normalize_consistent[of d]
    by (auto simp: pre_gate_def consistent_def split: if_splits)
  then show ?thesis using normalize_consistent normalize_id by blast
qed

theorem normalize_repairs_witness:
  "normalize \<lparr>choice = Summarize, ranges_to_keep = [], summary_content = Some (lit ''x'')\<rparr>
     = \<lparr>choice = Summarize, ranges_to_keep = [], summary_content = Some (lit ''x'')\<rparr>"
  using normalize_repairs[of "\<lparr>choice = Summarize, ranges_to_keep = [], summary_content = Some (lit ''x'')\<rparr>" 300 PolicyConfig_default]
  by (simp add: consistent_def lit_def)

end
