(* ===== verification/Controller.thy ===== *)
theory Controller
  imports Policy
begin

text \<open>
  The continuous controller, \<^verbatim>\<open>ccs-policy/src/controller.rs\<close>: the four-factor status and
  the decision over it, with the arms in the order of the source's match.
\<close>

datatype FreeBustTrigger = TCold | TModelSwitch | TNativeCompaction

datatype HoldReason = SubFloor | WarmDeep | AwaitCold | AwaitModelSwitch | RefHot

record PromptState =
  ps_segments :: "Segment list"
  window :: TokenCount
  max_output :: TokenCount
  free_bust :: "FreeBustTrigger option"

record Status =
  cold :: bool
  sub_floor :: bool
  warm_clears :: bool
  free_bust_imminent :: bool

datatype SquashDecision =
    Flush (fl_batch: SquashBatch) (fl_plan: BreakpointPlan) (fl_bust: Cost) (fl_saving: Cost)
  | Hold (hold_reason: HoldReason)
  | RideFreeBust (ride_batch: SquashBatch) (ride_trigger: FreeBustTrigger)

record Controller =
  c_econ :: ModelEconomics
  c_cache :: CacheState
  remaining_turns :: f64
  c_npv_floor :: f64
  policy :: PolicyConfig
  token_scale :: TokenScale

definition post_squash_below_floor :: "Controller \<Rightarrow> PromptState \<Rightarrow> SquashBatch \<Rightarrow> bool" where
  "post_squash_below_floor self prompt pending =
     (let prefix = foldl (\<lambda>acc s. i64_wrap (acc + i64_of_u32 (TokenScale_apply (token_scale self) (token_estimate s))))
                         0 (ps_segments prompt)
      in i64_wrap (prefix - batch_total_removed pending) < i64_of_u32 (min_cache_floor (c_econ self)))"

definition status_of :: "Controller \<Rightarrow> PromptState \<Rightarrow> SquashBatch \<Rightarrow> f64 \<Rightarrow> Status" where
  "status_of self prompt pending now =
     \<lparr>cold = is_cold (c_cache self) now,
      sub_floor = post_squash_below_floor self prompt pending,
      warm_clears = flt (c_npv_floor self)
        (npv (batch_view pending) (c_cache self) (c_econ self) (remaining_turns self) now),
      free_bust_imminent = (free_bust prompt \<noteq> None)\<rparr>"

definition decide :: "Controller \<Rightarrow> PromptState \<Rightarrow> SquashBatch \<Rightarrow> f64 \<Rightarrow> SquashDecision" where
  "decide self prompt pending now =
     (if candidates pending = [] then Hold WarmDeep
      else let status = status_of self prompt pending now in
        if sub_floor status then Hold SubFloor
        else if cold status then RideFreeBust pending TCold
        else case free_bust prompt of
            Some trigger \<Rightarrow>
              if free_bust_imminent status then RideFreeBust pending trigger else Hold WarmDeep
          | None \<Rightarrow>
              if warm_clears status
              then Flush pending
                (plan_breakpoints (ps_segments prompt) (min_cache_floor (c_econ self)) (policy self))
                (bust_cost (batch_view pending) (c_cache self) (c_econ self) now)
                (recurring_saving (batch_view pending) (c_econ self) (remaining_turns self))
              else Hold WarmDeep)"

section \<open>Sums that do not wrap\<close>

lemma foldl_i64_wrap:
  assumes "\<And>x. x \<in> set xs \<Longrightarrow> 0 \<le> f x \<and> f x < 2 ^ 32" "0 \<le> acc" "acc + 2 ^ 32 * int (length xs) < 2 ^ 63"
  shows "foldl (\<lambda>acc x. i64_wrap (acc + f x)) acc xs = acc + sum_list (map f xs)"
  using assms
proof (induction xs arbitrary: acc)
  case (Cons x xs)
  have x: "0 \<le> f x" "f x < 2 ^ 32" using Cons.prems(1) by simp_all
  have "acc + f x + 2 ^ 32 * int (length xs) < 2 ^ 63" using Cons.prems(3) x by (simp add: algebra_simps)
  moreover have w: "i64_wrap (acc + f x) = acc + f x"
    using x Cons.prems(2,3) by (intro i64_wrap_id) (simp_all add: algebra_simps)
  ultimately have "foldl (\<lambda>acc x. i64_wrap (acc + f x)) (acc + f x) xs = acc + f x + sum_list (map f xs)"
    using Cons.prems(1,2) x by (intro Cons.IH) simp_all
  then show ?case by (simp only: foldl_Cons w list.map sum_list.Cons add.assoc)
qed simp

lemma sum_list_bounded:
  "(\<And>x. x \<in> set xs \<Longrightarrow> 0 \<le> f x \<and> f x < (2::int) ^ 32) \<Longrightarrow>
   0 \<le> sum_list (map f xs) \<and> sum_list (map f xs) \<le> 2 ^ 32 * int (length xs)"
proof (induction xs)
  case (Cons x xs)
  have "0 \<le> f x \<and> f x < 2 ^ 32" using Cons.prems by simp
  then show ?case using Cons by (force simp: algebra_simps)
qed simp

definition scaled_prompt_tokens :: "Controller \<Rightarrow> PromptState \<Rightarrow> int" where
  "scaled_prompt_tokens self prompt =
     sum_list (map (\<lambda>s. uint (TokenScale_apply (token_scale self) (token_estimate s))) (ps_segments prompt))"

lemma post_squash_below_floor_eq:
  assumes "length (ps_segments prompt) < 2 ^ 29" "\<bar>batch_total_removed pending\<bar> < 2 ^ 62"
  shows "post_squash_below_floor self prompt pending =
    (scaled_prompt_tokens self prompt - batch_total_removed pending < uint (min_cache_floor (c_econ self)))"
proof -
  let ?f = "\<lambda>s. i64_of_u32 (TokenScale_apply (token_scale self) (token_estimate s))"
  have b: "0 \<le> ?f s \<and> ?f s < 2 ^ 32" for s using i64_of_u32_bounds by blast
  have s: "foldl (\<lambda>acc s. i64_wrap (acc + ?f s)) 0 (ps_segments prompt) = sum_list (map ?f (ps_segments prompt))"
    using assms(1) by (subst foldl_i64_wrap) (use b in auto)
  have "0 \<le> sum_list (map ?f (ps_segments prompt)) \<and>
      sum_list (map ?f (ps_segments prompt)) \<le> 2 ^ 32 * int (length (ps_segments prompt))"
    using b by (intro sum_list_bounded) blast
  then have "i64_wrap (sum_list (map ?f (ps_segments prompt)) - batch_total_removed pending)
      = sum_list (map ?f (ps_segments prompt)) - batch_total_removed pending"
    using assms by (intro i64_wrap_id) auto
  then show ?thesis
    unfolding post_squash_below_floor_def Let_def s by (simp add: scaled_prompt_tokens_def i64_of_u32_def)
qed

section \<open>Properties\<close>

text \<open>C12: what each prescription of the controller means.  A flush happens only for a non-empty
  batch on a warm cache with no free bust to ride, when its NPV strictly clears the floor and the
  prompt left after the squash stays at or above the model's cacheable minimum, and it carries the
  batch, at most \<open>cache_hint_cap\<close> breakpoints and the priced costs; a free bust is ridden only when
  the cache is cold or a trigger is reported; and a hold means the batch is empty, or would sink the
  prompt below the minimum, or neither a free bust nor a clearing NPV is at hand.\<close>

theorem decide_prescriptions:
  fixes self :: Controller and prompt :: PromptState and pending :: SquashBatch and now :: f64
  assumes "length (ps_segments prompt) < 2 ^ 29" "\<bar>batch_total_removed pending\<bar> < 2 ^ 62"
  defines "left \<equiv> scaled_prompt_tokens self prompt - batch_total_removed pending"
    and "value_now \<equiv> npv (batch_view pending) (c_cache self) (c_econ self) (remaining_turns self) now"
  shows "case decide self prompt pending now of
      Flush batch plan bust saving \<Rightarrow> batch = pending \<and> candidates pending \<noteq> [] \<and>
        \<not> is_cold (c_cache self) now \<and> free_bust prompt = None \<and> flt (c_npv_floor self) value_now \<and>
        uint (min_cache_floor (c_econ self)) \<le> left \<and> length (positions plan) \<le> cache_hint_cap (policy self) \<and>
        bust = bust_cost (batch_view pending) (c_cache self) (c_econ self) now
    | RideFreeBust batch trigger \<Rightarrow> batch = pending \<and> candidates pending \<noteq> [] \<and>
        uint (min_cache_floor (c_econ self)) \<le> left \<and>
        (if is_cold (c_cache self) now then trigger = TCold else free_bust prompt = Some trigger)
    | Hold reason \<Rightarrow> (reason = SubFloor \<and> candidates pending \<noteq> [] \<and> left < uint (min_cache_floor (c_econ self))) \<or>
        (reason = WarmDeep \<and> (candidates pending = [] \<or>
          (\<not> is_cold (c_cache self) now \<and> free_bust prompt = None \<and> \<not> flt (c_npv_floor self) value_now)))"
proof -
  have "length (positions (plan_breakpoints segs mf cfg)) \<le> cache_hint_cap cfg" for segs mf cfg
    by (simp add: plan_breakpoints_def cap_cache_hints_to_def Let_def)
  then show ?thesis
    using post_squash_below_floor_eq[OF assms(1,2), of self]
    by (auto simp: decide_def status_of_def Let_def left_def value_now_def split: option.splits)
qed

definition demo_controller :: Controller where
  "demo_controller = \<lparr>c_econ = \<lparr>base_input = Fin 1, write_mult = Fin 2, read_mult = Fin 1, min_cache_floor = 1024\<rparr>,
     c_cache = demo_cache, remaining_turns = Fin 10, c_npv_floor = Fin 0,
     policy = PolicyConfig_default, token_scale = TokenScale_default\<rparr>"

definition demo_prompt :: PromptState where
  "demo_prompt = \<lparr>ps_segments = [demo_segment 0 AssistantTurn, demo_segment 1 AssistantTurn],
     window = 200000, max_output = 8000, free_bust = Some TModelSwitch\<rparr>"

definition demo_candidate :: SquashCandidate where
  "demo_candidate = \<lparr>earliest_offset = 0, suffix_tokens = 0, net_removed = 500, quality_gain = Fin 0,
     ref_id = RefId [], strategy = SKeep\<rparr>"

lemma demo_decide: "decide demo_controller demo_prompt (of_single demo_candidate) (Fin 0)
  = RideFreeBust (of_single demo_candidate) TModelSwitch"
  by (simp add: decide_def status_of_def post_squash_below_floor_def demo_controller_def demo_prompt_def
      demo_candidate_def of_single_def batch_total_removed_def demo_segment_def TokenScale_apply_default
      i64_of_u32_def is_cold_def idle_seconds_def demo_cache_def DEFAULT_TTL_FORCED_S_def Let_def)

theorem decide_prescriptions_witness:
  "decide demo_controller demo_prompt (of_single demo_candidate) (Fin 0)
     = RideFreeBust (of_single demo_candidate) TModelSwitch \<and>
   1024 \<le> scaled_prompt_tokens demo_controller demo_prompt - batch_total_removed (of_single demo_candidate)"
proof -
  have "length (ps_segments demo_prompt) < 2 ^ 29" "\<bar>batch_total_removed (of_single demo_candidate)\<bar> < 2 ^ 62"
    by (simp_all add: demo_prompt_def of_single_def demo_candidate_def batch_total_removed_def)
  moreover have "uint (min_cache_floor (c_econ demo_controller)) = 1024" by (simp add: demo_controller_def)
  ultimately show ?thesis
    using decide_prescriptions[of demo_prompt "of_single demo_candidate" demo_controller "Fin 0"]
    by (simp add: demo_decide)
qed

end
