(* ===== verification/Pipeline.thy ===== *)
theory Pipeline
  imports Controller
begin

text \<open>
  The pass pipeline: the plan ledger, proposals and staged decisions of
  \<^verbatim>\<open>pipeline/pass.rs\<close>, the score table of \<^verbatim>\<open>pipeline/scorer.rs\<close> and the runner
  with its checkpoints and bounded reverts of \<^verbatim>\<open>pipeline/mod.rs\<close>.

  A pass is the record of what its trait methods return; \<open>pass_apply\<close> returns \<open>None\<close> where the
  source panics (an out-of-range slot of the score table), so that "no panic" is a statement about
  the model.  The contracts between the passes and what runs them are locales:
  \<open>proposal_ledger\<close> is what the passes rely on of the ledger's insert and lookup,
  \<open>pass_invariant\<close> what the runner relies on of the passes.
\<close>

section \<open>The ledger\<close>

type_synonym PassId = string

datatype Phase = OnPath | OffPath

datatype CheckpointId = CheckpointId string

datatype PassControl = Continue | RevertTo CheckpointId

record Proposal =
  pr_seg_index :: nat
  pr_strategy :: Strategy
  pr_ref_id :: "RefId option"
  pr_needs_ref :: "nat list option"
  pr_net_removed :: int
  pr_quality_gain :: f64
  pr_by :: PassId

record Provenance =
  pv_seg_index :: nat
  pv_by :: PassId
  pv_note :: string

record SegmentScore =
  sc_salience :: f64
  sc_recency :: f64
  sc_freshness :: f64
  sc_economics :: f64
  sc_size :: f64
  sc_content_type :: f64
  sc_access_count :: f64

definition SegmentScore_default :: SegmentScore where
  "SegmentScore_default = \<lparr>sc_salience = Fin 0, sc_recency = Fin 0, sc_freshness = Fin 0,
     sc_economics = Fin 0, sc_size = Fin 0, sc_content_type = Fin 0, sc_access_count = Fin 0\<rparr>"

datatype ScoreTable = ScoreTable (table_scores: "SegmentScore list")

definition ScoreTable_sized :: "nat \<Rightarrow> ScoreTable" where
  "ScoreTable_sized count = ScoreTable (replicate count SegmentScore_default)"

definition ScoreTable_get :: "ScoreTable \<Rightarrow> nat \<Rightarrow> SegmentScore option" where
  "ScoreTable_get self i = nth_opt (table_scores self) i"

definition ScoreTable_set :: "ScoreTable \<Rightarrow> nat \<Rightarrow> SegmentScore \<Rightarrow> ScoreTable option" where
  "ScoreTable_set self i score =
     (if i < length (table_scores self) then Some (ScoreTable ((table_scores self)[i := score])) else None)"

record PlanLedger =
  scores :: ScoreTable
  proposals :: "Proposal list"
  provenance :: "Provenance list"

definition PlanLedger_sized :: "nat \<Rightarrow> PlanLedger" where
  "PlanLedger_sized segment_count =
     \<lparr>scores = ScoreTable_sized segment_count, proposals = [], provenance = []\<rparr>"

definition proposal_for :: "PlanLedger \<Rightarrow> nat \<Rightarrow> Proposal option" where
  "proposal_for self i = find (\<lambda>p. pr_seg_index p = i) (proposals self)"

fun upsert_list :: "Proposal \<Rightarrow> Proposal list \<Rightarrow> Proposal list" where
  "upsert_list p [] = [p]"
| "upsert_list p (q # qs) = (if pr_seg_index q = pr_seg_index p then p # qs else q # upsert_list p qs)"

definition upsert_proposal :: "Proposal \<Rightarrow> PlanLedger \<Rightarrow> PlanLedger" where
  "upsert_proposal p self = self\<lparr>proposals := upsert_list p (proposals self)\<rparr>"

definition record_note :: "Provenance \<Rightarrow> PlanLedger \<Rightarrow> PlanLedger" where
  "record_note pv self = self\<lparr>provenance := provenance self @ [pv]\<rparr>"

definition retain_proposals :: "(Proposal \<Rightarrow> bool) \<Rightarrow> PlanLedger \<Rightarrow> PlanLedger" where
  "retain_proposals P self = self\<lparr>proposals := filter P (proposals self)\<rparr>"

record StagedSegment =
  st_seg_index :: nat
  st_decision :: ContentDecision
  st_candidate :: SquashCandidate
  st_npv_floor :: f64

record StagedDecisions =
  present :: bool
  staged_segments :: "StagedSegment list"
  hot_refs :: "RefId list"

definition staged_segment :: "StagedDecisions \<Rightarrow> nat \<Rightarrow> StagedSegment option" where
  "staged_segment self i = find (\<lambda>s. st_seg_index s = i) (staged_segments self)"

definition is_hot :: "StagedDecisions \<Rightarrow> RefId \<Rightarrow> bool" where
  "is_hot self r = (r \<in> set (hot_refs self))"

record PassCtx =
  cx_body :: WireBody
  cx_segments :: "Segment list"
  cx_working :: WorkingState
  cx_econ :: ModelEconomics
  cx_cache :: CacheState
  cx_knobs :: PolicyConfig
  cx_staged :: StagedDecisions
  cx_remaining_turns :: f64
  cx_now :: f64

record Pass =
  pass_id :: PassId
  pass_phase :: Phase
  pass_apply :: "PassCtx \<Rightarrow> PlanLedger \<Rightarrow> (PlanLedger \<times> PassControl) option"

section \<open>Pipelines and the runner\<close>

datatype Stage = StagePass Pass | StageCheckpoint CheckpointId

datatype Pipeline = Pipeline (stages: "Stage list")

definition Pipeline_of :: "Stage list \<Rightarrow> Pipeline" where
  "Pipeline_of parts = Pipeline parts"

definition Pipeline_extend :: "Pipeline \<Rightarrow> Pipeline \<Rightarrow> Pipeline" where
  "Pipeline_extend self other = Pipeline (stages self @ stages other)"

definition on_path :: "Pipeline \<Rightarrow> Pipeline" where
  "on_path self = Pipeline (filter (\<lambda>s. case s of StagePass p \<Rightarrow> pass_phase p = OnPath
     | StageCheckpoint _ \<Rightarrow> True) (stages self))"

definition DEFAULT_MAX_REVERTS :: nat where "DEFAULT_MAX_REVERTS = 2"

fun position :: "('a \<Rightarrow> bool) \<Rightarrow> 'a list \<Rightarrow> nat option" where
  "position P [] = None"
| "position P (x # xs) = (if P x then Some 0 else map_option Suc (position P xs))"

definition checkpoint_position :: "Stage list \<Rightarrow> CheckpointId \<Rightarrow> nat option" where
  "checkpoint_position ss cid =
     position (\<lambda>s. case s of StageCheckpoint c \<Rightarrow> c = cid | StagePass _ \<Rightarrow> False) ss"

function run_loop :: "nat \<Rightarrow> Stage list \<Rightarrow> PassCtx \<Rightarrow> nat \<Rightarrow> nat \<Rightarrow> PlanLedger \<Rightarrow> PlanLedger option" where
  "run_loop max_reverts ss ctx reverts i ledger =
     (if \<not> i < length ss then Some ledger
      else case ss ! i of
          StageCheckpoint _ \<Rightarrow> run_loop max_reverts ss ctx reverts (i + 1) ledger
        | StagePass pass \<Rightarrow> (case pass_apply pass ctx ledger of
              None \<Rightarrow> None
            | Some (ledger', Continue) \<Rightarrow> run_loop max_reverts ss ctx reverts (i + 1) ledger'
            | Some (ledger', RevertTo cid) \<Rightarrow>
                if reverts < max_reverts
                then run_loop max_reverts ss ctx (reverts + 1)
                       (case checkpoint_position ss cid of None \<Rightarrow> i + 1 | Some pos \<Rightarrow> pos + 1) ledger'
                else run_loop max_reverts ss ctx reverts (i + 1) ledger'))"
  by pat_completeness auto

termination
  by (relation "measures [\<lambda>(mr, ss, ctx, rv, i, l). mr - rv, \<lambda>(mr, ss, ctx, rv, i, l). length ss - i]") auto

declare run_loop.simps [simp del]

datatype Runner = Runner (max_reverts: nat)

definition Runner_default :: Runner where
  "Runner_default = Runner DEFAULT_MAX_REVERTS"

definition run :: "Runner \<Rightarrow> Pipeline \<Rightarrow> PassCtx \<Rightarrow> PlanLedger \<Rightarrow> PlanLedger option" where
  "run self pipeline ctx ledger = run_loop (max_reverts self) (stages pipeline) ctx 0 0 ledger"

section \<open>The ledger interface\<close>

text \<open>What a pass relies on: lookup after insert, and that the one-proposal-per-segment invariant is
  kept by inserting and by retaining.\<close>

locale proposal_ledger =
  fixes upsert :: "Proposal \<Rightarrow> 'l \<Rightarrow> 'l"
    and lookup :: "'l \<Rightarrow> nat \<Rightarrow> Proposal option"
    and retain :: "(Proposal \<Rightarrow> bool) \<Rightarrow> 'l \<Rightarrow> 'l"
    and inv :: "'l \<Rightarrow> bool"
  assumes lookup_upsert: "inv l \<Longrightarrow> lookup (upsert p l) i = (if i = pr_seg_index p then Some p else lookup l i)"
    and inv_upsert: "inv l \<Longrightarrow> inv (upsert p l)"
    and inv_retain: "inv l \<Longrightarrow> inv (retain P l)"
    and lookup_retain: "inv l \<Longrightarrow> lookup (retain P l) i =
          (case lookup l i of None \<Rightarrow> None | Some p \<Rightarrow> if P p then Some p else None)"
    and lookup_index: "lookup l i = Some p \<Longrightarrow> pr_seg_index p = i"
begin

lemma inv_upserts: "inv l \<Longrightarrow> inv (fold upsert ps l)"
  by (induction ps arbitrary: l) (simp_all add: inv_upsert)

text \<open>After a run of inserts, the last proposal for a segment is the one found.\<close>

lemma lookup_upserts:
  "inv l \<Longrightarrow> lookup (fold upsert ps l) i =
     (case find (\<lambda>p. pr_seg_index p = i) (rev ps) of Some p \<Rightarrow> Some p | None \<Rightarrow> lookup l i)"
proof (induction ps arbitrary: l)
  case (Cons p ps)
  have "find (\<lambda>p. pr_seg_index p = i) (xs @ [p]) =
      (case find (\<lambda>p. pr_seg_index p = i) xs of Some q \<Rightarrow> Some q
       | None \<Rightarrow> if pr_seg_index p = i then Some p else None)" for xs
    by (induction xs) simp_all
  with Cons show ?case by (auto simp: inv_upsert lookup_upsert split: option.splits)
qed simp

end

definition ledger_ok :: "PlanLedger \<Rightarrow> bool" where
  "ledger_ok l = distinct (map pr_seg_index (proposals l))"

lemma set_upsert_index: "pr_seg_index ` set (upsert_list p qs) = insert (pr_seg_index p) (pr_seg_index ` set qs)"
  by (induction qs) auto

lemma distinct_upsert: "distinct (map pr_seg_index qs) \<Longrightarrow> distinct (map pr_seg_index (upsert_list p qs))"
  by (induction qs) (auto simp: set_upsert_index)

lemma find_upsert:
  "find (\<lambda>q. pr_seg_index q = i) (upsert_list p qs) =
     (if i = pr_seg_index p then Some p else find (\<lambda>q. pr_seg_index q = i) qs)"
  by (induction qs) auto

lemma find_filter:
  "distinct (map pr_seg_index qs) \<Longrightarrow> find (\<lambda>q. pr_seg_index q = i) (filter P qs) =
     (case find (\<lambda>q. pr_seg_index q = i) qs of None \<Rightarrow> None | Some p \<Rightarrow> if P p then Some p else None)"
  by (induction qs) (auto simp: find_None_iff split: option.splits dest!: find_SomeD)

interpretation ledger: proposal_ledger upsert_proposal proposal_for retain_proposals ledger_ok
proof
  show "proposal_for (upsert_proposal p l) i = (if i = pr_seg_index p then Some p else proposal_for l i)" for p l i
    by (simp add: proposal_for_def upsert_proposal_def find_upsert)
  show "ledger_ok l \<Longrightarrow> ledger_ok (upsert_proposal p l)" for p l
    by (simp add: ledger_ok_def upsert_proposal_def distinct_upsert)
  show "ledger_ok l \<Longrightarrow> ledger_ok (retain_proposals P l)" for P l
    by (simp add: ledger_ok_def retain_proposals_def distinct_map_filter)
  show "ledger_ok l \<Longrightarrow> proposal_for (retain_proposals P l) i =
      (case proposal_for l i of None \<Rightarrow> None | Some p \<Rightarrow> if P p then Some p else None)" for P l i
    by (simp add: ledger_ok_def proposal_for_def retain_proposals_def find_filter)
  show "proposal_for l i = Some p \<Longrightarrow> pr_seg_index p = i" for l i p
    by (auto simp: proposal_for_def find_Some_iff)
qed

section \<open>Running\<close>

definition stage_passes :: "Stage list \<Rightarrow> Pass list" where
  "stage_passes ss = filter_map (\<lambda>s. case s of StagePass p \<Rightarrow> Some p | StageCheckpoint _ \<Rightarrow> None) ss"

fun apply_all :: "PassCtx \<Rightarrow> Pass list \<Rightarrow> PlanLedger \<Rightarrow> PlanLedger option" where
  "apply_all ctx [] l = Some l"
| "apply_all ctx (p # ps) l = (case pass_apply p ctx l of None \<Rightarrow> None | Some (l', _) \<Rightarrow> apply_all ctx ps l')"

lemma stage_passes_nth: "i < length ss \<Longrightarrow> ss ! i = StagePass p \<Longrightarrow> p \<in> set (stage_passes ss)"
  by (force simp: stage_passes_def set_filter_map in_set_conv_nth)

lemma position_bound: "position P xs = Some i \<Longrightarrow> i < length xs \<and> P (xs ! i)"
  by (induction xs arbitrary: i) (auto split: if_splits)

text \<open>Every run is a sequence of applications of the pipeline's passes, one more than a traversal of
  the pipeline per honoured revert at most.\<close>

lemma run_loop_trace:
  assumes "reverts \<le> mr"
  shows "\<exists>ps. set ps \<subseteq> set (stage_passes ss) \<and>
     length ps \<le> (mr - reverts) * length ss + (length ss - i) \<and>
     run_loop mr ss ctx reverts i ledger = apply_all ctx ps ledger"
  using assms
proof (induction mr ss ctx reverts i ledger rule: run_loop.induct)
  case (1 mr ss ctx reverts i ledger)
  note IH = "1.IH" and le = "1.prems"
  show ?case
  proof (cases "i < length ss")
    case False
    then show ?thesis by (intro exI[of _ "[]"]) (simp add: run_loop.simps)
  next
    case i: True
    show ?thesis
    proof (cases "ss ! i")
      case (StageCheckpoint c)
      then obtain ps where "set ps \<subseteq> set (stage_passes ss)"
        "length ps \<le> (mr - reverts) * length ss + (length ss - (i + 1))"
        "run_loop mr ss ctx reverts (i + 1) ledger = apply_all ctx ps ledger"
        using IH(4) i le by blast
      then show ?thesis using i StageCheckpoint by (intro exI[of _ ps]) (simp add: run_loop.simps[of mr ss ctx reverts i])
    next
      case (StagePass pass)
      note mem = stage_passes_nth[OF i StagePass]
      have step: "run_loop mr ss ctx reverts i ledger = (case pass_apply pass ctx ledger of
              None \<Rightarrow> None
            | Some (l', Continue) \<Rightarrow> run_loop mr ss ctx reverts (i + 1) l'
            | Some (l', RevertTo cid) \<Rightarrow>
                if reverts < mr
                then run_loop mr ss ctx (reverts + 1)
                       (case checkpoint_position ss cid of None \<Rightarrow> i + 1 | Some pos \<Rightarrow> pos + 1) l'
                else run_loop mr ss ctx reverts (i + 1) l')"
        using i StagePass by (subst run_loop.simps) simp
      show ?thesis
      proof (cases "pass_apply pass ctx ledger")
        case None
        then show ?thesis using step mem i by (intro exI[of _ "[pass]"]) auto
      next
        case (Some r)
        obtain l' c where r: "r = (l', c)" by force
        define i' rv' where "i' = (case c of RevertTo cid \<Rightarrow> if reverts < mr then
               (case checkpoint_position ss cid of None \<Rightarrow> i + 1 | Some pos \<Rightarrow> pos + 1) else i + 1 | Continue \<Rightarrow> i + 1)"
          and "rv' = (case c of RevertTo cid \<Rightarrow> if reverts < mr then reverts + 1 else reverts | Continue \<Rightarrow> reverts)"
        have run: "run_loop mr ss ctx reverts i ledger = run_loop mr ss ctx rv' i' l'"
          using step Some r by (simp add: i'_def rv'_def split: PassControl.splits)
        have "rv' \<le> mr" using le by (simp add: rv'_def split: PassControl.splits)
        then obtain ps where ps: "set ps \<subseteq> set (stage_passes ss)"
          "length ps \<le> (mr - rv') * length ss + (length ss - i')"
          "run_loop mr ss ctx rv' i' l' = apply_all ctx ps l'"
        proof (cases c)
          case Continue
          then show ?thesis using IH(1)[of pass "(l', Continue)" l' Continue] i StagePass Some r le that
            by (auto simp: i'_def rv'_def)
        next
          case (RevertTo cid)
          then show ?thesis
            using IH(2)[of pass "(l', RevertTo cid)" l' "RevertTo cid" cid]
              IH(3)[of pass "(l', RevertTo cid)" l' "RevertTo cid" cid] i StagePass Some r le that
            by (cases "reverts < mr") (auto simp: i'_def rv'_def)
        qed
        have "Suc ((mr - rv') * length ss + (length ss - i')) \<le> (mr - reverts) * length ss + (length ss - i)"
        proof (cases "rv' = reverts")
          case True
          then have "i' = i + 1" by (auto simp: i'_def rv'_def split: PassControl.splits if_splits)
          then show ?thesis using True i by simp
        next
          case False
          then have rv: "rv' = reverts + 1" "reverts < mr" by (auto simp: rv'_def split: PassControl.splits if_splits)
          have "1 \<le> i'" by (auto simp: i'_def split: PassControl.splits option.splits)
          then have "Suc (length ss - i') \<le> length ss" using i by simp
          moreover have "(mr - reverts) * length ss = (mr - rv') * length ss + length ss"
            using rv by (metis Suc_diff_Suc Suc_eq_plus1 mult_Suc add.commute)
          ultimately show ?thesis by simp
        qed
        then show ?thesis using ps run Some r mem by (intro exI[of _ "pass # ps"]) simp
      qed
    qed
  qed
qed

lemma run_trace:
  "\<exists>ps. set ps \<subseteq> set (stage_passes (stages pl)) \<and> length ps \<le> (max_reverts r + 1) * length (stages pl) \<and>
     run r pl ctx l = apply_all ctx ps l"
  using run_loop_trace[of 0 "max_reverts r" "stages pl" 0 ctx l] by (simp add: run_def add.commute)

text \<open>Passes that always continue are applied once each, in order.\<close>

lemma run_loop_continue:
  assumes "\<And>p l l' c. p \<in> set (stage_passes ss) \<Longrightarrow> pass_apply p ctx l = Some (l', c) \<Longrightarrow> c = Continue"
  shows "run_loop mr ss ctx rv i l = apply_all ctx (stage_passes (drop i ss)) l"
proof (induction "length ss - i" arbitrary: i l)
  case 0
  then show ?case by (simp add: run_loop.simps stage_passes_def)
next
  case (Suc n)
  then have i: "i < length ss" by simp
  have d: "drop i ss = ss ! i # drop (Suc i) ss" using i by (simp add: Cons_nth_drop_Suc)
  show ?case
  proof (cases "ss ! i")
    case (StageCheckpoint c)
    then show ?thesis using Suc i d by (subst run_loop.simps) (simp add: stage_passes_def)
  next
    case (StagePass p)
    then have "c = Continue" if "pass_apply p ctx l = Some (l', c)" for l' c
      using assms[OF stage_passes_nth[OF i]] that by blast
    then show ?thesis using Suc i d StagePass
      by (subst run_loop.simps) (auto simp: stage_passes_def split: option.splits PassControl.splits)
  qed
qed

lemma run_continue:
  assumes "\<And>p l l' c. p \<in> set (stage_passes (stages pl)) \<Longrightarrow> pass_apply p ctx l = Some (l', c) \<Longrightarrow> c = Continue"
  shows "run r pl ctx l = apply_all ctx (stage_passes (stages pl)) l"
  using run_loop_continue[OF assms, where i = 0] by (simp add: run_def)

section \<open>The pass contract\<close>

text \<open>What the runner relies on: the passes of interest do not panic on a ledger that satisfies the
  invariant, and keep it.  Then every run, reverts included, ends with a ledger that satisfies it.\<close>

locale pass_invariant =
  fixes ok :: "Pass \<Rightarrow> bool" and inv :: "PassCtx \<Rightarrow> PlanLedger \<Rightarrow> bool"
  assumes keeps: "ok p \<Longrightarrow> inv ctx l \<Longrightarrow> \<exists>l' c. pass_apply p ctx l = Some (l', c) \<and> inv ctx l'"
begin

lemma apply_all_keeps:
  "\<forall>p \<in> set ps. ok p \<Longrightarrow> inv ctx l \<Longrightarrow> \<exists>l'. apply_all ctx ps l = Some l' \<and> inv ctx l'"
proof (induction ps arbitrary: l)
  case (Cons p ps)
  then show ?case using keeps[of p ctx l] by fastforce
qed simp

lemma run_keeps:
  assumes "\<forall>p \<in> set (stage_passes (stages pl)). ok p" "inv ctx l"
  shows "\<exists>l'. run r pl ctx l = Some l' \<and> inv ctx l'"
proof -
  obtain ps where "set ps \<subseteq> set (stage_passes (stages pl))" "run r pl ctx l = apply_all ctx ps l"
    using run_trace by blast
  then show ?thesis using apply_all_keeps[of ps ctx l] assms by auto
qed

end

section \<open>Properties\<close>

text \<open>C18: the runner always stops, and cheaply: whatever the passes answer, a run applies passes of
  the pipeline only, at most one traversal more than the number of reverts it may honour; and when
  every pass continues, it applies each exactly once, in the declared order.\<close>

theorem runner_terminates_within_revert_budget:
  "(\<exists>ps. set ps \<subseteq> set (stage_passes (stages pl)) \<and>
      length ps \<le> (max_reverts r + 1) * length (stages pl) \<and> run r pl ctx l = apply_all ctx ps l) \<and>
   ((\<forall>p \<in> set (stage_passes (stages pl)). \<forall>l l' c. pass_apply p ctx l = Some (l', c) \<longrightarrow> c = Continue) \<longrightarrow>
      run r pl ctx l = apply_all ctx (stage_passes (stages pl)) l)"
  using run_trace run_continue by blast

definition revert_pass :: Pass where
  "revert_pass = \<lparr>pass_id = ''revert'', pass_phase = OnPath,
     pass_apply = (\<lambda>ctx l. Some (record_note \<lparr>pv_seg_index = 0, pv_by = ''revert'', pv_note = []\<rparr> l,
       RevertTo (CheckpointId ''top'')))\<rparr>"

definition note_pass :: Pass where
  "note_pass = \<lparr>pass_id = ''note'', pass_phase = OnPath,
     pass_apply = (\<lambda>ctx l. Some (record_note \<lparr>pv_seg_index = 0, pv_by = ''note'', pv_note = []\<rparr> l, Continue))\<rparr>"

text \<open>A pass that always asks for a revert runs within the default budget; one that continues runs
  exactly once.\<close>

theorem runner_terminates_within_revert_budget_witness:
  "\<forall>ctx l. (\<exists>ps. set ps \<subseteq> {revert_pass} \<and> length ps \<le> 6 \<and>
     run Runner_default (Pipeline [StageCheckpoint (CheckpointId ''top''), StagePass revert_pass]) ctx l
       = apply_all ctx ps l) \<and>
   run Runner_default (Pipeline [StagePass note_pass]) ctx l = apply_all ctx [note_pass] l"
proof (intro allI conjI)
  fix ctx l
  show "\<exists>ps. set ps \<subseteq> {revert_pass} \<and> length ps \<le> 6 \<and>
     run Runner_default (Pipeline [StageCheckpoint (CheckpointId ''top''), StagePass revert_pass]) ctx l
       = apply_all ctx ps l"
    using runner_terminates_within_revert_budget[of
        "Pipeline [StageCheckpoint (CheckpointId ''top''), StagePass revert_pass]" Runner_default ctx l]
    by (auto simp: Runner_default_def DEFAULT_MAX_REVERTS_def stage_passes_def numeral_eq_Suc)
  show "run Runner_default (Pipeline [StagePass note_pass]) ctx l = apply_all ctx [note_pass] l"
    using runner_terminates_within_revert_budget[of "Pipeline [StagePass note_pass]" Runner_default ctx l]
    by (auto simp: stage_passes_def note_pass_def)
qed

text \<open>The ledger is a map: inserting a proposal makes it the one found for its segment and
  leaves every other segment's alone; at most one proposal per segment is ever held; and after a run
  of inserts the last proposal of a segment wins.\<close>

theorem ledger_last_proposal_wins:
  assumes "ledger_ok l"
  shows "ledger_ok (fold upsert_proposal ps l) \<and>
    proposal_for (fold upsert_proposal ps l) i =
      (case find (\<lambda>p. pr_seg_index p = i) (rev ps) of Some p \<Rightarrow> Some p | None \<Rightarrow> proposal_for l i) \<and>
    length (filter (\<lambda>p. pr_seg_index p = i) (proposals (fold upsert_proposal ps l))) \<le> 1"
proof -
  have "length (filter (\<lambda>p. pr_seg_index p = i) qs) \<le> 1" if "distinct (map pr_seg_index qs)" for qs :: "Proposal list"
    using that by (induction qs) (auto simp: filter_empty_conv image_iff)
  then show ?thesis
    using ledger.inv_upserts[OF assms, of ps] ledger.lookup_upserts[OF assms, of ps i] by (simp add: ledger_ok_def)
qed

definition demo_proposal :: "nat \<Rightarrow> Strategy \<Rightarrow> Proposal" where
  "demo_proposal i st = \<lparr>pr_seg_index = i, pr_strategy = st, pr_ref_id = None, pr_needs_ref = None,
     pr_net_removed = 0, pr_quality_gain = Fin 0, pr_by = ''demo''\<rparr>"

theorem ledger_last_proposal_wins_witness:
  "proposal_for (fold upsert_proposal [demo_proposal 1 SDrop, demo_proposal 1 SKeep] (PlanLedger_sized 3)) 1
     = Some (demo_proposal 1 SKeep)"
  using ledger_last_proposal_wins[of "PlanLedger_sized 3" "[demo_proposal 1 SDrop, demo_proposal 1 SKeep]" 1]
  by (simp add: ledger_ok_def PlanLedger_sized_def demo_proposal_def)

end
