(* ===== verification/Scorer.thy ===== *)
theory Scorer
  imports Pipeline
begin

text \<open>
  The multi-signal segment scorer, \<^verbatim>\<open>pipeline/scorer.rs\<close>.  The exponential of
  \<^verbatim>\<open>libm\<close> is the argument \<open>exp\<close> of the two signals that use it; no property below assumes
  anything about it.
\<close>

definition veto :: "bool \<Rightarrow> f64" where
  "veto flag = (if flag then fl 1 else fl 0)"

definition clamp_unit :: "f64 \<Rightarrow> f64" where
  "clamp_unit x = fclamp x (fl 0) (fl 1)"

definition freshness_signal :: "(f64 \<Rightarrow> f64) \<Rightarrow> Segment \<Rightarrow> Segment list \<Rightarrow> ScoreWeights \<Rightarrow> f64" where
  "freshness_signal expf seg segments w =
     (let newest = fold max (map generation segments) 0;
          gap = f64_of_nat (newest - generation seg)
      in clamp_unit (fsub (fl 1) (expf (fdiv (fneg gap) (tau w)))))"

definition logistic :: "(f64 \<Rightarrow> f64) \<Rightarrow> f64 \<Rightarrow> f64" where
  "logistic expf x = fdiv (fl 1) (fadd (fl 1) (expf (fneg x)))"

definition F64_MIN_POSITIVE :: f64 where
  "F64_MIN_POSITIVE = Fin (pow2 (- 1022))"

definition economics_signal :: "(f64 \<Rightarrow> f64) \<Rightarrow> Segment \<Rightarrow> CacheState \<Rightarrow> ModelEconomics \<Rightarrow> f64 \<Rightarrow> f64" where
  "economics_signal expf seg cache econ now =
     (if pinned seg then fl 0
      else let removed = f64_of_u32 (token_estimate seg);
               saving = fmul (fmul removed (base_input econ)) (read_mult econ);
               bust = fmul (fmul (fmul removed (base_input econ)) (fsub (write_mult econ) (read_mult econ)))
                           (p_alive cache now)
           in logistic expf (fdiv (fsub saving bust) (fmax saving F64_MIN_POSITIVE)))"

definition size_signal :: "Segment \<Rightarrow> ScoreWeights \<Rightarrow> f64" where
  "size_signal seg w = clamp_unit (fdiv (f64_of_u32 (token_estimate seg)) (size_scale w))"

definition content_type_signal :: "Segment \<Rightarrow> f64" where
  "content_type_signal seg = (case kind seg of
      ToolPair \<Rightarrow> fl 1
    | AssistantTurn \<Rightarrow> fl (6 / 10)
    | System \<Rightarrow> fl (3 / 10)
    | Tools \<Rightarrow> fl (3 / 10)
    | UserTurn \<Rightarrow> fl (1 / 10))"

definition score_segment ::
  "(f64 \<Rightarrow> f64) \<Rightarrow> Segment \<Rightarrow> Segment list \<Rightarrow> WorkingState \<Rightarrow> CacheState \<Rightarrow> ModelEconomics \<Rightarrow> f64
     \<Rightarrow> PolicyConfig \<Rightarrow> SegmentScore" where
  "score_segment expf seg segments working cache econ now knobs =
     \<lparr>sc_salience = veto (is_pinned seg working),
      sc_recency = veto (is_recency_protected seg segments knobs),
      sc_freshness = freshness_signal expf seg segments (weights knobs),
      sc_economics = economics_signal expf seg cache econ now,
      sc_size = size_signal seg (weights knobs),
      sc_content_type = content_type_signal seg,
      sc_access_count = fl 0\<rparr>"

definition score_value :: "SegmentScore \<Rightarrow> ScoreWeights \<Rightarrow> f64" where
  "score_value self w =
     (if fle (fl 1) (sc_salience self) \<or> fle (fl 1) (sc_recency self) then NInf
      else fmax (fsub (fadd (fadd (fadd
                   (fmul (w_freshness w) (clamp_unit (sc_freshness self)))
                   (fmul (w_economics w) (clamp_unit (sc_economics self))))
                   (fmul (w_size w) (clamp_unit (sc_size self))))
                   (fmul (w_content_type w) (clamp_unit (sc_content_type self))))
                   (fmul (w_access_count w) (clamp_unit (sc_access_count self))))
                (fl 0))"

definition score_quality_gain :: "SegmentScore \<Rightarrow> ScoreWeights \<Rightarrow> f64" where
  "score_quality_gain self w =
     (let q = fmul (q_weight w) (score_value self w)
      in if is_finite q then fmax q (fl 0) else fl 0)"

definition admitted :: "SegmentScore \<Rightarrow> ScoreWeights \<Rightarrow> bool" where
  "admitted self w = fle (score_floor w) (score_value self w)"

section \<open>The value is a veto or a non-negative number\<close>

lemma fmax_0: "fle (Fin 0) (fmax x (Fin 0))"
  by (cases x) (auto simp: fmax_def)

lemma score_value_cases: "score_value s w = NInf \<or> fle (Fin 0) (score_value s w)"
  unfolding score_value_def fl_0 using fmax_0 by auto

lemma score_value_not_NaN: "score_value s w \<noteq> NaN"
  using score_value_cases[of s w] by auto

lemma score_value_veto:
  "score_value ((score_segment e seg segs ws c ec now k)\<lparr>sc_access_count := a\<rparr>) w = NInf \<longleftrightarrow>
     is_pinned seg ws \<or> is_recency_protected seg segs k"
proof -
  have "fmax x (Fin 0) \<noteq> NInf" for x using fmax_0[of x] by auto
  then show ?thesis by (auto simp: score_value_def score_segment_def veto_def)
qed

lemma admitted_default: "score_floor w = NInf \<Longrightarrow> admitted s w"
  by (simp add: admitted_def score_value_not_NaN)

lemma score_quality_gain_ok:
  "is_finite (score_quality_gain s w) \<and> fle (Fin 0) (score_quality_gain s w)"
  by (cases "fmul (q_weight w) (score_value s w)")
     (auto simp: score_quality_gain_def Let_def fmax_def)

section \<open>Properties\<close>

text \<open>C17: the score can only help: whatever the weights, the signals and the exponential return
  (NaN and infinities included), the quality gain a score contributes is a finite non-negative
  amount; a segment is vetoed (value minus infinity, gain 0) exactly when it is pinned or inside
  the recency window; and under the default floor every score is admitted.\<close>

theorem score_veto_and_quality_gain:
  "is_finite (score_quality_gain s w) \<and> fle (Fin 0) (score_quality_gain s w) \<and>
   (score_value (score_segment expf seg segs ws c ec now k) w = NInf) =
      (is_pinned seg ws \<or> is_recency_protected seg segs k) \<and>
   (score_value s w = NInf \<longrightarrow> score_quality_gain s w = Fin 0) \<and>
   admitted s ScoreWeights_default"
proof -
  have "score_quality_gain s w = Fin 0" if "score_value s w = NInf"
  proof -
    have "\<not> is_finite (fmul q NInf)" for q
      by (cases q) (auto simp: fmul_def finf_def)
    then show ?thesis using that by (simp add: score_quality_gain_def Let_def)
  qed
  moreover have "sc_access_count (score_segment expf seg segs ws c ec now k) = fl 0"
    by (simp add: score_segment_def)
  then have "score_segment expf seg segs ws c ec now k
      = (score_segment expf seg segs ws c ec now k)\<lparr>sc_access_count := fl 0\<rparr>" by simp
  ultimately show ?thesis
    using score_quality_gain_ok[of s w] score_value_veto[where e = expf and a = "fl 0" and seg = seg and segs = segs and ws = ws and c = c and ec = ec and now = now and k = k and w = w]
      admitted_default[of ScoreWeights_default s]
    by (simp add: ScoreWeights_default_def)
qed

theorem score_veto_and_quality_gain_witness:
  "score_quality_gain (SegmentScore_default\<lparr>sc_recency := Fin 1\<rparr>) ScoreWeights_default = Fin 0"
  using score_veto_and_quality_gain[of "SegmentScore_default\<lparr>sc_recency := Fin 1\<rparr>" ScoreWeights_default]
  by (simp add: score_value_def)

end
