(* ===== verification/Spine.thy ===== *)
theory Spine
  imports Scorer
begin

text \<open>
  The on-path squash spine: the passes \<^verbatim>\<open>salience_gate.rs\<close>, \<^verbatim>\<open>score.rs\<close>,
  \<^verbatim>\<open>ladder_select.rs\<close> (the ladder and the economics gate) and
  \<^verbatim>\<open>anti_thrash.rs\<close> of \<^verbatim>\<open>ccs-policy/src/pipeline/passes\<close>, and the preset
  \<^verbatim>\<open>Presets::continuous\<close> that composes them.  \<open>select_strategy\<close> is the reference: the fold
  the split replaced, which the repository keeps as a test oracle.
\<close>

section \<open>Salience gate\<close>

definition salience_gate_apply :: "PassCtx \<Rightarrow> PlanLedger \<Rightarrow> (PlanLedger \<times> PassControl) option" where
  "salience_gate_apply ctx ledger =
     Some (fold (\<lambda>seg l. record_note \<lparr>pv_seg_index = index seg, pv_by = ''salience_gate'',
                                      pv_note = ''ineligible: pinned''\<rparr> l)
                (filter (\<lambda>seg. \<not> is_squash_candidate seg (cx_working ctx) (cx_knobs ctx)) (cx_segments ctx))
                ledger, Continue)"

definition SalienceGatePass :: Pass where
  "SalienceGatePass = \<lparr>pass_id = ''salience_gate'', pass_phase = OnPath, pass_apply = salience_gate_apply\<rparr>"

definition is_gated :: "PlanLedger \<Rightarrow> nat \<Rightarrow> bool" where
  "is_gated ledger i =
     list_ex (\<lambda>p. pv_seg_index p = i \<and> pv_by p = ''salience_gate'') (provenance ledger)"

section \<open>Scoring\<close>

definition staged_hot :: "PassCtx \<Rightarrow> nat \<Rightarrow> bool" where
  "staged_hot ctx i = (case staged_segment (cx_staged ctx) i of
      None \<Rightarrow> False | Some s \<Rightarrow> is_hot (cx_staged ctx) (ref_id (st_candidate s)))"

definition pass_score :: "(f64 \<Rightarrow> f64) \<Rightarrow> PassCtx \<Rightarrow> Segment \<Rightarrow> SegmentScore" where
  "pass_score expf ctx seg =
     (let score = score_segment expf seg (cx_segments ctx) (cx_working ctx) (cx_cache ctx) (cx_econ ctx)
                    (cx_now ctx) (cx_knobs ctx)
      in if staged_hot ctx (index seg) then score\<lparr>sc_access_count := fl 1\<rparr> else score)"

fun score_all :: "(f64 \<Rightarrow> f64) \<Rightarrow> PassCtx \<Rightarrow> Segment list \<Rightarrow> ScoreTable \<Rightarrow> ScoreTable option" where
  "score_all expf ctx [] t = Some t"
| "score_all expf ctx (seg # segs) t =
     (case ScoreTable_set t (index seg) (pass_score expf ctx seg) of
        None \<Rightarrow> None | Some t' \<Rightarrow> score_all expf ctx segs t')"

definition score_apply :: "(f64 \<Rightarrow> f64) \<Rightarrow> PassCtx \<Rightarrow> PlanLedger \<Rightarrow> (PlanLedger \<times> PassControl) option" where
  "score_apply expf ctx ledger =
     map_option (\<lambda>t. (ledger\<lparr>scores := t\<rparr>, Continue)) (score_all expf ctx (cx_segments ctx) (scores ledger))"

definition ScorePass :: "(f64 \<Rightarrow> f64) \<Rightarrow> Pass" where
  "ScorePass expf = \<lparr>pass_id = ''score'', pass_phase = OnPath, pass_apply = score_apply expf\<rparr>"

section \<open>Ladder selection\<close>

definition ladder :: "Segment \<Rightarrow> ContentDecision \<Rightarrow> SquashCandidate \<Rightarrow> PolicyConfig \<Rightarrow> Strategy" where
  "ladder seg decision cand cfg =
     (let chars = approx_chars seg;
          summary = (case summary_content decision of None \<Rightarrow> [] | Some s \<Rightarrow> s)
      in if is_true_human seg \<and> kind seg = UserTurn \<and> human_verbatim_max cfg < chars
         then (case choice decision of Compress \<Rightarrow> SReversibleRef (ref_id cand) summary | _ \<Rightarrow> SKeep)
         else case pre_gate decision chars cfg of
             Some gated \<Rightarrow> gated
           | None \<Rightarrow> (case choice decision of
                 Truncate \<Rightarrow> STruncate (ranges_to_keep decision)
               | Summarize \<Rightarrow> SSummarize summary
               | Compress \<Rightarrow> SReversibleRef (ref_id cand) summary
               | Keep \<Rightarrow> SKeep))"

definition ledger_value :: "ScoreWeights \<Rightarrow> PlanLedger \<Rightarrow> nat \<Rightarrow> f64" where
  "ledger_value w ledger i = (case ScoreTable_get (scores ledger) i of
      None \<Rightarrow> fl 0 | Some s \<Rightarrow> score_value s w)"

definition score_order :: "ScoreWeights \<Rightarrow> PlanLedger \<Rightarrow> StagedSegment \<Rightarrow> StagedSegment \<Rightarrow> bool" where
  "score_order w ledger a b =
     (let va = ledger_value w ledger (st_seg_index a); vb = ledger_value w ledger (st_seg_index b)
      in total_le vb va \<and> (total_le va vb \<longrightarrow> st_seg_index a \<le> st_seg_index b))"

definition ladder_step :: "PassCtx \<Rightarrow> StagedSegment \<Rightarrow> PlanLedger \<Rightarrow> PlanLedger" where
  "ladder_step ctx staged ledger =
     (case nth_opt (cx_segments ctx) (st_seg_index staged) of
        None \<Rightarrow> ledger
      | Some seg \<Rightarrow>
          if is_gated ledger (st_seg_index staged) then ledger
          else if (case ScoreTable_get (scores ledger) (st_seg_index staged) of
                     None \<Rightarrow> False | Some s \<Rightarrow> \<not> admitted s (weights (cx_knobs ctx))) then ledger
          else case ladder seg (st_decision staged) (st_candidate staged) (cx_knobs ctx) of
              SKeep \<Rightarrow> ledger
            | strat \<Rightarrow> upsert_proposal
                \<lparr>pr_seg_index = st_seg_index staged, pr_strategy = strat,
                 pr_ref_id = Some (ref_id (st_candidate staged)), pr_needs_ref = None,
                 pr_net_removed = net_removed (st_candidate staged),
                 pr_quality_gain = quality_gain (st_candidate staged), pr_by = ''ladder_select''\<rparr> ledger)"

definition ladder_select_apply :: "PassCtx \<Rightarrow> PlanLedger \<Rightarrow> (PlanLedger \<times> PassControl) option" where
  "ladder_select_apply ctx ledger =
     (let ordered = sort_by (score_order (weights (cx_knobs ctx)) ledger) (staged_segments (cx_staged ctx))
      in Some (fold (ladder_step ctx) ordered ledger, Continue))"

definition LadderSelectPass :: Pass where
  "LadderSelectPass = \<lparr>pass_id = ''ladder_select'', pass_phase = OnPath, pass_apply = ladder_select_apply\<rparr>"

section \<open>Economics gate\<close>

definition admits :: "StagedSegment \<Rightarrow> Segment \<Rightarrow> PassCtx \<Rightarrow> bool" where
  "admits staged seg ctx =
     (if is_huge_human_paste seg (cx_knobs ctx) then True
      else \<not> (pinned seg \<or>
              fle (npv (batch_view (of_single (st_candidate staged))) (cx_cache ctx) (cx_econ ctx)
                       (cx_remaining_turns ctx) (cx_now ctx)) (st_npv_floor staged) \<or>
              approx_chars seg < pre_gate_min_chars (cx_knobs ctx)))"

definition economics_vetoed :: "PassCtx \<Rightarrow> PlanLedger \<Rightarrow> nat list" where
  "economics_vetoed ctx ledger =
     filter_map (\<lambda>staged. case nth_opt (cx_segments ctx) (st_seg_index staged) of
          None \<Rightarrow> None
        | Some seg \<Rightarrow> if \<not> admits staged seg ctx then Some (st_seg_index staged) else None)
       (filter (\<lambda>staged. case proposal_for ledger (st_seg_index staged) of
            None \<Rightarrow> False | Some p \<Rightarrow> pr_by p = ''ladder_select'') (staged_segments (cx_staged ctx)))"

definition economics_gate_apply :: "PassCtx \<Rightarrow> PlanLedger \<Rightarrow> (PlanLedger \<times> PassControl) option" where
  "economics_gate_apply ctx ledger =
     Some (fold (\<lambda>i l. record_note \<lparr>pv_seg_index = i, pv_by = ''economics_gate'', pv_note = ''economics veto''\<rparr>
                         (retain_proposals (\<lambda>p. pr_seg_index p \<noteq> i) l))
                (economics_vetoed ctx ledger) ledger, Continue)"

definition EconomicsGatePass :: Pass where
  "EconomicsGatePass = \<lparr>pass_id = ''economics_gate'', pass_phase = OnPath, pass_apply = economics_gate_apply\<rparr>"

section \<open>Anti-thrash\<close>

definition proposal_hot :: "PassCtx \<Rightarrow> Proposal \<Rightarrow> bool" where
  "proposal_hot ctx p = (case pr_ref_id p of None \<Rightarrow> False | Some r \<Rightarrow> is_hot (cx_staged ctx) r)"

definition anti_thrash_apply :: "PassCtx \<Rightarrow> PlanLedger \<Rightarrow> (PlanLedger \<times> PassControl) option" where
  "anti_thrash_apply ctx ledger =
     (let dropped = map pr_seg_index (filter (proposal_hot ctx) (proposals ledger))
      in Some (fold (\<lambda>i l. record_note \<lparr>pv_seg_index = i, pv_by = ''anti_thrash'', pv_note = ''dropped: ref hot''\<rparr> l)
                    dropped (retain_proposals (\<lambda>p. \<not> proposal_hot ctx p) ledger), Continue))"

definition AntiThrashPass :: Pass where
  "AntiThrashPass = \<lparr>pass_id = ''anti_thrash'', pass_phase = OnPath, pass_apply = anti_thrash_apply\<rparr>"

section \<open>The continuous preset\<close>

definition Presets_continuous :: "(f64 \<Rightarrow> f64) \<Rightarrow> PolicyConfig \<Rightarrow> Pipeline" where
  "Presets_continuous expf knobs =
     Pipeline_extend (Pipeline_extend (Pipeline_extend
       (Pipeline_of [StagePass SalienceGatePass, StagePass (ScorePass expf)])
       (Pipeline_of [StagePass LadderSelectPass]))
       (Pipeline_of [StagePass EconomicsGatePass]))
       (Pipeline_of [StagePass AntiThrashPass])"

section \<open>The reference fold\<close>

definition select_strategy :: "PassCtx \<Rightarrow> Segment \<Rightarrow> ContentDecision \<Rightarrow> SquashCandidate \<Rightarrow> f64 \<Rightarrow> Strategy" where
  "select_strategy ctx seg decision cand flr =
     (let cfg = cx_knobs ctx; chars = approx_chars seg;
          summary = (case summary_content decision of None \<Rightarrow> [] | Some s \<Rightarrow> s)
      in if is_true_human seg \<and> kind seg = UserTurn \<and> human_verbatim_max cfg < chars
         then (case choice decision of Compress \<Rightarrow> SReversibleRef (ref_id cand) summary | _ \<Rightarrow> SKeep)
         else case pre_gate decision chars cfg of
             Some gated \<Rightarrow> gated
           | None \<Rightarrow>
               if pinned seg \<or>
                  fle (npv (batch_view (of_single cand)) (cx_cache ctx) (cx_econ ctx)
                        (cx_remaining_turns ctx) (cx_now ctx)) flr \<or>
                  chars < pre_gate_min_chars cfg
               then SKeep
               else case choice decision of
                   Truncate \<Rightarrow> STruncate (ranges_to_keep decision)
                 | Summarize \<Rightarrow> SSummarize summary
                 | Compress \<Rightarrow> SReversibleRef (ref_id cand) summary
                 | Keep \<Rightarrow> SKeep)"

text \<open>The ladder followed by the economics veto is the reference fold.\<close>

lemma pre_gate_cases: "pre_gate d n cfg = None \<or> pre_gate d n cfg = Some SKeep"
  by (auto simp: pre_gate_def split: ChoiceTag.splits option.splits)

lemma ladder_then_admits:
  "select_strategy ctx seg (st_decision s) (st_candidate s) (st_npv_floor s) =
     (if admits s seg ctx then ladder seg (st_decision s) (st_candidate s) (cx_knobs ctx) else SKeep)"
  using pre_gate_cases[of "st_decision s" "approx_chars seg" "cx_knobs ctx"]
  by (auto simp: select_strategy_def ladder_def admits_def is_huge_human_paste_def Let_def
        split: option.splits ChoiceTag.splits)

section \<open>What each pass does to the ledger\<close>

lemma record_note_simps [simp]:
  "proposals (record_note v l) = proposals l" "scores (record_note v l) = scores l"
  "provenance (record_note v l) = provenance l @ [v]"
  by (simp_all add: record_note_def)

lemma proposal_for_cong: "proposals l = proposals l' \<Longrightarrow> proposal_for l i = proposal_for l' i"
  by (simp add: proposal_for_def)

lemma ledger_ok_cong: "proposals l = proposals l' \<Longrightarrow> ledger_ok l = ledger_ok l'"
  by (simp add: ledger_ok_def)

lemma fold_notes:
  "proposals (fold (\<lambda>x. record_note (f x)) xs l) = proposals l"
  "scores (fold (\<lambda>x. record_note (f x)) xs l) = scores l"
  "provenance (fold (\<lambda>x. record_note (f x)) xs l) = provenance l @ map f xs"
  by (induction xs arbitrary: l) simp_all

lemma ex_wf_segment:
  "wf_segments segs \<Longrightarrow> (\<exists>seg \<in> set segs. index seg = i \<and> Q seg) \<longleftrightarrow> i < length segs \<and> Q (segs ! i)"
  by (metis in_set_conv_nth wf_segments_nth)

lemma salience_gate_result:
  assumes "salience_gate_apply ctx l = Some (l', c)" "provenance l = []" "wf_segments (cx_segments ctx)"
  shows "proposals l' = proposals l" "scores l' = scores l" "c = Continue"
    and "is_gated l' i = (i < length (cx_segments ctx) \<and>
           \<not> is_squash_candidate (cx_segments ctx ! i) (cx_working ctx) (cx_knobs ctx))"
proof -
  show "proposals l' = proposals l" "scores l' = scores l" "c = Continue"
    using assms(1) by (auto simp: salience_gate_apply_def fold_notes)
  have "is_gated l' i = (\<exists>seg \<in> set (cx_segments ctx). index seg = i \<and>
      \<not> is_squash_candidate seg (cx_working ctx) (cx_knobs ctx))"
    using assms(1,2) by (force simp: salience_gate_apply_def is_gated_def fold_notes list_ex_iff)
  then show "is_gated l' i = (i < length (cx_segments ctx) \<and>
      \<not> is_squash_candidate (cx_segments ctx ! i) (cx_working ctx) (cx_knobs ctx))"
    unfolding ex_wf_segment[OF assms(3)] .
qed

lemma score_all_result:
  assumes "\<forall>seg \<in> set segs. index seg < length (table_scores t)"
  shows "\<exists>t'. score_all expf ctx segs t = Some t' \<and> length (table_scores t') = length (table_scores t) \<and>
    (\<forall>i. (i \<notin> index ` set segs \<longrightarrow> ScoreTable_get t' i = ScoreTable_get t i))"
  using assms
proof (induction segs arbitrary: t)
  case (Cons seg segs)
  let ?t = "ScoreTable ((table_scores t)[index seg := pass_score expf ctx seg])"
  have "ScoreTable_set t (index seg) (pass_score expf ctx seg) = Some ?t"
    using Cons.prems by (simp add: ScoreTable_set_def)
  moreover obtain t' where "score_all expf ctx segs ?t = Some t'" "length (table_scores t') = length (table_scores t)"
    "\<forall>i. i \<notin> index ` set segs \<longrightarrow> ScoreTable_get t' i = ScoreTable_get ?t i"
    using Cons.IH[of ?t] Cons.prems by auto
  ultimately show ?case by (auto simp: ScoreTable_get_def nth_opt_def)
qed simp

lemma score_all_get:
  assumes "distinct (map index segs)" "\<forall>seg \<in> set segs. index seg < length (table_scores t)"
    "score_all expf ctx segs t = Some t'" "seg \<in> set segs"
  shows "ScoreTable_get t' (index seg) = Some (pass_score expf ctx seg)"
  using assms
proof (induction segs arbitrary: t)
  case (Cons s segs)
  let ?t = "ScoreTable ((table_scores t)[index s := pass_score expf ctx s])"
  have t: "score_all expf ctx segs ?t = Some t'"
    using Cons.prems(2,3) by (simp add: ScoreTable_set_def)
  have b: "\<forall>seg \<in> set segs. index seg < length (table_scores ?t)" using Cons.prems(2) by simp
  show ?case
  proof (cases "seg = s")
    case True
    then have "ScoreTable_get t' (index s) = ScoreTable_get ?t (index s)"
      using score_all_result[OF b, of expf ctx] t Cons.prems(1) by auto
    then show ?thesis using True Cons.prems(2) by (simp add: ScoreTable_get_def nth_opt_def)
  next
    case False
    then show ?thesis using Cons.IH[OF _ b t] Cons.prems(1,4) by simp
  qed
qed simp

lemma score_result:
  assumes "wf_segments (cx_segments ctx)" "length (table_scores (scores l)) = length (cx_segments ctx)"
  shows "\<exists>l'. score_apply expf ctx l = Some (l', Continue) \<and> proposals l' = proposals l \<and>
    provenance l' = provenance l \<and>
    (\<forall>i. ScoreTable_get (scores l') i = (if i < length (cx_segments ctx)
        then Some (pass_score expf ctx (cx_segments ctx ! i)) else None))"
proof -
  have b: "\<forall>seg \<in> set (cx_segments ctx). index seg < length (table_scores (scores l))"
    using wf_segments_nth[OF assms(1)] assms(2) by (auto simp: in_set_conv_nth)
  have d: "distinct (map index (cx_segments ctx))" using assms(1) by (simp add: wf_segments_def)
  obtain t' where t': "score_all expf ctx (cx_segments ctx) (scores l) = Some t'"
    "length (table_scores t') = length (cx_segments ctx)"
    using score_all_result[OF b, of expf ctx] assms(2) by auto
  have "ScoreTable_get t' i = Some (pass_score expf ctx (cx_segments ctx ! i))" if "i < length (cx_segments ctx)" for i
    using score_all_get[OF d b t'(1), of "cx_segments ctx ! i"] wf_segments_nth[OF assms(1) that] that by simp
  moreover have "ScoreTable_get t' i = None" if "\<not> i < length (cx_segments ctx)" for i
    using that t'(2) by (simp add: ScoreTable_get_def nth_opt_def)
  ultimately show ?thesis using t'(1) by (auto simp: score_apply_def)
qed

text \<open>The ladder pass as a run of inserts of the proposals it chooses.\<close>

definition ladder_choice :: "PassCtx \<Rightarrow> PlanLedger \<Rightarrow> StagedSegment \<Rightarrow> Proposal option" where
  "ladder_choice ctx ledger staged =
     (case nth_opt (cx_segments ctx) (st_seg_index staged) of
        None \<Rightarrow> None
      | Some seg \<Rightarrow>
          if is_gated ledger (st_seg_index staged) \<or>
             (case ScoreTable_get (scores ledger) (st_seg_index staged) of
                     None \<Rightarrow> False | Some s \<Rightarrow> \<not> admitted s (weights (cx_knobs ctx))) \<or>
             ladder seg (st_decision staged) (st_candidate staged) (cx_knobs ctx) = SKeep
          then None
          else Some \<lparr>pr_seg_index = st_seg_index staged,
                 pr_strategy = ladder seg (st_decision staged) (st_candidate staged) (cx_knobs ctx),
                 pr_ref_id = Some (ref_id (st_candidate staged)), pr_needs_ref = None,
                 pr_net_removed = net_removed (st_candidate staged),
                 pr_quality_gain = quality_gain (st_candidate staged), pr_by = ''ladder_select''\<rparr>)"

lemma ladder_step_eq:
  "ladder_step ctx s l = (case ladder_choice ctx l s of None \<Rightarrow> l | Some p \<Rightarrow> upsert_proposal p l)"
  by (auto simp: ladder_step_def ladder_choice_def split: option.splits Strategy.splits)

lemma ladder_choice_upsert [simp]: "ladder_choice ctx (upsert_proposal p l) = ladder_choice ctx l"
proof -
  have "is_gated (upsert_proposal p l) = is_gated l" "scores (upsert_proposal p l) = scores l"
    by (simp_all add: fun_eq_iff is_gated_def upsert_proposal_def)
  then show ?thesis by (intro ext) (simp only: ladder_choice_def)
qed

lemma fold_ladder_step:
  "fold (ladder_step ctx) xs l = fold upsert_proposal (filter_map (ladder_choice ctx l) xs) l"
  by (induction xs arbitrary: l) (auto simp: ladder_step_eq split: option.splits)

lemma ladder_choice_index: "ladder_choice ctx l s = Some p \<Longrightarrow> pr_seg_index p = st_seg_index s"
  by (auto simp: ladder_choice_def split: option.splits if_splits)

lemma find_rev_filter_map:
  assumes "distinct (map st_seg_index xs)" "\<And>s p. ch s = Some p \<Longrightarrow> pr_seg_index p = st_seg_index s"
  shows "find (\<lambda>p. pr_seg_index p = i) (rev (filter_map ch xs)) =
    (case find (\<lambda>s. st_seg_index s = i) xs of None \<Rightarrow> None | Some s \<Rightarrow> ch s)"
  using assms(1)
proof (induction xs)
  case (Cons x xs)
  have "find (\<lambda>s. st_seg_index s = i) xs = None" if "st_seg_index x = i"
    using Cons.prems that by (auto simp: find_None_iff image_iff)
  then show ?case using Cons assms(2)[of x] by (auto simp: find_append split: option.splits)
qed simp

lemma find_unique_key:
  assumes "distinct (map f xs)" "distinct (map f ys)" "set xs = set ys"
  shows "find (\<lambda>s. f s = i) xs = find (\<lambda>s. f s = i) ys"
proof -
  have one: "find (\<lambda>s. f s = i) zs = Some z" if "distinct (map f zs)" "z \<in> set zs" "f z = i" for zs z
    using that by (induction zs) auto
  show ?thesis
  proof (cases "\<exists>z \<in> set xs. f z = i")
    case True
    then show ?thesis using one assms by metis
  next
    case False
    then have "find (\<lambda>s. f s = i) xs = None" "find (\<lambda>s. f s = i) ys = None"
      using assms(3) by (auto simp: find_None_iff)
    then show ?thesis by simp
  qed
qed

lemma ladder_select_result:
  assumes "ledger_ok l" "proposals l = []" "distinct (map st_seg_index (staged_segments (cx_staged ctx)))"
  shows "\<exists>l'. ladder_select_apply ctx l = Some (l', Continue) \<and> ledger_ok l' \<and>
    (\<forall>i. proposal_for l' i = (case staged_segment (cx_staged ctx) i of None \<Rightarrow> None
        | Some s \<Rightarrow> ladder_choice ctx l s))"
proof -
  let ?o = "sort_by (score_order (weights (cx_knobs ctx)) l) (staged_segments (cx_staged ctx))"
  let ?l = "fold upsert_proposal (filter_map (ladder_choice ctx l) ?o) l"
  have d: "distinct (map st_seg_index ?o)" using assms(3) by (simp add: distinct_sort_by)
  have "proposal_for ?l i = (case staged_segment (cx_staged ctx) i of None \<Rightarrow> None
        | Some s \<Rightarrow> ladder_choice ctx l s)" for i
  proof -
    have "proposal_for l i = None" using assms(2) by (simp add: proposal_for_def)
    then have "proposal_for ?l i = find (\<lambda>p. pr_seg_index p = i) (rev (filter_map (ladder_choice ctx l) ?o))"
      using ledger.lookup_upserts[OF assms(1)] by (simp split: option.splits)
    also have "\<dots> = (case find (\<lambda>s. st_seg_index s = i) ?o of None \<Rightarrow> None | Some s \<Rightarrow> ladder_choice ctx l s)"
      by (rule find_rev_filter_map[OF d ladder_choice_index])
    also have "find (\<lambda>s. st_seg_index s = i) ?o = staged_segment (cx_staged ctx) i"
      unfolding staged_segment_def by (rule find_unique_key[OF d assms(3)]) simp
    finally show ?thesis .
  qed
  then show ?thesis
    using ledger.inv_upserts[OF assms(1)] by (auto simp: ladder_select_apply_def Let_def fold_ladder_step)
qed

lemma retain_note_fold:
  assumes "ledger_ok l"
  shows "ledger_ok (fold (\<lambda>i l. record_note (f i) (retain_proposals (\<lambda>p. pr_seg_index p \<noteq> i) l)) is l) \<and>
    proposal_for (fold (\<lambda>i l. record_note (f i) (retain_proposals (\<lambda>p. pr_seg_index p \<noteq> i) l)) is l) j =
      (if j \<in> set is then None else proposal_for l j)"
  using assms
proof (induction "is" arbitrary: l)
  case (Cons i "is")
  let ?l = "record_note (f i) (retain_proposals (\<lambda>p. pr_seg_index p \<noteq> i) l)"
  have "ledger_ok ?l"
    using ledger.inv_retain[OF Cons.prems] ledger_ok_cong[OF record_note_simps(1)] by blast
  moreover have "proposal_for ?l j = proposal_for (retain_proposals (\<lambda>p. pr_seg_index p \<noteq> i) l) j"
    by (rule proposal_for_cong) simp
  then have "proposal_for ?l j = (if j = i then None else proposal_for l j)"
    using ledger.lookup_retain[OF Cons.prems] ledger.lookup_index[of l j]
    by (auto split: option.splits)
  ultimately show ?case using Cons.IH[of ?l] by auto
qed simp

lemma economics_gate_result:
  assumes "ledger_ok l"
  shows "\<exists>l'. economics_gate_apply ctx l = Some (l', Continue) \<and> ledger_ok l' \<and>
    (\<forall>i. proposal_for l' i = (if i \<in> set (economics_vetoed ctx l) then None else proposal_for l i))"
  using retain_note_fold[OF assms] by (auto simp: economics_gate_apply_def)

lemma anti_thrash_result:
  assumes "ledger_ok l"
  shows "\<exists>l'. anti_thrash_apply ctx l = Some (l', Continue) \<and> ledger_ok l' \<and>
    (\<forall>i. proposal_for l' i = (case proposal_for l i of None \<Rightarrow> None
        | Some p \<Rightarrow> if proposal_hot ctx p then None else Some p))"
proof -
  let ?l = "retain_proposals (\<lambda>p. \<not> proposal_hot ctx p) l"
  let ?d = "map pr_seg_index (filter (proposal_hot ctx) (proposals l))"
  let ?l' = "fold (\<lambda>i. record_note \<lparr>pv_seg_index = i, pv_by = ''anti_thrash'', pv_note = ''dropped: ref hot''\<rparr>) ?d ?l"
  have "anti_thrash_apply ctx l = Some (?l', Continue)" by (simp add: anti_thrash_apply_def Let_def)
  moreover have p: "proposals ?l' = proposals ?l" by (rule fold_notes(1))
  then have "ledger_ok ?l'" using ledger.inv_retain[OF assms] ledger_ok_cong by blast
  moreover have "proposal_for ?l' i = proposal_for ?l i" for i using p by (rule proposal_for_cong)
  ultimately show ?thesis
    using ledger.lookup_retain[OF assms] by (auto split: option.splits)
qed

lemma stages_continuous:
  "stage_passes (stages (Presets_continuous expf knobs)) =
     [SalienceGatePass, ScorePass expf, LadderSelectPass, EconomicsGatePass, AntiThrashPass]"
  by (simp add: Presets_continuous_def Pipeline_extend_def Pipeline_of_def stage_passes_def)

lemmas pass_defs = SalienceGatePass_def ScorePass_def LadderSelectPass_def EconomicsGatePass_def AntiThrashPass_def

lemma run_continuous:
  "run r (Presets_continuous expf knobs) ctx l =
     apply_all ctx [SalienceGatePass, ScorePass expf, LadderSelectPass, EconomicsGatePass, AntiThrashPass] l"
  unfolding stages_continuous[symmetric, of expf knobs]
  by (rule run_continue, unfold stages_continuous)
     (auto simp: pass_defs salience_gate_apply_def score_apply_def ladder_select_apply_def
        economics_gate_apply_def anti_thrash_apply_def Let_def)

text \<open>What the spine decides for one staged segment.\<close>

definition spine_strategy :: "(f64 \<Rightarrow> f64) \<Rightarrow> PassCtx \<Rightarrow> nat \<Rightarrow> Strategy option" where
  "spine_strategy expf ctx i = (case staged_segment (cx_staged ctx) i of
      None \<Rightarrow> None
    | Some s \<Rightarrow>
        if i < length (cx_segments ctx) \<and>
           is_squash_candidate (cx_segments ctx ! i) (cx_working ctx) (cx_knobs ctx) \<and>
           admitted (pass_score expf ctx (cx_segments ctx ! i)) (weights (cx_knobs ctx)) \<and>
           \<not> is_hot (cx_staged ctx) (ref_id (st_candidate s))
        then (case select_strategy ctx (cx_segments ctx ! i) (st_decision s) (st_candidate s) (st_npv_floor s) of
                SKeep \<Rightarrow> None | strat \<Rightarrow> Some strat)
        else None)"

lemma staged_segment_Some:
  "staged_segment st i = Some s \<Longrightarrow> s \<in> set (staged_segments st) \<and> st_seg_index s = i"
  unfolding staged_segment_def by (rule find_SomeD)

lemma economics_vetoed_iff:
  assumes "distinct (map st_seg_index (staged_segments (cx_staged ctx)))"
    "staged_segment (cx_staged ctx) i = Some s" "proposal_for l i = Some p" "pr_by p = ''ladder_select''"
    "i < length (cx_segments ctx)"
  shows "i \<in> set (economics_vetoed ctx l) \<longleftrightarrow> \<not> admits s (cx_segments ctx ! i) ctx"
proof -
  have s: "s \<in> set (staged_segments (cx_staged ctx))" "st_seg_index s = i"
    using staged_segment_Some[OF assms(2)] by auto
  have uniq: "t = s" if "t \<in> set (staged_segments (cx_staged ctx))" "st_seg_index t = i" for t
    using assms(1) s that by (auto simp: distinct_map inj_on_def)
  have "i \<in> set (economics_vetoed ctx l) \<longleftrightarrow> (\<exists>t \<in> set (staged_segments (cx_staged ctx)). st_seg_index t = i \<and>
      (case proposal_for l (st_seg_index t) of None \<Rightarrow> False | Some p \<Rightarrow> pr_by p = ''ladder_select'') \<and>
      st_seg_index t < length (cx_segments ctx) \<and> \<not> admits t (cx_segments ctx ! st_seg_index t) ctx)"
    unfolding economics_vetoed_def set_filter_map nth_opt_def by (auto split: if_splits)
  also have "\<dots> \<longleftrightarrow> (\<exists>t \<in> set (staged_segments (cx_staged ctx)). st_seg_index t = i \<and>
      \<not> admits t (cx_segments ctx ! i) ctx)"
    using assms(3-5) by (intro bex_cong) auto
  also have "\<dots> \<longleftrightarrow> \<not> admits s (cx_segments ctx ! i) ctx" using s uniq by blast
  finally show ?thesis .
qed

lemma continuous_result:
  assumes wf: "wf_segments (cx_segments ctx)"
    and dist: "distinct (map st_seg_index (staged_segments (cx_staged ctx)))"
  shows "\<exists>l. run r (Presets_continuous expf knobs) ctx (PlanLedger_sized (length (cx_segments ctx))) = Some l \<and>
    ledger_ok l \<and> (\<forall>i. map_option pr_strategy (proposal_for l i) = spine_strategy expf ctx i)"
proof -
  let ?l0 = "PlanLedger_sized (length (cx_segments ctx))"
  obtain l1 where l1: "salience_gate_apply ctx ?l0 = Some (l1, Continue)" by (simp add: salience_gate_apply_def)
  have p0: "provenance ?l0 = []" "proposals ?l0 = []"
    "length (table_scores (scores ?l0)) = length (cx_segments ctx)"
    by (simp_all add: PlanLedger_sized_def ScoreTable_sized_def)
  note g = salience_gate_result[OF l1 p0(1) wf]
  obtain l2 where l2: "score_apply expf ctx l1 = Some (l2, Continue)" "proposals l2 = []"
    "provenance l2 = provenance l1"
    "\<And>i. ScoreTable_get (scores l2) i = (if i < length (cx_segments ctx)
        then Some (pass_score expf ctx (cx_segments ctx ! i)) else None)"
    using score_result[OF wf, of l1 expf] g(1,2) p0 by auto
  have ok2: "ledger_ok l2" using l2(2) by (simp add: ledger_ok_def)
  have gated: "is_gated l2 i = is_gated l1 i" for i using l2(3) by (simp add: is_gated_def)
  obtain l3 where l3: "ladder_select_apply ctx l2 = Some (l3, Continue)" "ledger_ok l3"
    "\<And>i. proposal_for l3 i = (case staged_segment (cx_staged ctx) i of None \<Rightarrow> None
        | Some s \<Rightarrow> ladder_choice ctx l2 s)"
    using ladder_select_result[OF ok2 l2(2) dist] by auto
  obtain l4 where l4: "economics_gate_apply ctx l3 = Some (l4, Continue)" "ledger_ok l4"
    "\<And>i. proposal_for l4 i = (if i \<in> set (economics_vetoed ctx l3) then None else proposal_for l3 i)"
    using economics_gate_result[OF l3(2)] by auto
  obtain l5 where l5: "anti_thrash_apply ctx l4 = Some (l5, Continue)" "ledger_ok l5"
    "\<And>i. proposal_for l5 i = (case proposal_for l4 i of None \<Rightarrow> None
        | Some p \<Rightarrow> if proposal_hot ctx p then None else Some p)"
    using anti_thrash_result[OF l4(2)] by auto
  have "map_option pr_strategy (proposal_for l5 i) = spine_strategy expf ctx i" for i
  proof (cases "staged_segment (cx_staged ctx) i")
    case None
    then show ?thesis by (simp add: l5(3) l4(3) l3(3) spine_strategy_def)
  next
    case (Some s)
    note si = staged_segment_Some[OF Some]
    show ?thesis
    proof (cases "ladder_choice ctx l2 s")
      case None
      then show ?thesis
        using Some si g(4)[of i] l2(4)[of i]
        by (auto simp: l5(3) l4(3) l3(3) spine_strategy_def ladder_choice_def nth_opt_def gated
            ladder_then_admits split: if_splits Strategy.splits)
    next
      case p: (Some p)
      have i: "i < length (cx_segments ctx)" and lad: "pr_by p = ''ladder_select''"
        and ref: "pr_ref_id p = Some (ref_id (st_candidate s))"
        and st: "pr_strategy p = ladder (cx_segments ctx ! i) (st_decision s) (st_candidate s) (cx_knobs ctx)"
          "pr_strategy p \<noteq> SKeep"
        and c: "is_squash_candidate (cx_segments ctx ! i) (cx_working ctx) (cx_knobs ctx)"
          "admitted (pass_score expf ctx (cx_segments ctx ! i)) (weights (cx_knobs ctx))"
        using p si g(4)[of i] l2(4)[of i]
        by (auto simp: ladder_choice_def nth_opt_def gated split: if_splits)
      have p3: "proposal_for l3 i = Some p" using Some p by (simp add: l3(3))
      note veto = economics_vetoed_iff[OF dist Some p3 lad i]
      have sel: "select_strategy ctx (cx_segments ctx ! i) (st_decision s) (st_candidate s) (st_npv_floor s)
          = (if admits s (cx_segments ctx ! i) ctx then pr_strategy p else SKeep)"
        using st(1) by (simp add: ladder_then_admits)
      show ?thesis
        using Some i c veto ref st(2)
        by (auto simp: l5(3) l4(3) p3 spine_strategy_def sel proposal_hot_def split: Strategy.splits)
    qed
  qed
  then show ?thesis
    using l1 l2(1) l3(1) l4(1) l5(1,2) by (auto simp: run_continuous pass_defs)
qed

section \<open>The spine's passes keep the ledger well formed\<close>

definition spine_pass :: "Pass \<Rightarrow> bool" where
  "spine_pass p = (p = SalienceGatePass \<or> (\<exists>expf. p = ScorePass expf) \<or> p = LadderSelectPass \<or>
     p = EconomicsGatePass \<or> p = AntiThrashPass)"

definition spine_inv :: "PassCtx \<Rightarrow> PlanLedger \<Rightarrow> bool" where
  "spine_inv ctx l = (wf_segments (cx_segments ctx) \<and> ledger_ok l \<and>
     length (table_scores (scores l)) = length (cx_segments ctx))"

lemma ladder_select_keeps: "ledger_ok l \<Longrightarrow> ladder_select_apply ctx l = Some (l', c) \<Longrightarrow>
    ledger_ok l' \<and> scores l' = scores l"
proof -
  have "scores (fold upsert_proposal ps l) = scores l" for ps
    by (induction ps arbitrary: l) (simp_all add: upsert_proposal_def)
  then show "ledger_ok l \<Longrightarrow> ladder_select_apply ctx l = Some (l', c) \<Longrightarrow> ?thesis"
    using ledger.inv_upserts by (auto simp: ladder_select_apply_def Let_def fold_ladder_step)
qed

lemma gate_keeps_scores:
  "scores (fold (\<lambda>i l. record_note (f i) (retain_proposals (Q i) l)) is l) = scores l"
  by (induction "is" arbitrary: l) (simp_all add: retain_proposals_def)

lemma score_all_length:
  "score_all expf ctx segs t = Some t' \<Longrightarrow> length (table_scores t') = length (table_scores t)"
  by (induction segs arbitrary: t) (auto simp: ScoreTable_set_def split: if_splits)

interpretation spine: pass_invariant spine_pass spine_inv
proof
  fix p ctx l
  assume p: "spine_pass p" and inv: "spine_inv ctx l"
  then have wf: "wf_segments (cx_segments ctx)" and ok: "ledger_ok l"
    and len: "length (table_scores (scores l)) = length (cx_segments ctx)" by (simp_all add: spine_inv_def)
  consider "p = SalienceGatePass" | expf where "p = ScorePass expf" | "p = LadderSelectPass"
    | "p = EconomicsGatePass" | "p = AntiThrashPass" using p by (auto simp: spine_pass_def)
  then show "\<exists>l' c. pass_apply p ctx l = Some (l', c) \<and> spine_inv ctx l'"
  proof cases
    case 1
    then show ?thesis using inv
      by (simp add: pass_defs salience_gate_apply_def spine_inv_def fold_notes ledger_ok_def)
  next
    case 2
    obtain l' where l': "score_apply expf ctx l = Some (l', Continue)" "proposals l' = proposals l"
      using score_result[OF wf len] by blast
    then have "length (table_scores (scores l')) = length (table_scores (scores l))"
      using score_all_length[of expf ctx "cx_segments ctx" "scores l"] by (auto simp: score_apply_def)
    then show ?thesis using 2 l' inv by (auto simp: pass_defs spine_inv_def ledger_ok_def)
  next
    case 3
    obtain l' c where l': "ladder_select_apply ctx l = Some (l', c)" by (simp add: ladder_select_apply_def Let_def)
    then show ?thesis using 3 ladder_select_keeps[OF ok l'] inv by (auto simp: pass_defs spine_inv_def)
  next
    case 4
    have "scores l' = scores l" if "economics_gate_apply ctx l = Some (l', c)" for l' c
      using that by (auto simp: economics_gate_apply_def gate_keeps_scores)
    then show ?thesis using 4 economics_gate_result[OF ok, of ctx] inv by (auto simp: pass_defs spine_inv_def)
  next
    case 5
    have "scores l' = scores l" if "anti_thrash_apply ctx l = Some (l', c)" for l' c
      using that by (auto simp: anti_thrash_apply_def Let_def fold_notes retain_proposals_def)
    then show ?thesis using 5 anti_thrash_result[OF ok, of ctx] inv by (auto simp: pass_defs spine_inv_def)
  qed
qed

lemma spine_inv_sized: "wf_segments (cx_segments ctx) \<Longrightarrow> spine_inv ctx (PlanLedger_sized (length (cx_segments ctx)))"
  by (simp add: spine_inv_def PlanLedger_sized_def ScoreTable_sized_def ledger_ok_def)

section \<open>Properties\<close>

text \<open>C11: the continuous spine decides exactly as the reference fold: over well-formed segments and one
  staged decision per segment, the run neither panics nor duplicates, and the strategy it proposes
  for a segment is the reference's, when the segment is eligible, its score clears the floor and its
  ref is not in flight, and nothing otherwise.\<close>

theorem continuous_refines_select_strategy:
  assumes "wf_segments (cx_segments ctx)" "distinct (map st_seg_index (staged_segments (cx_staged ctx)))"
  shows "\<exists>l. run Runner_default (Presets_continuous expf knobs) ctx (PlanLedger_sized (length (cx_segments ctx))) = Some l \<and>
    ledger_ok l \<and>
    (\<forall>i. map_option pr_strategy (proposal_for l i) = (case staged_segment (cx_staged ctx) i of
        None \<Rightarrow> None
      | Some s \<Rightarrow>
          if i < length (cx_segments ctx) \<and>
             is_squash_candidate (cx_segments ctx ! i) (cx_working ctx) (cx_knobs ctx) \<and>
             admitted (pass_score expf ctx (cx_segments ctx ! i)) (weights (cx_knobs ctx)) \<and>
             \<not> is_hot (cx_staged ctx) (ref_id (st_candidate s))
          then (case select_strategy ctx (cx_segments ctx ! i) (st_decision s) (st_candidate s) (st_npv_floor s) of
                  SKeep \<Rightarrow> None | strat \<Rightarrow> Some strat)
          else None))"
  using continuous_result[OF assms, of Runner_default expf knobs] unfolding spine_strategy_def .

text \<open>A prompt of one large tool-pair segment with a staged compression of it.\<close>

definition demo_staged :: StagedDecisions where
  "demo_staged = \<lparr>present = True, staged_segments = [\<lparr>st_seg_index = 0,
       st_decision = \<lparr>choice = Compress, ranges_to_keep = [], summary_content = Some (lit ''s'')\<rparr>,
       st_candidate = demo_candidate\<lparr>quality_gain := Fin 1\<rparr>, st_npv_floor = Fin 0\<rparr>], hot_refs = []\<rparr>"

definition demo_ctx :: PassCtx where
  "demo_ctx = \<lparr>cx_body = demo_body, cx_segments = [demo_segment 0 ToolPair], cx_working = WorkingState_default,
     cx_econ = \<lparr>base_input = Fin 0, write_mult = Fin 2, read_mult = Fin 0, min_cache_floor = 1024\<rparr>,
     cx_cache = demo_cache, cx_knobs = PolicyConfig_default, cx_staged = demo_staged,
     cx_remaining_turns = Fin 0, cx_now = Fin 300\<rparr>"

lemma demo_ctx_ok: "wf_segments (cx_segments demo_ctx)"
  "distinct (map st_seg_index (staged_segments (cx_staged demo_ctx)))"
  by (simp_all add: demo_ctx_def demo_staged_def wf_segments_def demo_segment_def)

lemma demo_npv: "npv (batch_view (of_single (demo_candidate\<lparr>quality_gain := Fin 1\<rparr>))) demo_cache
    \<lparr>base_input = Fin 0, write_mult = Fin 2, read_mult = Fin 0, min_cache_floor = 1024\<rparr> (Fin 0) (Fin 300) = Fin 1"
  by (simp add: npv_def recurring_saving_def bust_cost_def batch_view_def of_single_def batch_quality_gain_def
      batch_total_removed_def demo_candidate_def f64_of_int_def fl_numeral is_cold_def idle_seconds_def
      demo_cache_def DEFAULT_TTL_FORCED_S_def Let_def)

lemma demo_strategy:
  "select_strategy demo_ctx (demo_segment 0 ToolPair)
     \<lparr>choice = Compress, ranges_to_keep = [], summary_content = Some (lit ''s'')\<rparr>
     (demo_candidate\<lparr>quality_gain := Fin 1\<rparr>) (Fin 0) = SReversibleRef (RefId []) (lit ''s'')"
  by (simp add: select_strategy_def demo_ctx_def demo_npv pre_gate_def approx_chars_eq demo_segment_def
      PolicyConfig_default_def PRE_GATE_MIN_CHARS_def Let_def) (simp add: demo_candidate_def)

lemma demo_squash_candidate: "is_squash_candidate (demo_segment 0 ToolPair) WorkingState_default PolicyConfig_default"
  by (simp add: is_squash_candidate_def is_pinned_def carries_live_constraint_def demo_segment_def WorkingState_default_def)

theorem continuous_refines_select_strategy_witness:
  "\<exists>l. run Runner_default (Presets_continuous id PolicyConfig_default) demo_ctx (PlanLedger_sized 1) = Some l \<and>
     map_option pr_strategy (proposal_for l 0) = Some (SReversibleRef (RefId []) (lit ''s''))"
proof -
  have len: "length (cx_segments demo_ctx) = 1" "cx_segments demo_ctx ! 0 = demo_segment 0 ToolPair"
    "cx_knobs demo_ctx = PolicyConfig_default" "cx_working demo_ctx = WorkingState_default"
    "hot_refs (cx_staged demo_ctx) = []" "score_floor (weights PolicyConfig_default) = NInf"
    by (simp_all add: demo_ctx_def demo_staged_def PolicyConfig_default_def ScoreWeights_default_def)
  have st: "staged_segment (cx_staged demo_ctx) 0 = Some \<lparr>st_seg_index = 0,
       st_decision = \<lparr>choice = Compress, ranges_to_keep = [], summary_content = Some (lit ''s'')\<rparr>,
       st_candidate = demo_candidate\<lparr>quality_gain := Fin 1\<rparr>, st_npv_floor = Fin 0\<rparr>"
    by (simp add: staged_segment_def demo_ctx_def demo_staged_def)
  obtain l where l: "run Runner_default (Presets_continuous id PolicyConfig_default) demo_ctx (PlanLedger_sized 1) = Some l"
    "map_option pr_strategy (proposal_for l 0) = Some (SReversibleRef (RefId []) (lit ''s''))"
    using continuous_refines_select_strategy[OF demo_ctx_ok, of id PolicyConfig_default]
    by (auto simp: len st demo_strategy demo_squash_candidate admitted_default is_hot_def dest!: spec[of _ 0])
  then show ?thesis by blast
qed

text \<open>The passes of the spine never panic and keep the ledger well formed in any pipeline built
  from them: any order, any repetition, any checkpoints, any revert budget.\<close>

theorem spine_passes_never_panic:
  assumes "wf_segments (cx_segments ctx)" "\<forall>p \<in> set (stage_passes (stages pl)). spine_pass p"
  shows "\<exists>l. run r pl ctx (PlanLedger_sized (length (cx_segments ctx))) = Some l \<and>
    distinct (map pr_seg_index (proposals l)) \<and> length (table_scores (scores l)) = length (cx_segments ctx)"
  using spine.run_keeps[OF assms(2) spine_inv_sized[OF assms(1)], of r]
  by (auto simp: spine_inv_def ledger_ok_def)

theorem spine_passes_never_panic_witness:
  "\<exists>l. run (Runner 5) (Pipeline [StagePass AntiThrashPass, StagePass LadderSelectPass, StagePass LadderSelectPass])
     demo_ctx (PlanLedger_sized 1) = Some l \<and> distinct (map pr_seg_index (proposals l))"
proof -
  have "length (cx_segments demo_ctx) = 1" by (simp add: demo_ctx_def)
  then show ?thesis
    using spine_passes_never_panic[OF demo_ctx_ok(1), of "Pipeline [StagePass AntiThrashPass, StagePass LadderSelectPass, StagePass LadderSelectPass]" "Runner 5"]
    by (auto simp: stage_passes_def spine_pass_def)
qed

lemma select_strategy_shapes:
  assumes "select_strategy ctx seg d cand flr = st" "st \<noteq> SKeep"
  shows "st \<noteq> SDrop" "\<nexists>c r. st = SRecode c r"
    and "is_true_human seg \<Longrightarrow> kind seg = UserTurn \<Longrightarrow> human_verbatim_max (cx_knobs ctx) < approx_chars seg \<Longrightarrow>
      choice d = Compress \<and> (\<exists>s. st = SReversibleRef (ref_id cand) s)"
    and "\<not> is_huge_human_paste seg (cx_knobs ctx) \<Longrightarrow> \<not> pinned seg \<and>
      \<not> fle (npv (batch_view (of_single cand)) (cx_cache ctx) (cx_econ ctx) (cx_remaining_turns ctx) (cx_now ctx)) flr \<and>
      pre_gate_min_chars (cx_knobs ctx) \<le> approx_chars seg"
  using assms pre_gate_cases[of d "approx_chars seg" "cx_knobs ctx"]
  by (auto simp: select_strategy_def Let_def is_huge_human_paste_def
      split: ChoiceTag.splits if_splits option.splits)

lemma spine_strategy_safe:
  assumes "spine_strategy expf ctx i = Some st"
  shows "\<exists>s. staged_segment (cx_staged ctx) i = Some s \<and> i < length (cx_segments ctx) \<and>
    is_squash_candidate (cx_segments ctx ! i) (cx_working ctx) (cx_knobs ctx) \<and>
    \<not> is_hot (cx_staged ctx) (ref_id (st_candidate s)) \<and> st \<noteq> SKeep \<and>
    select_strategy ctx (cx_segments ctx ! i) (st_decision s) (st_candidate s) (st_npv_floor s) = st"
  using assms by (auto simp: spine_strategy_def split: option.splits if_splits Strategy.splits)

text \<open>C19: what the spine may propose.  A proposal is never a keep, a drop or a recode; it is never for
  a hot ref; a human turn is proposed only when it is a huge paste, and then only as a reversible offload to the
  ref staged for it, whether or not it is pinned and whatever its NPV; and any other proposed segment is not
  pinned, carries no live constraint, is above the size floor, and its NPV is not at or below the floor staged
  for it.\<close>

theorem spine_proposals_are_safe:
  assumes "wf_segments (cx_segments ctx)" "distinct (map st_seg_index (staged_segments (cx_staged ctx)))"
    and "run Runner_default (Presets_continuous expf knobs) ctx (PlanLedger_sized (length (cx_segments ctx))) = Some l"
    and "proposal_for l i = Some p"
  defines "seg \<equiv> cx_segments ctx ! i"
  shows "i < length (cx_segments ctx) \<and> pr_strategy p \<notin> {SKeep, SDrop} \<and> (\<nexists>c r. pr_strategy p = SRecode c r) \<and>
    (\<exists>s. staged_segment (cx_staged ctx) i = Some s \<and> \<not> is_hot (cx_staged ctx) (ref_id (st_candidate s)) \<and>
      (if is_huge_human_paste seg (cx_knobs ctx)
       then choice (st_decision s) = Compress \<and> (\<exists>sm. pr_strategy p = SReversibleRef (ref_id (st_candidate s)) sm)
       else \<not> (kind seg = UserTurn \<and> is_true_human seg) \<and> \<not> pinned seg \<and>
         \<not> carries_live_constraint seg (cx_working ctx) \<and>
         \<not> fle (npv (batch_view (of_single (st_candidate s))) (cx_cache ctx) (cx_econ ctx)
                (cx_remaining_turns ctx) (cx_now ctx)) (st_npv_floor s) \<and>
         pre_gate_min_chars (cx_knobs ctx) \<le> approx_chars seg))"
proof -
  have "spine_strategy expf ctx i = Some (pr_strategy p)"
    using continuous_result[OF assms(1,2), of Runner_default expf knobs] assms(3,4) by (metis option.inject option.simps(9))
  then obtain s where s: "staged_segment (cx_staged ctx) i = Some s" "i < length (cx_segments ctx)"
    "is_squash_candidate seg (cx_working ctx) (cx_knobs ctx)"
    "\<not> is_hot (cx_staged ctx) (ref_id (st_candidate s))" "pr_strategy p \<noteq> SKeep"
    "select_strategy ctx seg (st_decision s) (st_candidate s) (st_npv_floor s) = pr_strategy p"
    using spine_strategy_safe unfolding seg_def by blast
  note shape = select_strategy_shapes[OF s(6,5)]
  show ?thesis
  proof (cases "is_huge_human_paste seg (cx_knobs ctx)")
    case True
    then show ?thesis using s shape(1,2,3) by (auto simp: is_huge_human_paste_def)
  next
    case False
    then show ?thesis using s shape(1,2) shape(4)[OF False]
      by (auto simp: is_squash_candidate_def is_pinned_def)
  qed
qed

lemma demo_run:
  "\<exists>l p. run Runner_default (Presets_continuous id PolicyConfig_default) demo_ctx (PlanLedger_sized 1) = Some l \<and>
     proposal_for l 0 = Some p \<and> pr_strategy p = SReversibleRef (RefId []) (lit ''s'')"
proof -
  have len: "length (cx_segments demo_ctx) = 1" "cx_segments demo_ctx ! 0 = demo_segment 0 ToolPair"
    "cx_knobs demo_ctx = PolicyConfig_default" "cx_working demo_ctx = WorkingState_default"
    "hot_refs (cx_staged demo_ctx) = []" "score_floor (weights PolicyConfig_default) = NInf"
    by (simp_all add: demo_ctx_def demo_staged_def PolicyConfig_default_def ScoreWeights_default_def)
  have st: "staged_segment (cx_staged demo_ctx) 0 = Some \<lparr>st_seg_index = 0,
       st_decision = \<lparr>choice = Compress, ranges_to_keep = [], summary_content = Some (lit ''s'')\<rparr>,
       st_candidate = demo_candidate\<lparr>quality_gain := Fin 1\<rparr>, st_npv_floor = Fin 0\<rparr>"
    by (simp add: staged_segment_def demo_ctx_def demo_staged_def)
  have "spine_strategy id demo_ctx 0 = Some (SReversibleRef (RefId []) (lit ''s''))"
    by (simp add: spine_strategy_def len st demo_strategy demo_squash_candidate admitted_default is_hot_def)
  moreover obtain l where l: "run Runner_default (Presets_continuous id PolicyConfig_default) demo_ctx (PlanLedger_sized 1) = Some l"
    "\<forall>i. map_option pr_strategy (proposal_for l i) = spine_strategy id demo_ctx i"
    using continuous_result[OF demo_ctx_ok, of Runner_default id PolicyConfig_default] unfolding len by blast
  ultimately have "map_option pr_strategy (proposal_for l 0) = Some (SReversibleRef (RefId []) (lit ''s''))"
    by simp
  then show ?thesis using l(1) by (cases "proposal_for l 0") auto
qed

theorem spine_proposals_are_safe_witness:
  "\<exists>l p. run Runner_default (Presets_continuous id PolicyConfig_default) demo_ctx (PlanLedger_sized 1) = Some l \<and>
     proposal_for l 0 = Some p \<and> pr_strategy p = SReversibleRef (RefId []) (lit ''s'') \<and>
     \<not> is_hot (cx_staged demo_ctx) (ref_id demo_candidate) \<and> \<not> pinned (cx_segments demo_ctx ! 0)"
proof -
  obtain l p where l: "run Runner_default (Presets_continuous id PolicyConfig_default) demo_ctx (PlanLedger_sized 1) = Some l"
    "proposal_for l 0 = Some p" "pr_strategy p = SReversibleRef (RefId []) (lit ''s'')" using demo_run by blast
  have seg: "length (cx_segments demo_ctx) = 1" "cx_segments demo_ctx ! 0 = demo_segment 0 ToolPair"
    by (simp_all add: demo_ctx_def)
  then have "\<not> is_hot (cx_staged demo_ctx) (ref_id demo_candidate) \<and> \<not> pinned (cx_segments demo_ctx ! 0)"
    using spine_proposals_are_safe[OF demo_ctx_ok, of id PolicyConfig_default l 0 p] l
    by (auto simp: is_huge_human_paste_def demo_segment_def demo_ctx_def demo_staged_def staged_segment_def)
  then show ?thesis using l by blast
qed

definition with_recency_window :: "nat \<Rightarrow> PassCtx \<Rightarrow> PassCtx" where
  "with_recency_window n ctx = ctx\<lparr>cx_knobs := (cx_knobs ctx)\<lparr>recency_window_n := n\<rparr>\<rparr>"

lemma spine_strategy_recency:
  assumes "score_floor (weights (cx_knobs ctx)) = NInf"
  shows "spine_strategy expf (with_recency_window n ctx) i = spine_strategy expf ctx i"
proof -
  have "pre_gate d k (c\<lparr>recency_window_n := n\<rparr>) = pre_gate d k c" for d k c
    by (simp add: pre_gate_def)
  then have sel: "select_strategy (with_recency_window n ctx) seg d cand flr = select_strategy ctx seg d cand flr" for seg d cand flr
    by (simp add: select_strategy_def with_recency_window_def Let_def)
  have proj: "cx_segments (with_recency_window n ctx) = cx_segments ctx"
    "cx_staged (with_recency_window n ctx) = cx_staged ctx" "cx_working (with_recency_window n ctx) = cx_working ctx"
    "is_squash_candidate seg ws (cx_knobs (with_recency_window n ctx)) = is_squash_candidate seg ws (cx_knobs ctx)"
    "admitted x (weights (cx_knobs (with_recency_window n ctx))) = True" "admitted x (weights (cx_knobs ctx)) = True"
    for seg ws x
    using assms by (simp_all add: with_recency_window_def is_squash_candidate_def is_huge_human_paste_def admitted_default)
  show ?thesis unfolding spine_strategy_def sel proj ..
qed

text \<open>C20: the recency window does not protect anything from the spine: with the default score
  floor, whatever the width of the window, the spine proposes the same strategies, so a segment inside
  the window, whose score is forced to minus infinity, is proposed like any other.\<close>

theorem recency_window_does_not_veto_the_spine:
  assumes "wf_segments (cx_segments ctx)" "distinct (map st_seg_index (staged_segments (cx_staged ctx)))"
    and "score_floor (weights (cx_knobs ctx)) = NInf"
  shows "\<exists>l l'. run Runner_default (Presets_continuous expf knobs) ctx
        (PlanLedger_sized (length (cx_segments ctx))) = Some l \<and>
      run Runner_default (Presets_continuous expf knobs) (with_recency_window n ctx)
        (PlanLedger_sized (length (cx_segments ctx))) = Some l' \<and>
      (\<forall>i. map_option pr_strategy (proposal_for l' i) = map_option pr_strategy (proposal_for l i))"
proof -
  have same: "cx_segments (with_recency_window n ctx) = cx_segments ctx"
    "cx_staged (with_recency_window n ctx) = cx_staged ctx" by (simp_all add: with_recency_window_def)
  show ?thesis
    using continuous_result[OF assms(1,2), of Runner_default expf knobs]
      continuous_result[of "with_recency_window n ctx" Runner_default expf knobs] assms(1,2)
      spine_strategy_recency[OF assms(3), of expf n]
    by (auto simp: same)
qed

theorem recency_window_does_not_veto_the_spine_witness:
  "\<exists>l l'. run Runner_default (Presets_continuous id PolicyConfig_default) demo_ctx (PlanLedger_sized 1) = Some l \<and>
      run Runner_default (Presets_continuous id PolicyConfig_default) (with_recency_window 0 demo_ctx)
        (PlanLedger_sized 1) = Some l' \<and>
      map_option pr_strategy (proposal_for l' 0) = map_option pr_strategy (proposal_for l 0)"
proof -
  have "score_floor (weights (cx_knobs demo_ctx)) = NInf" "length (cx_segments demo_ctx) = 1"
    by (simp_all add: demo_ctx_def PolicyConfig_default_def ScoreWeights_default_def)
  then show ?thesis
    using recency_window_does_not_veto_the_spine[OF demo_ctx_ok, of id PolicyConfig_default 0] by auto
qed

end
