(* ===== verification/Budget_Fallback.thy ===== *)
theory Budget_Fallback
  imports Spine
begin

text \<open>
  The off-path over-budget ladder, \<^verbatim>\<open>pipeline/passes/budget_fallback.rs\<close>: three passes that
  propose drops until the running estimate clears the hard target, and the presets that choose
  between this ladder, the continuous spine and the identity pipeline.  The reference
  \<open>default_compact\<close> is the single function the passes replaced, kept by the repository as a test
  oracle.  Indexing a segment out of range, which the source would panic on, is \<open>None\<close>.
\<close>

section \<open>The rungs\<close>

definition fallback_target :: "PassCtx \<Rightarrow> nat" where
  "fallback_target ctx = (let window = max_tokens (cx_body ctx) in unat (hard_target window window))"

definition total_tokens :: "PassCtx \<Rightarrow> nat" where
  "total_tokens ctx = sum_list (map (\<lambda>s. unat (token_estimate s)) (cx_segments ctx))"

definition removed_so_far :: "PlanLedger \<Rightarrow> nat" where
  "removed_so_far ledger = sum_list (map (\<lambda>p. nat (max (pr_net_removed p) 0)) (proposals ledger))"

definition dropped_by_tool_pairs :: "PlanLedger \<Rightarrow> nat \<Rightarrow> bool" where
  "dropped_by_tool_pairs ledger i = (case proposal_for ledger i of
      None \<Rightarrow> False | Some p \<Rightarrow> pr_by p = ''drop_tool_pairs'')"

definition drop_proposal :: "nat \<Rightarrow> int \<Rightarrow> PassId \<Rightarrow> Proposal" where
  "drop_proposal i removed who = \<lparr>pr_seg_index = i, pr_strategy = SDrop, pr_ref_id = None, pr_needs_ref = None,
     pr_net_removed = removed, pr_quality_gain = Fin 0, pr_by = who\<rparr>"

fun strip_loop :: "PassCtx \<Rightarrow> nat list \<Rightarrow> PlanLedger \<Rightarrow> PlanLedger option" where
  "strip_loop ctx [] ledger = Some ledger"
| "strip_loop ctx (i # is) ledger = (case nth_opt (cx_segments ctx) i of
      None \<Rightarrow> None
    | Some seg \<Rightarrow> strip_loop ctx is
        (upsert_proposal (drop_proposal i (i64_of_u32 (shed_tokens (cx_body ctx) seg)) ''strip_reasoning'') ledger))"

definition strip_reasoning_apply :: "PassCtx \<Rightarrow> PlanLedger \<Rightarrow> (PlanLedger \<times> PassControl) option" where
  "strip_reasoning_apply ctx ledger =
     (if total_tokens ctx \<le> fallback_target ctx then Some (ledger, Continue)
      else map_option (\<lambda>l. (l, Continue)) (strip_loop ctx (strip_reasoning (cx_body ctx) (cx_segments ctx)) ledger))"

definition StripReasoningPass :: Pass where
  "StripReasoningPass = \<lparr>pass_id = ''strip_reasoning'', pass_phase = OffPath, pass_apply = strip_reasoning_apply\<rparr>"

fun tool_pair_loop :: "nat \<Rightarrow> Segment list \<Rightarrow> nat \<Rightarrow> PlanLedger \<Rightarrow> PlanLedger" where
  "tool_pair_loop target [] running ledger = ledger"
| "tool_pair_loop target (seg # segs) running ledger =
     (if running \<le> target then ledger
      else tool_pair_loop target segs (running - unat (token_estimate seg))
        (upsert_proposal (drop_proposal (index seg) (i64_of_u32 (token_estimate seg)) ''drop_tool_pairs'') ledger))"

definition drop_tool_pairs_apply :: "PassCtx \<Rightarrow> PlanLedger \<Rightarrow> (PlanLedger \<times> PassControl) option" where
  "drop_tool_pairs_apply ctx ledger =
     (let target = fallback_target ctx
      in if total_tokens ctx \<le> target then Some (ledger, Continue)
         else Some (tool_pair_loop target (filter (\<lambda>s. kind s = ToolPair \<and> \<not> pinned s) (cx_segments ctx))
                      (total_tokens ctx - removed_so_far ledger) ledger, Continue))"

definition DropToolPairsPass :: Pass where
  "DropToolPairsPass = \<lparr>pass_id = ''drop_tool_pairs'', pass_phase = OffPath, pass_apply = drop_tool_pairs_apply\<rparr>"

fun drop_oldest_loop :: "nat \<Rightarrow> nat \<Rightarrow> Segment list \<Rightarrow> nat \<Rightarrow> PlanLedger \<Rightarrow> PlanLedger" where
  "drop_oldest_loop target lst [] running ledger = ledger"
| "drop_oldest_loop target lst (seg # segs) running ledger =
     (if running \<le> target then ledger
      else if index seg = lst \<or> kind seg = System \<or> kind seg = Tools \<or> dropped_by_tool_pairs ledger (index seg)
      then drop_oldest_loop target lst segs running ledger
      else drop_oldest_loop target lst segs (running - unat (token_estimate seg))
        (upsert_proposal (drop_proposal (index seg) (i64_of_u32 (token_estimate seg)) ''drop_oldest'') ledger))"

definition drop_oldest_apply :: "PassCtx \<Rightarrow> PlanLedger \<Rightarrow> (PlanLedger \<times> PassControl) option" where
  "drop_oldest_apply ctx ledger =
     (let target = fallback_target ctx
      in if total_tokens ctx \<le> target then Some (ledger, Continue)
         else Some (drop_oldest_loop target (length (cx_segments ctx) - 1) (cx_segments ctx)
                      (total_tokens ctx - removed_so_far ledger) ledger, Continue))"

definition DropOldestPass :: Pass where
  "DropOldestPass = \<lparr>pass_id = ''drop_oldest'', pass_phase = OffPath, pass_apply = drop_oldest_apply\<rparr>"

definition Presets_budget_fallback :: "PolicyConfig \<Rightarrow> Pipeline" where
  "Presets_budget_fallback knobs =
     Pipeline_extend (Pipeline_of [StagePass StripReasoningPass, StagePass DropToolPairsPass])
                     (Pipeline_of [StagePass DropOldestPass])"

definition Presets_for_request :: "(f64 \<Rightarrow> f64) \<Rightarrow> bool \<Rightarrow> Pressure \<Rightarrow> PolicyConfig \<Rightarrow> Pipeline" where
  "Presets_for_request expf staged_present pressure knobs =
     (if staged_present then Presets_continuous expf knobs
      else case pressure of OverBudget \<Rightarrow> Presets_budget_fallback knobs | Nominal \<Rightarrow> Pipeline_of [])"

section \<open>The reference ladder\<close>

record CompactionPlan =
  plan_strip :: "nat list"
  plan_dropped :: "nat list"

fun oracle_tool_pairs :: "nat \<Rightarrow> Segment list \<Rightarrow> nat \<Rightarrow> nat list \<Rightarrow> nat \<times> nat list" where
  "oracle_tool_pairs target [] running dropped = (running, dropped)"
| "oracle_tool_pairs target (seg # segs) running dropped =
     (if running \<le> target then (running, dropped)
      else oracle_tool_pairs target segs (running - unat (token_estimate seg)) (dropped @ [index seg]))"

fun oracle_oldest :: "nat \<Rightarrow> nat \<Rightarrow> Segment list \<Rightarrow> nat \<Rightarrow> nat list \<Rightarrow> nat list" where
  "oracle_oldest target lst [] running dropped = dropped"
| "oracle_oldest target lst (seg # segs) running dropped =
     (if running \<le> target then dropped
      else if index seg = lst \<or> kind seg = System \<or> kind seg = Tools \<or> index seg \<in> set dropped
      then oracle_oldest target lst segs running dropped
      else oracle_oldest target lst segs (running - unat (token_estimate seg)) (dropped @ [index seg]))"

definition default_compact :: "WireBody \<Rightarrow> Segment list \<Rightarrow> nat \<Rightarrow> CompactionPlan" where
  "default_compact body segs target =
     (let total = sum_list (map (\<lambda>s. unat (token_estimate s)) segs)
      in if total \<le> target then \<lparr>plan_strip = [], plan_dropped = []\<rparr>
         else let strip = strip_reasoning body segs;
                  running = total - sum_list (map (\<lambda>i. unat (shed_tokens body (segs ! i))) strip)
              in if running \<le> target then \<lparr>plan_strip = strip, plan_dropped = []\<rparr>
                 else case oracle_tool_pairs target (filter (\<lambda>s. kind s = ToolPair \<and> \<not> pinned s) segs) running [] of
                   (running', dropped) \<Rightarrow>
                     \<lparr>plan_strip = strip, plan_dropped = oracle_oldest target (length segs - 1) segs running' dropped\<rparr>)"

section \<open>The target\<close>

lemma fallback_target_eq: "fallback_target ctx = 256"
proof -
  have "u32_saturating_sub (u32_saturating_sub w w) 1024 = 0" for w by (simp add: u32_saturating_sub_def)
  then show ?thesis by (simp add: fallback_target_def hard_target_def Let_def)
qed

section \<open>The passes drop what the reference drops\<close>

definition drop_indices :: "PlanLedger \<Rightarrow> nat set" where
  "drop_indices l = pr_seg_index ` set (proposals l)"

lemma upsert_new:
  "i \<notin> pr_seg_index ` set qs \<Longrightarrow> pr_seg_index p = i \<Longrightarrow> upsert_list p qs = qs @ [p]"
  by (induction qs) auto

lemma strip_indices:
  assumes "wf_segments segs"
  shows "distinct (strip_reasoning body segs)"
    and "i \<in> set (strip_reasoning body segs) \<Longrightarrow> i < length segs \<and> kind (segs ! i) = AssistantTurn"
proof -
  have "distinct (map index (filter P segs))" for P
    using assms by (simp add: wf_segments_def distinct_map_filter)
  then show "distinct (strip_reasoning body segs)" by (simp add: strip_reasoning_def Let_def filter_filter)
  show "i \<in> set (strip_reasoning body segs) \<Longrightarrow> i < length segs \<and> kind (segs ! i) = AssistantTurn"
    using wf_segments_nth[OF assms] by (auto simp: strip_reasoning_def Let_def in_set_conv_nth)
qed

definition shed :: "PassCtx \<Rightarrow> nat \<Rightarrow> Proposal" where
  "shed ctx i = drop_proposal i (i64_of_u32 (shed_tokens (cx_body ctx) (cx_segments ctx ! i))) ''strip_reasoning''"

lemma strip_loop_eq:
  assumes "distinct is" "\<forall>i \<in> set is. i < length (cx_segments ctx)" "set is \<inter> pr_seg_index ` set (proposals l) = {}"
  shows "strip_loop ctx is l = Some (l\<lparr>proposals := proposals l @ map (shed ctx) is\<rparr>)"
  using assms
proof (induction "is" arbitrary: l)
  case (Cons i "is")
  have "upsert_proposal (shed ctx i) l = l\<lparr>proposals := proposals l @ [shed ctx i]\<rparr>"
    using Cons.prems(3) by (simp add: upsert_proposal_def upsert_new[of i] shed_def drop_proposal_def)
  moreover have "strip_loop ctx is (l\<lparr>proposals := proposals l @ [shed ctx i]\<rparr>)
      = Some (l\<lparr>proposals := (proposals l @ [shed ctx i]) @ map (shed ctx) is\<rparr>)"
    using Cons.prems by (subst Cons.IH) (auto simp: shed_def drop_proposal_def)
  ultimately show ?case using Cons.prems(2) by (simp add: nth_opt_def shed_def)
qed simp

definition pair_drop :: "Segment \<Rightarrow> Proposal" where
  "pair_drop s = drop_proposal (index s) (i64_of_u32 (token_estimate s)) ''drop_tool_pairs''"

definition tok :: "Segment list \<Rightarrow> nat" where
  "tok segs = sum_list (map (\<lambda>s. unat (token_estimate s)) segs)"

text \<open>Rung 2 drops a prefix of the tool pairs, in both developments the same one.\<close>

lemma tool_pair_loop_prefix:
  assumes "distinct (map index segs)" "set (map index segs) \<inter> pr_seg_index ` set (proposals l) = {}"
  shows "\<exists>n. tool_pair_loop t segs r l = l\<lparr>proposals := proposals l @ map pair_drop (take n segs)\<rparr> \<and>
    oracle_tool_pairs t segs r d = (r - tok (take n segs), d @ map index (take n segs))"
  using assms
proof (induction segs arbitrary: r l d)
  case Nil
  then show ?case by (simp add: tok_def)
next
  case (Cons s segs)
  show ?case
  proof (cases "r \<le> t")
    case True
    then show ?thesis by (intro exI[of _ 0]) (simp add: tok_def)
  next
    case False
    let ?l = "l\<lparr>proposals := proposals l @ [pair_drop s]\<rparr>"
    have u: "upsert_proposal (pair_drop s) l = ?l"
      using Cons.prems(2) by (simp add: upsert_proposal_def upsert_new[of "index s"] pair_drop_def drop_proposal_def)
    have P: "distinct (map index segs)" "set (map index segs) \<inter> pr_seg_index ` set (proposals ?l) = {}"
      using Cons.prems by (auto simp: pair_drop_def drop_proposal_def)
    obtain n where n: "tool_pair_loop t segs (r - unat (token_estimate s)) ?l
        = ?l\<lparr>proposals := proposals ?l @ map pair_drop (take n segs)\<rparr>"
      "oracle_tool_pairs t segs (r - unat (token_estimate s)) (d @ [index s])
        = (r - unat (token_estimate s) - tok (take n segs), (d @ [index s]) @ map index (take n segs))"
      using Cons.IH[OF P, of "r - unat (token_estimate s)" "d @ [index s]"] by blast
    show ?thesis
      using False n u by (intro exI[of _ "Suc n"]) (simp add: pair_drop_def[symmetric] tok_def)
  qed
qed

text \<open>Rung 3, given that the same tool pairs were dropped before.\<close>

lemma dropped_by_upsert_other:
  "ledger_ok l \<Longrightarrow> dropped_by_tool_pairs (upsert_proposal (drop_proposal i x ''drop_oldest'') l) j =
     (j \<noteq> i \<and> dropped_by_tool_pairs l j)"
  using ledger.lookup_upsert[of l "drop_proposal i x ''drop_oldest''" j]
  by (auto simp: dropped_by_tool_pairs_def drop_proposal_def)

lemma oracle_oldest_superset: "set d \<subseteq> set (oracle_oldest t lst segs r d)"
proof (induction segs arbitrary: r d)
  case (Cons s segs)
  have "set d \<subseteq> set (oracle_oldest t lst segs x (d @ [y]))" for x y using Cons[of "d @ [y]" x] by auto
  then show ?case using Cons by simp
qed simp

lemma drop_indices_upsert: "drop_indices (upsert_proposal p l) = insert (pr_seg_index p) (drop_indices l)"
  by (simp add: drop_indices_def upsert_proposal_def set_upsert_index)

lemma drop_oldest_matches:
  assumes "ledger_ok l" "distinct (map index segs)" "set d \<subseteq> drop_indices l"
    and "\<forall>s \<in> set segs. dropped_by_tool_pairs l (index s) = (index s \<in> set d)"
  shows "drop_indices (drop_oldest_loop t lst segs r l) = drop_indices l \<union> set (oracle_oldest t lst segs r d)"
  using assms
proof (induction segs arbitrary: r l d)
  case (Cons s segs)
  let ?l = "upsert_proposal (drop_proposal (index s) (i64_of_u32 (token_estimate s)) ''drop_oldest'') l"
  let ?d = "d @ [index s]" and ?r = "r - unat (token_estimate s)"
  have idx: "pr_seg_index (drop_proposal i x b) = i" for i x b by (simp add: drop_proposal_def)
  have "drop_indices (drop_oldest_loop t lst segs ?r ?l) = drop_indices ?l \<union> set (oracle_oldest t lst segs ?r ?d)"
  proof (rule Cons.IH)
    show "ledger_ok ?l" by (rule ledger.inv_upsert[OF Cons.prems(1)])
    show "\<forall>s \<in> set segs. dropped_by_tool_pairs ?l (index s) = (index s \<in> set ?d)"
    proof
      fix u
      assume u: "u \<in> set segs"
      then have "index u \<noteq> index s" using Cons.prems(2) by (metis distinct.simps(2) image_eqI list.simps(9) set_map)
      then show "dropped_by_tool_pairs ?l (index u) = (index u \<in> set ?d)"
        using Cons.prems(4) u by (simp add: dropped_by_upsert_other[OF Cons.prems(1)])
    qed
  qed (use Cons.prems in \<open>auto simp: drop_indices_upsert idx\<close>)
  moreover have "index s \<in> set (oracle_oldest t lst segs ?r ?d)" using oracle_oldest_superset[of ?d] by auto
  ultimately have "drop_indices (drop_oldest_loop t lst segs ?r ?l) = drop_indices l \<union> set (oracle_oldest t lst segs ?r ?d)"
    by (auto simp: drop_indices_upsert idx)
  moreover have "drop_indices (drop_oldest_loop t lst segs r l) = drop_indices l \<union> set (oracle_oldest t lst segs r d)"
    using Cons.prems by (intro Cons.IH) simp_all
  ultimately show ?case using Cons.prems(3,4) by auto
qed auto

lemma stages_budget_fallback:
  "stage_passes (stages (Presets_budget_fallback knobs)) = [StripReasoningPass, DropToolPairsPass, DropOldestPass]"
  by (simp add: Presets_budget_fallback_def Pipeline_extend_def Pipeline_of_def stage_passes_def)

lemmas fallback_pass_defs = StripReasoningPass_def DropToolPairsPass_def DropOldestPass_def

lemma run_budget_fallback:
  "run r (Presets_budget_fallback knobs) ctx l = apply_all ctx [StripReasoningPass, DropToolPairsPass, DropOldestPass] l"
  unfolding stages_budget_fallback[symmetric, of knobs]
  by (rule run_continue, unfold stages_budget_fallback)
     (auto simp: fallback_pass_defs strip_reasoning_apply_def drop_tool_pairs_apply_def drop_oldest_apply_def
        Let_def split: if_splits)

lemma removed_shed: "sum_list (map (\<lambda>p. nat (max (pr_net_removed p) 0)) (map (shed ctx) is))
    = sum_list (map (\<lambda>i. unat (shed_tokens (cx_body ctx) (cx_segments ctx ! i))) is)"
  by (induction "is") (simp_all add: shed_def drop_proposal_def i64_of_u32_def)

lemma removed_pairs: "sum_list (map (\<lambda>p. nat (max (pr_net_removed p) 0)) (map pair_drop ss)) = tok ss"
  by (induction ss) (simp_all add: pair_drop_def drop_proposal_def i64_of_u32_def tok_def)

lemma oracle_oldest_done: "r \<le> t \<Longrightarrow> oracle_oldest t lst segs r d = d"
  by (cases segs) simp_all

lemma oracle_tool_pairs_done: "r \<le> t \<Longrightarrow> oracle_tool_pairs t segs r d = (r, d)"
  by (cases segs) simp_all

lemma find_map_shed:
  "find (\<lambda>p. pr_seg_index p = i) (map (shed ctx) is) = (if i \<in> set is then Some (shed ctx i) else None)"
  by (induction "is") (auto simp: shed_def drop_proposal_def)

lemma find_map_pair_drop:
  "find (\<lambda>p. pr_seg_index p = i) (map pair_drop ss) = None \<longleftrightarrow> i \<notin> set (map index ss)"
  "find (\<lambda>p. pr_seg_index p = i) (map pair_drop ss) = Some p \<Longrightarrow> pr_by p = ''drop_tool_pairs''"
  by (induction ss) (auto simp: pair_drop_def drop_proposal_def split: if_splits)

lemma dropped_by_pairs_only:
  assumes "set is \<inter> set (map index ss) = {}"
  shows "dropped_by_tool_pairs (l\<lparr>proposals := map (shed ctx) is @ map pair_drop ss\<rparr>) i = (i \<in> set (map index ss))"
proof (cases "i \<in> set is")
  case True
  then show ?thesis using assms
    by (auto simp: dropped_by_tool_pairs_def proposal_for_def find_append find_map_shed shed_def drop_proposal_def)
next
  case False
  then show ?thesis
    using find_map_pair_drop[of i ss]
    by (auto simp: dropped_by_tool_pairs_def proposal_for_def find_append find_map_shed split: option.splits)
qed

lemma drop_oldest_loop_ok: "ledger_ok l \<Longrightarrow> ledger_ok (drop_oldest_loop t lst ss r l)"
  by (induction ss arbitrary: r l) (auto intro: ledger.inv_upsert)

lemma budget_fallback_result:
  assumes wf: "wf_segments (cx_segments ctx)"
  defines "plan \<equiv> default_compact (cx_body ctx) (cx_segments ctx) 256"
  shows "\<exists>l. run r (Presets_budget_fallback knobs) ctx (PlanLedger_sized n) = Some l \<and> ledger_ok l \<and>
    drop_indices l = set (plan_strip plan) \<union> set (plan_dropped plan)"
proof (cases "total_tokens ctx \<le> 256")
  case True
  then show ?thesis
    by (auto simp: run_budget_fallback fallback_pass_defs strip_reasoning_apply_def drop_tool_pairs_apply_def
        drop_oldest_apply_def fallback_target_eq ledger_ok_def PlanLedger_sized_def drop_indices_def
        plan_def default_compact_def total_tokens_def)
next
  case False
  let ?segs = "cx_segments ctx" and ?l0 = "PlanLedger_sized n"
  let ?st = "strip_reasoning (cx_body ctx) ?segs" and ?tp = "filter (\<lambda>s. kind s = ToolPair \<and> \<not> pinned s) ?segs"
  let ?sum = "sum_list (map (\<lambda>i. unat (shed_tokens (cx_body ctx) (?segs ! i))) ?st)"
  define l1 where "l1 = ?l0\<lparr>proposals := map (shed ctx) ?st\<rparr>"
  have p0: "proposals ?l0 = []" by (simp add: PlanLedger_sized_def)
  have s1: "strip_reasoning_apply ctx ?l0 = Some (l1, Continue)"
    using False strip_loop_eq[of ?st ctx ?l0] strip_indices[OF wf]
    by (simp add: strip_reasoning_apply_def fallback_target_eq l1_def p0)
  have idx1: "pr_seg_index ` set (proposals l1) = set ?st" by (force simp: l1_def shed_def drop_proposal_def)
  have rem1: "removed_so_far l1 = ?sum" by (simp add: removed_so_far_def l1_def removed_shed del: map_map)
  have dist_tp: "distinct (map index ?tp)" using wf by (simp add: wf_segments_def distinct_map_filter)
  have "index s \<notin> set ?st" if "s \<in> set ?tp" for s
    using that strip_indices(2)[OF wf, of "index s"] wf_segments_nth[OF wf] by (force simp: in_set_conv_nth)
  then have "set (map index ?tp) \<inter> pr_seg_index ` set (proposals l1) = {}" by (auto simp: idx1)
  then obtain k where k: "tool_pair_loop 256 ?tp (total_tokens ctx - ?sum) l1
      = l1\<lparr>proposals := proposals l1 @ map pair_drop (take k ?tp)\<rparr>"
    "oracle_tool_pairs 256 ?tp (total_tokens ctx - ?sum) []
      = (total_tokens ctx - ?sum - tok (take k ?tp), [] @ map index (take k ?tp))"
    using tool_pair_loop_prefix[OF dist_tp] by blast
  define l2 where "l2 = l1\<lparr>proposals := proposals l1 @ map pair_drop (take k ?tp)\<rparr>"
  define d where "d = map index (take k ?tp)"
  have s2: "drop_tool_pairs_apply ctx l1 = Some (l2, Continue)"
    using False k(1) by (simp add: drop_tool_pairs_apply_def fallback_target_eq rem1 l2_def Let_def)
  have idx2: "map pr_seg_index (proposals l2) = ?st @ d"
    by (simp add: l2_def l1_def d_def shed_def pair_drop_def drop_proposal_def comp_def)
  have disj: "set ?st \<inter> set d = {}"
    using \<open>set (map index ?tp) \<inter> _ = {}\<close> set_take_subset[of k ?tp] by (auto simp: idx1 d_def)
  have "distinct d" using dist_tp unfolding d_def take_map[symmetric] by (rule distinct_take)
  then have ok2: "ledger_ok l2" using disj strip_indices(1)[OF wf] by (simp add: ledger_ok_def idx2)
  have rem2: "removed_so_far l2 = ?sum + tok (take k ?tp)"
    using rem1 by (simp add: removed_so_far_def l2_def removed_pairs del: map_map)
  have by2: "dropped_by_tool_pairs l2 i = (i \<in> set d)" for i
    using dropped_by_pairs_only[OF disj[unfolded d_def]] by (simp add: l2_def l1_def d_def)
  define l3 where "l3 = drop_oldest_loop 256 (length ?segs - 1) ?segs (total_tokens ctx - ?sum - tok (take k ?tp)) l2"
  have s3: "drop_oldest_apply ctx l2 = Some (l3, Continue)"
    using False by (simp add: drop_oldest_apply_def fallback_target_eq rem2 l3_def Let_def)
  have i2: "drop_indices l2 = set ?st \<union> set d" using idx2 by (metis drop_indices_def set_append set_map)
  have "distinct (map index ?segs)" using wf by (simp add: wf_segments_def)
  then have "drop_indices l3 = drop_indices l2 \<union> set (oracle_oldest 256 (length ?segs - 1) ?segs
      (total_tokens ctx - ?sum - tok (take k ?tp)) d)"
    unfolding l3_def using by2 i2 by (intro drop_oldest_matches[OF ok2]) auto
  then have i3: "drop_indices l3 = set ?st \<union> set (oracle_oldest 256 (length ?segs - 1) ?segs
      (total_tokens ctx - ?sum - tok (take k ?tp)) d)"
    using oracle_oldest_superset[of d 256 "length ?segs - 1" ?segs "total_tokens ctx - ?sum - tok (take k ?tp)"]
    unfolding i2 by blast
  have plan: "set (plan_strip plan) \<union> set (plan_dropped plan) = set ?st \<union> set (oracle_oldest 256 (length ?segs - 1) ?segs
      (total_tokens ctx - ?sum - tok (take k ?tp)) d)"
    using False k(2) unfolding plan_def default_compact_def d_def total_tokens_def
    by (auto simp: Let_def oracle_tool_pairs_done oracle_oldest_done)
  have "ledger_ok l3" unfolding l3_def using ok2 by (rule drop_oldest_loop_ok)
  then show ?thesis using s1 s2 s3 i3 plan by (simp add: run_budget_fallback fallback_pass_defs)
qed

section \<open>The ladder stops at the target or runs out of segments\<close>


text \<open>A ladder takes its steps in order while the estimate is over the target.\<close>

fun rungs :: "nat \<Rightarrow> (nat \<Rightarrow> nat) \<Rightarrow> nat \<Rightarrow> nat list \<Rightarrow> nat list" where
  "rungs t f r [] = []"
| "rungs t f r (i # is) = (if r \<le> t then [] else i # rungs t f (r - f i) is)"

lemma rungs_below [simp]: "r \<le> t \<Longrightarrow> rungs t f r is = []"
  by (cases "is") simp_all













section \<open>Properties\<close>

text \<open>C21: the three budget passes, composed, drop exactly what the reference ladder drops: the run
  never panics and the set of segments with a drop proposal is the union of the reference's stripped
  and dropped indices.\<close>

theorem budget_fallback_refines_default_compact:
  assumes "wf_segments (cx_segments ctx)"
  shows "\<exists>l. run Runner_default (Presets_budget_fallback knobs) ctx (PlanLedger_sized n) = Some l \<and> ledger_ok l \<and>
    pr_seg_index ` set (proposals l) =
      set (plan_strip (default_compact (cx_body ctx) (cx_segments ctx) (fallback_target ctx))) \<union>
      set (plan_dropped (default_compact (cx_body ctx) (cx_segments ctx) (fallback_target ctx)))"
  using budget_fallback_result[OF assms, of Runner_default knobs n] by (simp add: drop_indices_def fallback_target_eq)

theorem budget_fallback_refines_default_compact_witness:
  "\<exists>l. run Runner_default (Presets_budget_fallback PolicyConfig_default) demo_ctx (PlanLedger_sized 1) = Some l"
  using budget_fallback_refines_default_compact[OF demo_ctx_ok(1), of PolicyConfig_default 1] by blast




text \<open>C23: the compaction target of the fallback does not depend on the request: the pass passes the
  request's \<open>max_tokens\<close> both as the context window and as the output allowance, so the target is always
  the minimum of 256 tokens.\<close>

theorem fallback_target_is_always_the_minimum:
  "fallback_target ctx = 256 \<and> (win > 1280 \<longrightarrow> hard_target win 0 \<noteq> hard_target win win)"
proof -
  have "hard_target win win = 256" by (simp add: hard_target_def u32_saturating_sub_def)
  moreover have "hard_target win 0 \<noteq> 256" if "win > 1280"
  proof -
    have "1024 \<le> win" using that by unat_arith
    then have "hard_target win 0 = max (win - 1024) 256" by (simp add: hard_target_def u32_saturating_sub_def)
    moreover have "256 < win - 1024" using that by unat_arith
    ultimately show ?thesis by (metis max.strict_order_iff max_def order_less_imp_not_eq2)
  qed
  ultimately show ?thesis by (simp add: fallback_target_eq)
qed

theorem fallback_target_is_always_the_minimum_witness:
  "hard_target 200000 0 \<noteq> hard_target 200000 200000"
  using fallback_target_is_always_the_minimum[of demo_ctx 200000] by simp

end
