(* ===== verification/Targets.thy ===== *)
theory Targets
  imports Policy
begin

text \<open>
  Block-target selection, \<^verbatim>\<open>ccs-policy/src/targets.rs\<close>: which blocks of a segment the
  splice may overwrite.
\<close>

section \<open>Targets\<close>

record SegmentTarget =
  tg_message :: nat
  tg_block :: "nat option"

datatype ReplacementKind = StringContent | RToolResult (rk_tool_use_id: str) (rk_is_error: bool) | TextBlock

record BlockTarget =
  bt_target :: SegmentTarget
  bt_original_len :: nat
  bt_original_tokens :: TokenCount
  bt_kind :: ReplacementKind

definition MIN_BLOCK_SPAN :: nat where "MIN_BLOCK_SPAN = 256"

definition message_index :: "MessageId \<Rightarrow> nat option" where
  "message_index u = parse_usize (message_str u)"

definition ToolResultContent_rendered :: "ToolResultContent \<Rightarrow> str" where
  "ToolResultContent_rendered c = (case c of TRText text \<Rightarrow> text | TRBlocks bs \<Rightarrow> concat bs | TREmpty \<Rightarrow> [])"

definition single_message :: "WireBody \<Rightarrow> Segment \<Rightarrow> (nat \<times> MessageContent) option" where
  "single_message body seg = (case source_uuids seg of
      [uuid] \<Rightarrow> Option.bind (message_index uuid)
        (\<lambda>m. map_option (\<lambda>w. (m, content w)) (nth_opt (messages body) m))
    | _ \<Rightarrow> None)"

definition string_target :: "nat \<Rightarrow> RawValue \<Rightarrow> str \<Rightarrow> BlockTarget list" where
  "string_target message raw text =
     (if MIN_BLOCK_SPAN < str_len raw
      then [\<lparr>bt_target = \<lparr>tg_message = message, tg_block = None\<rparr>, bt_original_len = str_len raw,
             bt_original_tokens = estimate_chars_proxy text, bt_kind = StringContent\<rparr>]
      else [])"

definition tool_result_target :: "serde \<Rightarrow> nat \<Rightarrow> nat \<Rightarrow> ContentBlock \<Rightarrow> BlockTarget option" where
  "tool_result_target J message block_index block =
     (case tool_use_id J block of None \<Rightarrow> None
      | Some tid \<Rightarrow> (case js_tool_result J (braw block) of None \<Rightarrow> None
        | Some trf \<Rightarrow>
            if MIN_BLOCK_SPAN < str_len (braw block)
            then Some \<lparr>bt_target = \<lparr>tg_message = message, tg_block = Some block_index\<rparr>,
                   bt_original_len = str_len (braw block),
                   bt_original_tokens = estimate_chars_proxy (ToolResultContent_rendered (trf_content trf)),
                   bt_kind = RToolResult tid (case trf_is_error trf of None \<Rightarrow> False | Some b \<Rightarrow> b)\<rparr>
            else None))"

definition block_target :: "serde \<Rightarrow> nat \<Rightarrow> nat \<Rightarrow> ContentBlock \<Rightarrow> BlockTarget option" where
  "block_target J message block_index block = (case block of
      BToolResult _ \<Rightarrow> tool_result_target J message block_index block
    | BText raw \<Rightarrow>
        if MIN_BLOCK_SPAN < str_len raw
        then Some \<lparr>bt_target = \<lparr>tg_message = message, tg_block = Some block_index\<rparr>,
               bt_original_len = str_len raw,
               bt_original_tokens = estimate_chars_proxy (case js_text_field J raw of None \<Rightarrow> [] | Some t \<Rightarrow> t),
               bt_kind = TextBlock\<rparr>
        else None
    | _ \<Rightarrow> None)"

definition block_targets :: "serde \<Rightarrow> WireBody \<Rightarrow> nat \<Rightarrow> BlockTarget list" where
  "block_targets J body message = (case nth_opt (messages body) message of
      None \<Rightarrow> []
    | Some w \<Rightarrow> filter_map (\<lambda>(b, block). block_target J message b block)
                  (enumerate 0 (blocks (content w))))"

definition tool_result_targets :: "serde \<Rightarrow> WireBody \<Rightarrow> nat \<Rightarrow> BlockTarget list" where
  "tool_result_targets J body message = (case nth_opt (messages body) message of
      None \<Rightarrow> []
    | Some w \<Rightarrow> filter_map (\<lambda>(b, block). case block of
                    BToolResult _ \<Rightarrow> tool_result_target J message b block
                  | _ \<Rightarrow> None)
                  (enumerate 0 (blocks (content w))))"

definition is_user_message :: "WireBody \<Rightarrow> nat \<Rightarrow> bool" where
  "is_user_message body m = (map_option role (nth_opt (messages body) m) = Some RoleUser)"

definition squash_targets :: "serde \<Rightarrow> WireBody \<Rightarrow> Segment \<Rightarrow> BlockTarget list" where
  "squash_targets J body seg = (
     if kind seg = ToolPair
     then concat (map (tool_result_targets J body)
            (filter (is_user_message body) (filter_map message_index (source_uuids seg))))
     else if kind seg = AssistantTurn \<or> kind seg = UserTurn
     then (case single_message body seg of
             Some (m, MText raw text) \<Rightarrow> string_target m raw text
           | Some (m, MBlocks _) \<Rightarrow> block_targets J body m
           | None \<Rightarrow> [])
     else (case single_message body seg of
             Some (m, MText raw text) \<Rightarrow> string_target m raw text
           | _ \<Rightarrow> []))"

section \<open>What a target may be\<close>

text \<open>A target is in range and its span is what it claims: the whole string content, a text block
  or a tool result, and larger than the floor.\<close>

definition target_ok :: "serde \<Rightarrow> WireBody \<Rightarrow> BlockTarget \<Rightarrow> bool" where
  "target_ok J body t = (
     MIN_BLOCK_SPAN < bt_original_len t \<and> tg_message (bt_target t) < length (messages body) \<and>
     (case (bt_kind t, tg_block (bt_target t), content (messages body ! tg_message (bt_target t))) of
        (StringContent, None, MText raw _) \<Rightarrow> bt_original_len t = str_len raw
      | (RToolResult tid _, Some b, MBlocks bs) \<Rightarrow> b < length bs \<and> is_tool_result (bs ! b) \<and>
          tool_use_id J (bs ! b) = Some tid \<and> bt_original_len t = str_len (braw (bs ! b))
      | (TextBlock, Some b, MBlocks bs) \<Rightarrow> b < length bs \<and> bs ! b = BText (braw (bs ! b)) \<and>
          bt_original_len t = str_len (braw (bs ! b))
      | _ \<Rightarrow> False))"

lemma nth_opt_Some [simp]: "nth_opt xs i = Some x \<longleftrightarrow> i < length xs \<and> x = xs ! i"
  by (auto simp: nth_opt_def)

lemma string_target_ok:
  "m < length (messages body) \<Longrightarrow> content (messages body ! m) = MText raw text \<Longrightarrow>
     t \<in> set (string_target m raw text) \<Longrightarrow> target_ok J body t"
  by (auto simp: string_target_def target_ok_def split: if_splits)

lemma tool_result_target_ok:
  assumes "m < length (messages body)" "content (messages body ! m) = MBlocks bs" "b < length bs"
    "bs ! b = BToolResult raw" "tool_result_target J m b (bs ! b) = Some t"
  shows "target_ok J body t"
  using assms by (auto simp: tool_result_target_def target_ok_def is_tool_result_def split: option.splits if_splits)

lemma block_target_ok:
  assumes "m < length (messages body)" "content (messages body ! m) = MBlocks bs" "b < length bs"
    "block_target J m b (bs ! b) = Some t"
  shows "target_ok J body t"
proof (cases "bs ! b")
  case (BToolResult raw)
  then show ?thesis using assms tool_result_target_ok by (simp add: block_target_def)
next
  case (BText raw)
  then show ?thesis using assms by (auto simp: block_target_def target_ok_def split: if_splits)
qed (use assms in \<open>simp_all add: block_target_def\<close>)

lemma block_targets_ok:
  assumes "t \<in> set (block_targets J body m)"
  shows "target_ok J body t"
proof -
  obtain b where "m < length (messages body)" "b < length (blocks (content (messages body ! m)))"
    "block_target J m b (blocks (content (messages body ! m)) ! b) = Some t"
    using assms by (auto simp: block_targets_def nth_opt_def set_filter_map in_set_enumerate_eq split: if_splits)
  then show ?thesis
    by (cases "content (messages body ! m)") (auto intro: block_target_ok)
qed

lemma tool_result_targets_ok:
  assumes "t \<in> set (tool_result_targets J body m)"
  shows "target_ok J body t \<and> tg_message (bt_target t) = m"
proof -
  obtain b raw where *: "m < length (messages body)" "b < length (blocks (content (messages body ! m)))"
    "blocks (content (messages body ! m)) ! b = BToolResult raw"
    "tool_result_target J m b (blocks (content (messages body ! m)) ! b) = Some t"
    using assms
    by (auto simp: tool_result_targets_def nth_opt_def set_filter_map in_set_enumerate_eq
        split: if_splits ContentBlock.splits)
  then have "target_ok J body t"
    by (cases "content (messages body ! m)") (auto intro: tool_result_target_ok)
  moreover have "tg_message (bt_target t) = m"
    using * by (auto simp: tool_result_target_def split: option.splits if_splits)
  ultimately show ?thesis by simp
qed

lemma single_message_Some:
  "single_message body seg = Some (m, c) \<Longrightarrow> m < length (messages body) \<and> content (messages body ! m) = c"
  by (auto simp: single_message_def split: list.splits option.splits bind_splits)

lemma squash_targets_ok:
  assumes "t \<in> set (squash_targets J body seg)"
  shows "target_ok J body t \<and>
    (kind seg = ToolPair \<longrightarrow> role (messages body ! tg_message (bt_target t)) = RoleUser)"
proof (cases "kind seg = ToolPair")
  case True
  then obtain m where "is_user_message body m" "t \<in> set (tool_result_targets J body m)"
    using assms by (auto simp: squash_targets_def)
  then show ?thesis using tool_result_targets_ok by (auto simp: is_user_message_def)
next
  case False
  then obtain m c where mc: "single_message body seg = Some (m, c)"
    using assms by (cases "single_message body seg") (auto simp: squash_targets_def split: if_splits)
  with single_message_Some[OF mc] show ?thesis using assms False
    by (cases c) (auto simp: squash_targets_def split: if_splits dest: string_target_ok block_targets_ok)
qed

section \<open>Properties\<close>

text \<open>C24: the splice can only ever be pointed at safe blocks: every target of a segment is in range,
  spans more than 256 bytes, and is either a whole string content, a text block or a tool result
  with its own pairing id and length recorded; in a tool pair it is in the user message.  So the
  thinking, redacted-thinking, tool-use and server-tool blocks of a message are never targets.\<close>

theorem squash_targets_are_safe:
  assumes "t \<in> set (squash_targets J body seg)"
  shows "target_ok J body t \<and>
    (kind seg = ToolPair \<longrightarrow> role (messages body ! tg_message (bt_target t)) = RoleUser) \<and>
    (\<forall>b raw. tg_block (bt_target t) = Some b \<longrightarrow>
       blocks (content (messages body ! tg_message (bt_target t))) ! b \<notin>
         {BThinking raw, BRedactedThinking raw, BToolUse raw, BServerToolUse raw, BServerToolResult raw})"
  using squash_targets_ok[OF assms]
  by (auto simp: target_ok_def is_tool_result_def split: ReplacementKind.splits option.splits MessageContent.splits)

definition big_body :: WireBody where
  "big_body = demo_body\<lparr>messages := [\<lparr>role = RoleAssistant, content = MText (replicate 300 97) (replicate 298 97)\<rparr>]\<rparr>"

theorem squash_targets_are_safe_witness:
  "\<exists>t. squash_targets demo_serde big_body
        (demo_segment 0 AssistantTurn\<lparr>source_uuids := [message_id 0]\<rparr>) = [t] \<and> target_ok demo_serde big_body t"
proof -
  let ?seg = "demo_segment 0 AssistantTurn\<lparr>source_uuids := [message_id 0]\<rparr>"
  have len: "str_len (replicate 300 97) = 300" by (subst str_len_ascii) auto
  have "\<exists>t. squash_targets demo_serde big_body ?seg = [t]"
    by (simp add: squash_targets_def single_message_def message_index_def message_id_def parse_usize_dec
        big_body_def demo_segment_def nth_opt_def string_target_def MIN_BLOCK_SPAN_def len)
  then show ?thesis using squash_targets_are_safe by (metis list.set_intros(1))
qed

end
