(* ===== verification/Std_Text.thy ===== *)
theory Std_Text
  imports Prelude
begin

text \<open>
  The text functions of the standard library that the recode passes call: \<^verbatim>\<open>str::lines\<close>,
  \<^verbatim>\<open>join\<close>, \<^verbatim>\<open>char::is_control\<close>, slicing at a byte offset, with the
  lemmas on them.
\<close>

section \<open>Lines\<close>

text \<open>\<^verbatim>\<open>lines\<close> splits after every line feed; a carriage return right before the line feed
  goes with it, and a last line without a line feed is a line when it is not empty.\<close>

definition strip_cr :: "str \<Rightarrow> str" where
  "strip_cr line = (if line \<noteq> [] \<and> last line = 13 then butlast line else line)"

fun lines_from :: "str \<Rightarrow> str \<Rightarrow> str list" where
  "lines_from cur [] = (if cur = [] then [] else [cur])"
| "lines_from cur (c # s) = (if c = 10 then strip_cr cur # lines_from [] s else lines_from (cur @ [c]) s)"

definition lines :: "str \<Rightarrow> str list" where
  "lines s = lines_from [] s"

definition join_lines :: "str list \<Rightarrow> str" where
  "join_lines ls = (case ls of [] \<Rightarrow> [] | l # rest \<Rightarrow> l @ concat (map (\<lambda>x. 10 # x) rest))"

definition ends_with_newline :: "str \<Rightarrow> bool" where
  "ends_with_newline s = (s \<noteq> [] \<and> last s = 10)"

lemma lines_from_append: "10 \<notin> set l \<Longrightarrow> lines_from cur (l @ s) = lines_from (cur @ l) s"
  by (induction l arbitrary: cur) auto

lemma lines_newline: "10 \<notin> set l \<Longrightarrow> lines (l @ 10 # s) = strip_cr l # lines s"
  by (simp add: lines_def lines_from_append)

lemma lines_last: "10 \<notin> set l \<Longrightarrow> lines l = (if l = [] then [] else [l])"
  using lines_from_append[of l "[]" "[]"] by (simp add: lines_def)

lemma lines_Nil [simp]: "lines [] = []"
  by (simp add: lines_def)

lemma str_lines_cases:
  obtains "10 \<notin> set s" | l r where "10 \<notin> set l" "s = l @ 10 # r"
  using split_list_first[of 10 s] by blast

lemma strip_cr_id: "13 \<notin> set l \<Longrightarrow> strip_cr l = l"
  by (auto simp: strip_cr_def) (metis last_in_set)

text \<open>The lines of terminated lines are those lines; so are those of joined lines.\<close>

definition line_ok :: "str \<Rightarrow> bool" where
  "line_ok l = (10 \<notin> set l \<and> 13 \<notin> set l)"

definition unlines :: "str list \<Rightarrow> str" where
  "unlines ls = concat (map (\<lambda>l. l @ [10]) ls)"

lemma unlines_simps [simp]: "unlines [] = []" "unlines (l # ls) = l @ 10 # unlines ls"
  "unlines (ls @ ls') = unlines ls @ unlines ls'"
  by (simp_all add: unlines_def)

lemma lines_unlines: "list_all line_ok ls \<Longrightarrow> lines (unlines ls @ s) = ls @ lines s"
  by (induction ls) (simp_all add: lines_newline line_ok_def strip_cr_id)

text \<open>A string without carriage returns is its lines, terminated, but for the last line feed.\<close>

lemma unlines_lines:
  assumes "13 \<notin> set s"
  shows "unlines (lines s) = (if s = [] \<or> ends_with_newline s then s else s @ [10]) \<and>
    list_all line_ok (lines s)"
  using assms
proof (induction "length s" arbitrary: s rule: less_induct)
  case less
  show ?case
  proof (cases s rule: str_lines_cases)
    case 1
    then show ?thesis using less.prems
      by (auto simp: lines_last ends_with_newline_def line_ok_def) (metis last_in_set)
  next
    case (2 l r)
    then have "unlines (lines r) = (if r = [] \<or> ends_with_newline r then r else r @ [10]) \<and> list_all line_ok (lines r)"
      using less.hyps[of r] less.prems by auto
    with 2 show ?thesis using less.prems
      by (auto simp: lines_newline strip_cr_id ends_with_newline_def line_ok_def)
  qed
qed

lemma lines_nonempty: "s \<noteq> [] \<Longrightarrow> lines s \<noteq> []"
  by (cases s rule: str_lines_cases) (auto simp: lines_newline lines_last)

section \<open>Lengths and subsequences\<close>

lemma str_len_subseq: "subseq a b \<Longrightarrow> str_len a \<le> str_len b"
proof (induction rule: list_emb.induct)
  case (list_emb_Cons2 x y xs ys)
  then show ?case by simp
qed simp_all

lemma subseq_same_str_len: "subseq a b \<Longrightarrow> str_len b \<le> str_len a \<Longrightarrow> a = b"
proof (induction rule: list_emb.induct)
  case (list_emb_Cons xs ys y)
  then show ?case using str_len_subseq[of xs ys] utf8_width_pos(1)[of y] by simp
qed simp_all

lemma subseq_set: "subseq a b \<Longrightarrow> set a \<subseteq> set b"
  by (induction rule: list_emb.induct) auto

lemma trim_end_prefix: "prefix (trim_end s) s"
  unfolding trim_end_def prefix_def
  by (metis rev_append rev_rev_ident takeWhile_dropWhile_id)

lemma trim_end_idem [simp]: "trim_end (trim_end s) = trim_end s"
proof -
  have "dropWhile P (dropWhile P xs) = dropWhile P xs" for P :: "nat \<Rightarrow> bool" and xs
    by (induction xs) auto
  then show ?thesis by (simp add: trim_end_def)
qed

lemma trim_end_last: "trim_end s \<noteq> [] \<Longrightarrow> \<not> is_whitespace (last (trim_end s))"
  using hd_dropWhile[of is_whitespace "rev s"] by (simp add: trim_end_def last_rev)

section \<open>Slicing\<close>

text \<open>\<^verbatim>\<open>&s[..n]\<close> and \<^verbatim>\<open>&s[n..]\<close>: the byte offset must fall between two
  characters, otherwise the slice panics (\<open>None\<close>).\<close>

fun split_at_byte :: "nat \<Rightarrow> str \<Rightarrow> (str \<times> str) option" where
  "split_at_byte n s =
     (if n = 0 then Some ([], s)
      else case s of [] \<Rightarrow> None
        | c # r \<Rightarrow> if n < utf8_width c then None
                 else map_option (\<lambda>(a, b). (c # a, b)) (split_at_byte (n - utf8_width c) r))"

declare split_at_byte.simps [simp del]

lemma split_at_byte_0 [simp]: "split_at_byte 0 s = Some ([], s)"
  by (simp add: split_at_byte.simps)

lemma split_at_byte_append [simp]: "split_at_byte (str_len a) (a @ b) = Some (a, b)"
proof (induction a)
  case (Cons c a)
  have "utf8_width c \<noteq> 0" using utf8_width_pos(1)[of c] by simp
  with Cons show ?case by (simp add: split_at_byte.simps[of "utf8_width c + str_len a"])
qed simp

lemma split_at_byte_Some: "split_at_byte n s = Some (a, b) \<Longrightarrow> s = a @ b \<and> n = str_len a"
  by (induction n s arbitrary: a b rule: split_at_byte.induct)
     (subst (asm) (2) split_at_byte.simps, auto split: if_splits list.splits)

end
