(* ===== verification/Recode.thy ===== *)
theory Recode
  imports Pipeline Targets Std_Text
begin

text \<open>
  The plumbing of the deterministic recode passes, \<^verbatim>\<open>pipeline/passes/recode.rs\<close>: the one
  string of a segment a pass may rewrite, threaded through the ledger, and the two shapes of
  proposal.  The locale \<open>leaf_refiner\<close> states what the chain relies on of a pass: it only ever
  shrinks the leaf it is given, and either rewrites it without loss, carrying on what the chain has
  stored, or stores the bytes it was given unless the chain has stored some already.
\<close>

section \<open>Leaves\<close>

definition MIN_RECODE_SPAN :: nat where "MIN_RECODE_SPAN = 256"

record RecodeLeaf =
  lf_content :: str
  lf_original_tokens :: u32
  lf_carried_ref :: "nat list option"

definition tool_result_text :: "serde \<Rightarrow> RawValue \<Rightarrow> str option" where
  "tool_result_text J raw = (case js_result_content J raw of
      Some (RCText text) \<Rightarrow> Some text | Some RCOther \<Rightarrow> None | None \<Rightarrow> None)"

definition text_block_string :: "serde \<Rightarrow> ContentBlock \<Rightarrow> str option" where
  "text_block_string J block = (case block of BText raw \<Rightarrow> js_text_field J raw | _ \<Rightarrow> None)"

definition tool_result_strings :: "serde \<Rightarrow> WireBody \<Rightarrow> nat \<Rightarrow> str list" where
  "tool_result_strings J body message = (case nth_opt (messages body) message of
      None \<Rightarrow> []
    | Some w \<Rightarrow> filter_map (\<lambda>block. case block of BToolResult raw \<Rightarrow> tool_result_text J raw | _ \<Rightarrow> None)
                  (blocks (content w)))"

definition single_content :: "WireBody \<Rightarrow> Segment \<Rightarrow> MessageContent option" where
  "single_content body seg = (case source_uuids seg of
      [uuid] \<Rightarrow> Option.bind (parse_usize (message_str uuid))
        (\<lambda>m. map_option content (nth_opt (messages body) m))
    | _ \<Rightarrow> None)"

definition user_messages :: "WireBody \<Rightarrow> Segment \<Rightarrow> nat list" where
  "user_messages body seg = filter (\<lambda>m. map_option role (nth_opt (messages body) m) = Some RoleUser)
     (filter_map (\<lambda>u. parse_usize (message_str u)) (source_uuids seg))"

definition leaf_strings :: "serde \<Rightarrow> WireBody \<Rightarrow> Segment \<Rightarrow> str list" where
  "leaf_strings J body seg = (
     if kind seg = ToolPair
     then concat (map (tool_result_strings J body) (user_messages body seg))
     else if kind seg = AssistantTurn \<or> kind seg = UserTurn
     then (case single_content body seg of
             Some (MText _ text) \<Rightarrow> [text]
           | Some (MBlocks bs) \<Rightarrow> filter_map (text_block_string J) bs
           | None \<Rightarrow> [])
     else (case single_content body seg of
             Some (MText _ text) \<Rightarrow> [text]
           | _ \<Rightarrow> []))"

definition sole_squash_target :: "WireBody \<Rightarrow> Segment \<Rightarrow> bool" where
  "sole_squash_target body seg = (
     if kind seg = ToolPair
     then length (filter (\<lambda>b. is_tool_result b \<and> MIN_BLOCK_SPAN < str_len (braw b))
            (concat (map (\<lambda>m. case nth_opt (messages body) m of None \<Rightarrow> [] | Some w \<Rightarrow> blocks (content w))
              (user_messages body seg)))) = 1
     else True)"

definition raw_leaf :: "serde \<Rightarrow> WireBody \<Rightarrow> Segment \<Rightarrow> RecodeLeaf option" where
  "raw_leaf J body seg = (case leaf_strings J body seg of
      [one] \<Rightarrow>
        if MIN_RECODE_SPAN < str_len one \<and> sole_squash_target body seg
        then Some \<lparr>lf_content = one, lf_original_tokens = estimate_chars_proxy one, lf_carried_ref = None\<rparr>
        else None
    | _ \<Rightarrow> None)"

definition raw_recode_leaf :: "serde \<Rightarrow> WireBody \<Rightarrow> Segment \<Rightarrow> RecodeLeaf option" where
  "raw_recode_leaf J body seg = (if pinned seg \<or> is_true_human seg then None else raw_leaf J body seg)"

definition recode_leaf :: "serde \<Rightarrow> WireBody \<Rightarrow> Segment \<Rightarrow> PlanLedger \<Rightarrow> RecodeLeaf option" where
  "recode_leaf J body seg ledger =
     (if pinned seg \<or> is_true_human seg then None
      else case proposal_for ledger (index seg) of
          Some p \<Rightarrow> (case pr_strategy p of
              SRecode c _ \<Rightarrow> Some \<lparr>lf_content = c, lf_original_tokens = estimate_chars_proxy c,
                                 lf_carried_ref = pr_needs_ref p\<rparr>
            | _ \<Rightarrow> None)
        | None \<Rightarrow> raw_leaf J body seg)"

section \<open>Proposals\<close>

definition inline_recode :: "Segment \<Rightarrow> RecodeLeaf \<Rightarrow> str \<Rightarrow> PassId \<Rightarrow> Proposal option" where
  "inline_recode seg leaf transformed pid =
     (if str_len transformed < str_len (lf_content leaf)
      then Some \<lparr>pr_seg_index = index seg, pr_strategy = SRecode transformed None, pr_ref_id = None,
             pr_needs_ref = lf_carried_ref leaf,
             pr_net_removed = i64_of_u32 (lf_original_tokens leaf) - i64_of_u32 (estimate_chars_proxy transformed),
             pr_quality_gain = Fin 0, pr_by = pid\<rparr>
      else None)"

definition ref_recode :: "Segment \<Rightarrow> RecodeLeaf \<Rightarrow> str \<Rightarrow> nat list \<Rightarrow> PassId \<Rightarrow> Proposal option" where
  "ref_recode seg leaf transformed original pid =
     (if str_len transformed < str_len (lf_content leaf)
      then Some \<lparr>pr_seg_index = index seg, pr_strategy = SRecode transformed None, pr_ref_id = None,
             pr_needs_ref = Some (case lf_carried_ref leaf of Some b \<Rightarrow> b | None \<Rightarrow> original),
             pr_net_removed = i64_of_u32 (lf_original_tokens leaf) - i64_of_u32 (estimate_chars_proxy transformed),
             pr_quality_gain = Fin 0, pr_by = pid\<rparr>
      else None)"

text \<open>The loop the passes share: for every segment, refine its current leaf and insert what comes
  back.\<close>

definition refine_segment ::
  "serde \<Rightarrow> (Segment \<Rightarrow> RecodeLeaf \<Rightarrow> Proposal option) \<Rightarrow> WireBody \<Rightarrow> Segment \<Rightarrow> PlanLedger \<Rightarrow> PlanLedger" where
  "refine_segment J refine body seg ledger = (case recode_leaf J body seg ledger of
      None \<Rightarrow> ledger
    | Some leaf \<Rightarrow> (case refine seg leaf of None \<Rightarrow> ledger | Some p \<Rightarrow> upsert_proposal p ledger))"

definition for_each_leaf ::
  "serde \<Rightarrow> (Segment \<Rightarrow> RecodeLeaf \<Rightarrow> Proposal option) \<Rightarrow> PassCtx \<Rightarrow> PlanLedger \<Rightarrow>
     (PlanLedger \<times> PassControl) option" where
  "for_each_leaf J refine ctx ledger =
     Some (fold (refine_segment J refine (cx_body ctx)) (cx_segments ctx) ledger, Continue)"

text \<open>The same loop for a transform that slices strings and so could panic.\<close>

fun try_segments ::
  "serde \<Rightarrow> (Segment \<Rightarrow> RecodeLeaf \<Rightarrow> Proposal option option) \<Rightarrow> WireBody \<Rightarrow> Segment list \<Rightarrow> PlanLedger \<Rightarrow>
     PlanLedger option" where
  "try_segments J refine body [] ledger = Some ledger"
| "try_segments J refine body (seg # segs) ledger = (case recode_leaf J body seg ledger of
      None \<Rightarrow> try_segments J refine body segs ledger
    | Some leaf \<Rightarrow> (case refine seg leaf of
          None \<Rightarrow> None
        | Some None \<Rightarrow> try_segments J refine body segs ledger
        | Some (Some p) \<Rightarrow> try_segments J refine body segs (upsert_proposal p ledger)))"

definition try_each_leaf ::
  "serde \<Rightarrow> (Segment \<Rightarrow> RecodeLeaf \<Rightarrow> Proposal option option) \<Rightarrow> PassCtx \<Rightarrow> PlanLedger \<Rightarrow>
     (PlanLedger \<times> PassControl) option" where
  "try_each_leaf J refine ctx ledger =
     map_option (\<lambda>l. (l, Continue)) (try_segments J refine (cx_body ctx) (cx_segments ctx) ledger)"

lemma try_each_leaf_total:
  assumes "\<And>seg leaf. refine seg leaf = Some (g seg leaf)"
  shows "try_each_leaf J refine ctx l = for_each_leaf J g ctx l"
proof -
  have "try_segments J refine body segs l = Some (fold (refine_segment J g body) segs l)" for body segs
    by (induction segs arbitrary: l) (auto simp: refine_segment_def assms split: option.splits)
  then show ?thesis by (simp add: try_each_leaf_def for_each_leaf_def)
qed

section \<open>What a chain keeps\<close>

text \<open>A leaf state is the content a segment currently shows and the bytes stored for it.  It is
  recoverable when the content, or the stored bytes where there are any, are the raw leaf up to the
  lossless rewrites \<open>inl\<close>.\<close>

definition recoverable :: "(str \<Rightarrow> str \<Rightarrow> bool) \<Rightarrow> str \<Rightarrow> str \<Rightarrow> nat list option \<Rightarrow> bool" where
  "recoverable inl raw c stored = (\<exists>s. inl\<^sup>*\<^sup>* raw s \<and> str_len c \<le> str_len s \<and> str_len s \<le> str_len raw \<and>
     stored = (if stored = None then None else Some (utf8 s)) \<and> (stored = None \<longrightarrow> c = s))"

definition proposal_recoverable ::
  "serde \<Rightarrow> (str \<Rightarrow> str \<Rightarrow> bool) \<Rightarrow> WireBody \<Rightarrow> Segment list \<Rightarrow> Proposal \<Rightarrow> bool" where
  "proposal_recoverable J inl body segs p = (\<exists>seg leaf c. seg \<in> set segs \<and> index seg = pr_seg_index p \<and>
     raw_recode_leaf J body seg = Some leaf \<and> pr_strategy p = SRecode c None \<and> pr_ref_id p = None \<and>
     str_len c < str_len (lf_content leaf) \<and> recoverable inl (lf_content leaf) c (pr_needs_ref p))"

definition recode_inv :: "serde \<Rightarrow> (str \<Rightarrow> str \<Rightarrow> bool) \<Rightarrow> PassCtx \<Rightarrow> PlanLedger \<Rightarrow> bool" where
  "recode_inv J inl ctx l = (distinct (map index (cx_segments ctx)) \<and> ledger_ok l \<and>
     (\<forall>i p. proposal_for l i = Some p \<longrightarrow> proposal_recoverable J inl (cx_body ctx) (cx_segments ctx) p))"

lemma raw_leaf_Some:
  "raw_leaf J body seg = Some leaf \<Longrightarrow> lf_carried_ref leaf = None \<and> MIN_RECODE_SPAN < str_len (lf_content leaf)"
  by (auto simp: raw_leaf_def split: list.splits if_splits)

lemma raw_recode_leaf_Some:
  "raw_recode_leaf J body seg = Some leaf \<Longrightarrow> \<not> pinned seg \<and> \<not> is_true_human seg \<and> raw_leaf J body seg = Some leaf"
  by (auto simp: raw_recode_leaf_def split: if_splits)

lemma recoverable_raw: "recoverable inl raw raw None"
  by (auto simp: recoverable_def)

lemma recoverable_inline:
  assumes "recoverable inl raw c stored" "inl c c'" "str_len c' < str_len c"
  shows "recoverable inl raw c' stored"
proof (cases stored)
  case None
  then have "inl\<^sup>*\<^sup>* raw c'" "str_len c \<le> str_len raw" using assms(1,2) by (auto simp: recoverable_def)
  then show ?thesis using None assms(3) by (auto simp: recoverable_def)
next
  case (Some b)
  then show ?thesis using assms by (auto simp: recoverable_def intro: less_imp_le_nat le_trans)
qed

lemma recoverable_stored:
  assumes "recoverable inl raw c stored" "str_len c' < str_len c"
  shows "recoverable inl raw c' (Some (case stored of Some b \<Rightarrow> b | None \<Rightarrow> utf8 c))"
  using assms by (cases stored) (auto simp: recoverable_def intro: less_imp_le_nat le_trans)

text \<open>The leaf a pass is given is in a recoverable state whenever the ledger is.\<close>

lemma recode_leaf_state:
  assumes inv: "recode_inv J inl ctx l" and seg: "seg \<in> set (cx_segments ctx)"
    and leaf: "recode_leaf J (cx_body ctx) seg l = Some leaf"
  shows "\<exists>leaf0. raw_recode_leaf J (cx_body ctx) seg = Some leaf0 \<and>
    str_len (lf_content leaf) \<le> str_len (lf_content leaf0) \<and>
    recoverable inl (lf_content leaf0) (lf_content leaf) (lf_carried_ref leaf)"
proof (cases "proposal_for l (index seg)")
  case None
  then show ?thesis using leaf raw_leaf_Some[of J "cx_body ctx" seg leaf] recoverable_raw
    by (auto simp: recode_leaf_def raw_recode_leaf_def split: if_splits)
next
  case (Some p)
  then have "proposal_recoverable J inl (cx_body ctx) (cx_segments ctx) p" using inv by (auto simp: recode_inv_def)
  then obtain seg' leaf0 c where *: "seg' \<in> set (cx_segments ctx)" "index seg' = pr_seg_index p"
    "raw_recode_leaf J (cx_body ctx) seg' = Some leaf0" "pr_strategy p = SRecode c None"
    "str_len c < str_len (lf_content leaf0)" "recoverable inl (lf_content leaf0) c (pr_needs_ref p)"
    unfolding proposal_recoverable_def by blast
  have "index seg' = index seg" using * ledger.lookup_index[OF Some] by simp
  then have "seg' = seg" using inv seg *(1) by (auto simp: recode_inv_def distinct_map inj_on_def)
  then show ?thesis using * Some leaf by (auto simp: recode_leaf_def split: if_splits)
qed

lemma recode_inv_upsert:
  assumes "recode_inv J inl ctx l" "proposal_recoverable J inl (cx_body ctx) (cx_segments ctx) p"
  shows "recode_inv J inl ctx (upsert_proposal p l)"
  using assms ledger.inv_upsert ledger.lookup_upsert by (auto simp: recode_inv_def split: if_splits)

section \<open>The contract of a refining pass\<close>

locale leaf_refiner =
  fixes inl :: "str \<Rightarrow> str \<Rightarrow> bool" and refine :: "Segment \<Rightarrow> RecodeLeaf \<Rightarrow> Proposal option"
  assumes refine_shape: "refine seg leaf = Some p \<Longrightarrow> \<exists>c. pr_strategy p = SRecode c None \<and>
      str_len c < str_len (lf_content leaf) \<and> pr_seg_index p = index seg \<and> pr_ref_id p = None \<and>
      (pr_needs_ref p = lf_carried_ref leaf \<and> inl (lf_content leaf) c \<or>
       pr_needs_ref p = Some (case lf_carried_ref leaf of Some b \<Rightarrow> b | None \<Rightarrow> utf8 (lf_content leaf)))"
begin

lemma refine_recoverable:
  assumes inv: "recode_inv J inl ctx l" and seg: "seg \<in> set (cx_segments ctx)"
    and leaf: "recode_leaf J (cx_body ctx) seg l = Some leaf" and p: "refine seg leaf = Some p"
  shows "proposal_recoverable J inl (cx_body ctx) (cx_segments ctx) p"
proof -
  obtain leaf0 where leaf0: "raw_recode_leaf J (cx_body ctx) seg = Some leaf0"
    "str_len (lf_content leaf) \<le> str_len (lf_content leaf0)"
    "recoverable inl (lf_content leaf0) (lf_content leaf) (lf_carried_ref leaf)"
    using recode_leaf_state[OF inv seg leaf] by blast
  obtain c where c: "pr_strategy p = SRecode c None" "str_len c < str_len (lf_content leaf)"
    "pr_seg_index p = index seg" "pr_ref_id p = None"
    "pr_needs_ref p = lf_carried_ref leaf \<and> inl (lf_content leaf) c \<or>
       pr_needs_ref p = Some (case lf_carried_ref leaf of Some b \<Rightarrow> b | None \<Rightarrow> utf8 (lf_content leaf))"
    using refine_shape[OF p] by blast
  have "recoverable inl (lf_content leaf0) c (pr_needs_ref p)"
    using c(5) recoverable_inline[OF leaf0(3) _ c(2)] recoverable_stored[OF leaf0(3) c(2)] by auto
  then show ?thesis unfolding proposal_recoverable_def
    using seg leaf0 c(1-4) by (intro exI[of _ seg] exI[of _ leaf0] exI[of _ c]) auto
qed

lemma refine_segments_keep:
  "recode_inv J inl ctx l \<Longrightarrow> set segs \<subseteq> set (cx_segments ctx) \<Longrightarrow>
     recode_inv J inl ctx (fold (refine_segment J refine (cx_body ctx)) segs l)"
proof (induction segs arbitrary: l)
  case (Cons seg segs)
  have "recode_inv J inl ctx (refine_segment J refine (cx_body ctx) seg l)"
  proof (cases "recode_leaf J (cx_body ctx) seg l")
    case (Some leaf)
    then show ?thesis using Cons.prems refine_recoverable[OF Cons.prems(1) _ Some] recode_inv_upsert
      by (auto simp: refine_segment_def split: option.splits)
  qed (use Cons.prems in \<open>simp add: refine_segment_def\<close>)
  then show ?case using Cons by simp
qed simp

lemma for_each_leaf_keeps:
  "recode_inv J inl ctx l \<Longrightarrow> \<exists>l'. for_each_leaf J refine ctx l = Some (l', Continue) \<and> recode_inv J inl ctx l'"
  by (simp add: for_each_leaf_def refine_segments_keep)

end

text \<open>Every segment is refined on its own: after the loop, a segment's proposal is what refining
  its leaf gave, or the one it had.\<close>

definition refined ::
  "serde \<Rightarrow> (Segment \<Rightarrow> RecodeLeaf \<Rightarrow> Proposal option) \<Rightarrow> WireBody \<Rightarrow> Segment \<Rightarrow> PlanLedger \<Rightarrow> Proposal option" where
  "refined J refine body seg l = (case recode_leaf J body seg l of
      None \<Rightarrow> proposal_for l (index seg)
    | Some leaf \<Rightarrow> (case refine seg leaf of None \<Rightarrow> proposal_for l (index seg) | Some p \<Rightarrow> Some p))"

lemma recode_leaf_cong:
  "proposal_for l (index seg) = proposal_for l' (index seg) \<Longrightarrow> recode_leaf J body seg l = recode_leaf J body seg l'"
  by (simp add: recode_leaf_def)

lemma refine_segment_lookup:
  assumes "\<And>leaf p. refine seg leaf = Some p \<Longrightarrow> pr_seg_index p = index seg" "ledger_ok l"
  shows "ledger_ok (refine_segment J refine body seg l)"
    "proposal_for (refine_segment J refine body seg l) i =
       (if i = index seg then refined J refine body seg l else proposal_for l i)"
  using assms ledger.inv_upsert ledger.lookup_upsert
  by (auto simp: refine_segment_def refined_def split: option.splits)

lemma refine_segments_lookup:
  assumes "\<And>seg leaf p. refine seg leaf = Some p \<Longrightarrow> pr_seg_index p = index seg"
    "ledger_ok l" "distinct (map index segs)"
  shows "ledger_ok (fold (refine_segment J refine body) segs l) \<and>
    (\<forall>seg \<in> set segs. proposal_for (fold (refine_segment J refine body) segs l) (index seg) = refined J refine body seg l) \<and>
    (\<forall>i. i \<notin> index ` set segs \<longrightarrow> proposal_for (fold (refine_segment J refine body) segs l) i = proposal_for l i)"
  using assms(2,3)
proof (induction segs arbitrary: l)
  case (Cons seg segs)
  let ?l = "refine_segment J refine body seg l"
  note step = refine_segment_lookup[OF assms(1) Cons.prems(1), where seg = seg and J = J and body = body]
  have IH: "ledger_ok (fold (refine_segment J refine body) segs ?l) \<and>
    (\<forall>s \<in> set segs. proposal_for (fold (refine_segment J refine body) segs ?l) (index s) = refined J refine body s ?l) \<and>
    (\<forall>i. i \<notin> index ` set segs \<longrightarrow> proposal_for (fold (refine_segment J refine body) segs ?l) i = proposal_for ?l i)"
    using Cons.IH[OF step(1)] Cons.prems(2) by simp
  have "refined J refine body s ?l = refined J refine body s l" if "s \<in> set segs" for s
  proof -
    have "index s \<noteq> index seg" using that Cons.prems(2) by (metis distinct.simps(2) image_eqI image_set list.simps(9))
    then have same: "proposal_for ?l (index s) = proposal_for l (index s)" using step(2) by simp
    show ?thesis unfolding refined_def recode_leaf_cong[OF same] same ..
  qed
  then show ?case using IH step(2) Cons.prems(2) by auto
qed simp

end
