(* ===== verification/Clean.thy ===== *)
theory Clean
  imports Recode
begin

text \<open>
  The inline cleanups: pass D (\<^verbatim>\<open>ansi_strip.rs\<close>), pass E (\<^verbatim>\<open>whitespace.rs\<close>),
  pass A (\<^verbatim>\<open>json_minify.rs\<close>) and the on-path fast lane that composes them
  (\<^verbatim>\<open>fast_lane.rs\<close>).

  Minifying calls the \<^verbatim>\<open>format_core\<close> crate: \<open>decode_ir\<close> and \<open>compact_json\<close> are
  the arguments of \<open>minify_json\<close>, with the decoded value left abstract.  The blank-line counter of
  \<open>normalize_ws\<close> is a natural number; the source's is 32 bits wide and would only differ on a leaf
  with four thousand million blank lines in a row.
\<close>

section \<open>Pass D\<close>

definition is_control :: "nat \<Rightarrow> bool" where
  "is_control c = (c < 32 \<or> (127 \<le> c \<and> c < 160))"

fun skip_csi :: "str \<Rightarrow> str" where
  "skip_csi [] = []"
| "skip_csi (c # s) = (if 64 \<le> c \<and> c \<le> 126 then s else skip_csi s)"

definition skip_escape :: "str \<Rightarrow> str" where
  "skip_escape chars = (case chars of [] \<Rightarrow> [] | c # r \<Rightarrow> if c = 91 then skip_csi r else r)"

lemma length_skip_csi: "length (skip_csi s) \<le> length s"
  by (induction s) auto

lemma length_skip_escape: "length (skip_escape s) \<le> length s"
  by (auto simp: skip_escape_def intro: le_trans[OF length_skip_csi] split: list.splits)

function strip_ansi :: "str \<Rightarrow> str" where
  "strip_ansi [] = []"
| "strip_ansi (c # chars) =
     (if c = 27 then strip_ansi (skip_escape chars)
      else if c = 13 then strip_ansi chars
      else if c = 10 \<or> c = 9 then c # strip_ansi chars
      else if is_control c then strip_ansi chars
      else c # strip_ansi chars)"
  by pat_completeness auto

termination
  by (relation "measure length") (auto simp: le_imp_less_Suc length_skip_escape)

definition ansi_strip_refine :: "Segment \<Rightarrow> RecodeLeaf \<Rightarrow> Proposal option" where
  "ansi_strip_refine seg leaf = inline_recode seg leaf (strip_ansi (lf_content leaf)) ''ansi_strip''"

definition AnsiStripPass :: "serde \<Rightarrow> Pass" where
  "AnsiStripPass J = \<lparr>pass_id = ''ansi_strip'', pass_phase = OffPath,
     pass_apply = for_each_leaf J ansi_strip_refine\<rparr>"

section \<open>Pass E\<close>

fun replace_crlf :: "str \<Rightarrow> str" where
  "replace_crlf (c # d # s) = (if c = 13 \<and> d = 10 then 10 # replace_crlf s else c # replace_crlf (d # s))"
| "replace_crlf s = s"

definition replace_cr :: "str \<Rightarrow> str" where
  "replace_cr s = map (\<lambda>c. if c = 13 then 10 else c) s"

fun normalize_lines :: "nat \<Rightarrow> str list \<Rightarrow> str" where
  "normalize_lines blank_run [] = []"
| "normalize_lines blank_run (line # ls) =
     (let trimmed = trim_end line; run' = (if trimmed = [] then blank_run + 1 else 0) in
      if 1 < run' then normalize_lines run' ls
      else trimmed @ [10] @ normalize_lines run' ls)"

definition trim_newlines :: "str \<Rightarrow> str" where
  "trim_newlines s = rev (dropWhile (\<lambda>c. c = 10) (rev s))"

definition normalize_ws :: "str \<Rightarrow> str" where
  "normalize_ws input =
     (let out = normalize_lines 0 (lines (replace_cr (replace_crlf input))) in
      if ends_with_newline input then out else trim_newlines out)"

definition whitespace_refine :: "Segment \<Rightarrow> RecodeLeaf \<Rightarrow> Proposal option" where
  "whitespace_refine seg leaf = inline_recode seg leaf (normalize_ws (lf_content leaf)) ''whitespace''"

definition WhitespacePass :: "serde \<Rightarrow> Pass" where
  "WhitespacePass J = \<lparr>pass_id = ''whitespace'', pass_phase = OffPath,
     pass_apply = for_each_leaf J whitespace_refine\<rparr>"

section \<open>Pass A\<close>

definition minify_json :: "(str \<Rightarrow> 'v option) \<Rightarrow> ('v \<Rightarrow> str) \<Rightarrow> str \<Rightarrow> str option" where
  "minify_json decode_ir compact_json input = map_option compact_json (decode_ir input)"

definition json_minify_refine ::
  "(str \<Rightarrow> 'v option) \<Rightarrow> ('v \<Rightarrow> str) \<Rightarrow> Segment \<Rightarrow> RecodeLeaf \<Rightarrow> Proposal option" where
  "json_minify_refine decode_ir compact_json seg leaf =
     (case minify_json decode_ir compact_json (lf_content leaf) of
        None \<Rightarrow> None
      | Some minified \<Rightarrow> inline_recode seg leaf minified ''json_minify'')"

definition JsonMinifyPass :: "serde \<Rightarrow> (str \<Rightarrow> 'v option) \<Rightarrow> ('v \<Rightarrow> str) \<Rightarrow> Pass" where
  "JsonMinifyPass J decode_ir compact_json = \<lparr>pass_id = ''json_minify'', pass_phase = OffPath,
     pass_apply = for_each_leaf J (json_minify_refine decode_ir compact_json)\<rparr>"

section \<open>The fast lane\<close>

definition fast_lane_leaf :: "serde \<Rightarrow> WireBody \<Rightarrow> Segment \<Rightarrow> RecodeLeaf option" where
  "fast_lane_leaf J body seg = (if kind seg = ToolPair then raw_recode_leaf J body seg else None)"

definition fast_lane_clean :: "(str \<Rightarrow> 'v option) \<Rightarrow> ('v \<Rightarrow> str) \<Rightarrow> str \<Rightarrow> str option" where
  "fast_lane_clean decode_ir compact_json text =
     (let cleaned = normalize_ws (strip_ansi text);
          cleaned' = (case minify_json decode_ir compact_json cleaned of
              Some minified \<Rightarrow> if str_len minified < str_len cleaned then minified else cleaned
            | None \<Rightarrow> cleaned)
      in if str_len cleaned' < str_len text then Some cleaned' else None)"

section \<open>Stripping escapes\<close>

definition ansi_clean :: "str \<Rightarrow> bool" where
  "ansi_clean s = (\<forall>c \<in> set s. is_control c \<longrightarrow> c = 10 \<or> c = 9)"

lemma suffix_skip_csi: "suffix (skip_csi s) s"
  by (induction s) (auto intro: suffix_ConsI)

lemma suffix_skip_escape: "suffix (skip_escape s) s"
  by (auto simp: skip_escape_def intro: suffix_ConsI suffix_skip_csi split: list.splits)

lemma ansi_clean_simps [simp]: "ansi_clean []"
  "ansi_clean (c # s) \<longleftrightarrow> (is_control c \<longrightarrow> c = 10 \<or> c = 9) \<and> ansi_clean s"
  by (simp_all add: ansi_clean_def)

lemma is_control_simps [simp]: "is_control 27" "is_control 13"
  by (simp_all add: is_control_def)

lemma strip_ansi_clean: "ansi_clean (strip_ansi s)"
  by (induction s rule: strip_ansi.induct) simp_all

lemma strip_ansi_subseq: "subseq (strip_ansi s) s"
proof (induction s rule: strip_ansi.induct)
  case (2 c chars)
  have "subseq (strip_ansi (skip_escape chars)) chars" if "c = 27"
    using 2(1)[OF that] suffix_skip_escape[of chars] by (meson subseq_order.trans suffix_imp_subseq)
  with 2 show ?case by auto
qed simp

lemma strip_ansi_id: "ansi_clean s \<Longrightarrow> strip_ansi s = s"
  by (induction s) auto

section \<open>Normalizing white space\<close>

text \<open>The loop as a list of lines: trimmed, blank runs cut to one.\<close>

fun squeeze :: "nat \<Rightarrow> str list \<Rightarrow> str list" where
  "squeeze rn [] = []"
| "squeeze rn (line # ls) =
     (let trimmed = trim_end line; run' = (if trimmed = [] then rn + 1 else 0) in
      if 1 < run' then squeeze run' ls else trimmed # squeeze run' ls)"

lemma normalize_lines_eq: "normalize_lines rn ls = unlines (squeeze rn ls)"
  by (induction rn ls rule: squeeze.induct) (simp_all add: Let_def)

text \<open>What a normalized list of lines is: every line trimmed, no two blank lines in a row.\<close>

fun squeezed :: "bool \<Rightarrow> str list \<Rightarrow> bool" where
  "squeezed prev [] = True"
| "squeezed prev (l # ls) = (trim_end l = l \<and> \<not> (prev \<and> l = []) \<and> squeezed (l = []) ls)"

lemma squeeze_squeezed: "squeezed (0 < rn) (squeeze rn ls)"
  by (induction rn ls rule: squeeze.induct) (auto simp: Let_def)

lemma squeeze_id: "squeezed (0 < rn) ls \<Longrightarrow> squeeze rn ls = ls"
  by (induction rn ls rule: squeeze.induct) (auto simp: Let_def)

lemma squeeze_line_ok: "list_all line_ok ls \<Longrightarrow> list_all line_ok (squeeze rn ls)"
proof (induction rn ls rule: squeeze.induct)
  case (2 rn line ls)
  then have "line_ok (trim_end line)"
    using set_mono_prefix[OF trim_end_prefix[of line]] by (auto simp: line_ok_def)
  with 2 show ?case by (auto simp: Let_def)
qed simp

lemma squeeze_nonempty: "ls \<noteq> [] \<Longrightarrow> squeeze 0 ls \<noteq> []"
  by (cases ls) (auto simp: Let_def)

lemma unlines_nonempty: "ls \<noteq> [] \<Longrightarrow> ends_with_newline (unlines ls)"
  by (cases ls rule: rev_cases) (auto simp: ends_with_newline_def)

text \<open>Trimming the line feeds at the end drops the blank lines there and the last line feed.\<close>

definition drop_blank :: "str list \<Rightarrow> str list" where
  "drop_blank ls = rev (dropWhile (\<lambda>l. l = []) (rev ls))"

lemma drop_blank_snoc [simp]: "drop_blank [] = []" "drop_blank (ls @ [[]]) = drop_blank ls"
  "l \<noteq> [] \<Longrightarrow> drop_blank (ls @ [l]) = ls @ [l]"
  by (simp_all add: drop_blank_def)

lemma trim_newlines_snoc: "trim_newlines (s @ [c]) = (if c = 10 then trim_newlines s else s @ [c])"
  "trim_newlines [] = []"
  by (simp_all add: trim_newlines_def)

lemma unlines_snoc_last: "l \<noteq> [] \<Longrightarrow> 10 \<notin> set l \<Longrightarrow> trim_newlines (unlines ls @ l @ [10]) = unlines ls @ l"
  using trim_newlines_snoc(1)[of "unlines ls @ l" 10] trim_newlines_snoc(1)[of "unlines ls @ butlast l" "last l"]
  by (metis append.assoc append_butlast_last_id last_in_set)

lemma trim_newlines_unlines:
  "list_all line_ok ls \<Longrightarrow> (drop_blank ls = [] \<and> trim_newlines (unlines ls) = []) \<or>
     (\<exists>ls' l. drop_blank ls = ls' @ [l] \<and> l \<noteq> [] \<and> trim_newlines (unlines ls) = unlines ls' @ l)"
proof (induction ls rule: rev_induct)
  case (snoc l ls)
  show ?case
  proof (cases "l = []")
    case True
    then show ?thesis using snoc trim_newlines_snoc(1)[of "unlines ls" 10] by simp
  next
    case False
    then show ?thesis using snoc unlines_snoc_last[of l ls] by (auto simp: line_ok_def)
  qed
qed (simp add: trim_newlines_snoc)

lemma squeezed_lines: "squeezed b ls \<Longrightarrow> (\<forall>l \<in> set ls. trim_end l = l) \<and>
    (\<forall>i. Suc i < length ls \<longrightarrow> ls ! i \<noteq> [] \<or> ls ! Suc i \<noteq> [])"
proof (induction b ls rule: squeezed.induct)
  case (2 b l ls)
  have "ls ! 0 \<noteq> []" if "l = []" "ls \<noteq> []" using that 2(2) by (cases ls) auto
  with 2 show ?case by (auto simp: nth_Cons split: nat.splits)
qed simp

lemma squeezed_append: "squeezed b (xs @ ys) \<Longrightarrow> squeezed b xs"
  by (induction b xs rule: squeezed.induct) auto

lemma drop_blank_prefix: "\<exists>zs. ls = drop_blank ls @ zs"
  unfolding drop_blank_def by (metis rev_append rev_rev_ident takeWhile_dropWhile_id)

lemma replace_no_cr: "13 \<notin> set (replace_cr s)"
  by (auto simp: replace_cr_def split: if_splits)

lemma replace_id: "13 \<notin> set s \<Longrightarrow> replace_cr (replace_crlf s) = s"
proof -
  assume s: "13 \<notin> set s"
  have "replace_crlf s = s" using s by (induction s rule: replace_crlf.induct) auto
  then show ?thesis using s by (auto simp: replace_cr_def intro: map_idI)
qed

lemma replace_newline: "ends_with_newline s \<Longrightarrow> replace_cr (replace_crlf s) \<noteq> []"
  by (cases s rule: replace_crlf.cases) (auto simp: replace_cr_def ends_with_newline_def)

text \<open>The two shapes of a result.\<close>

lemma normalize_ws_cases:
  obtains (terminated) ls where "normalize_ws s = unlines ls" "ls \<noteq> []" "squeezed False ls" "list_all line_ok ls"
    | (nothing) "normalize_ws s = []"
    | (unterminated) ls l where "normalize_ws s = unlines ls @ l" "l \<noteq> []" "squeezed False (ls @ [l])"
        "list_all line_ok (ls @ [l])" "\<not> ends_with_newline s"
proof -
  let ?t = "replace_cr (replace_crlf s)"
  let ?q = "squeeze 0 (lines ?t)"
  have ok: "list_all line_ok ?q" using squeeze_line_ok unlines_lines[OF replace_no_cr] by blast
  have sq: "squeezed False ?q" using squeeze_squeezed[of 0] by simp
  show thesis
  proof (cases "ends_with_newline s")
    case True
    then have "?q \<noteq> []" using squeeze_nonempty lines_nonempty replace_newline by blast
    moreover have "normalize_ws s = unlines ?q" using True by (simp add: normalize_ws_def normalize_lines_eq)
    ultimately show ?thesis using terminated ok sq by blast
  next
    case False
    then have n: "normalize_ws s = trim_newlines (unlines ?q)"
      by (simp add: normalize_ws_def normalize_lines_eq)
    from trim_newlines_unlines[OF ok] show ?thesis
    proof
      assume "drop_blank ?q = [] \<and> trim_newlines (unlines ?q) = []"
      then have "normalize_ws s = []" by (simp add: n)
      then show ?thesis by (rule nothing)
    next
      assume "\<exists>ls' l. drop_blank ?q = ls' @ [l] \<and> l \<noteq> [] \<and> trim_newlines (unlines ?q) = unlines ls' @ l"
      then obtain ls' l where *: "drop_blank ?q = ls' @ [l]" "l \<noteq> []" "trim_newlines (unlines ?q) = unlines ls' @ l"
        by blast
      obtain zs where q: "?q = (ls' @ [l]) @ zs" using drop_blank_prefix[of ?q] *(1) by metis
      show ?thesis
        by (rule unterminated[of ls' l]) (use * n False ok sq squeezed_append q in \<open>simp_all\<close>)
    qed
  qed
qed

lemma normalize_unlines:
  assumes "ls \<noteq> []" "squeezed False ls" "list_all line_ok ls"
  shows "normalize_ws (unlines ls) = unlines ls"
proof -
  have "13 \<notin> set (unlines ls)" using assms(3) by (induction ls) (auto simp: line_ok_def)
  then have "replace_cr (replace_crlf (unlines ls)) = unlines ls" by (rule replace_id)
  moreover have "lines (unlines ls) = ls" using lines_unlines[OF assms(3), of "[]"] by simp
  ultimately show ?thesis
    using squeeze_id[of 0 ls] assms(2) unlines_nonempty[OF assms(1)]
    by (simp add: normalize_ws_def normalize_lines_eq)
qed

lemma normalize_text:
  assumes l: "l \<noteq> []" and sq: "squeezed False (ls @ [l])" and ok: "list_all line_ok (ls @ [l])"
  shows "normalize_ws (unlines ls @ l) = unlines ls @ l"
proof -
  have "13 \<notin> set (unlines ls @ l)" using ok by (induction ls) (auto simp: line_ok_def)
  then have "replace_cr (replace_crlf (unlines ls @ l)) = unlines ls @ l" by (rule replace_id)
  moreover have "lines (unlines ls @ l) = ls @ [l]"
    using lines_unlines[of ls l] ok l by (simp add: lines_last line_ok_def)
  moreover have "squeeze 0 (ls @ [l]) = ls @ [l]" using squeeze_id[of 0] sq by simp
  moreover have "\<not> ends_with_newline (unlines ls @ l)"
    using l ok by (auto simp: ends_with_newline_def line_ok_def dest: last_in_set)
  moreover have "trim_newlines (unlines (ls @ [l])) = unlines ls @ l"
    using unlines_snoc_last[OF l] ok by (simp add: line_ok_def)
  ultimately show ?thesis by (simp add: normalize_ws_def normalize_lines_eq)
qed

lemma normalize_ws_idem: "normalize_ws (normalize_ws s) = normalize_ws s"
proof (cases s rule: normalize_ws_cases)
  case nothing
  then show ?thesis by (simp add: normalize_ws_def ends_with_newline_def replace_cr_def trim_newlines_def)
qed (simp_all add: normalize_unlines normalize_text)

text \<open>Without carriage returns the result is a subsequence of the input, so it is shorter or the
  same.\<close>

lemma unlines_squeeze: "subseq (unlines (squeeze rn ls)) (unlines ls)"
proof (induction rn ls rule: squeeze.induct)
  case (2 rn line ls)
  have "subseq (trim_end line) line" by (simp add: prefix_imp_subseq trim_end_prefix)
  then have "subseq (trim_end line @ [10]) (line @ [10])" by simp
  then have "subseq ((trim_end line @ [10]) @ xs) ((line @ [10]) @ unlines ls)" if "subseq xs (unlines ls)" for xs
    using that by (rule list_emb_append_mono)
  moreover have "subseq xs (line @ 10 # unlines ls)" if "subseq xs (unlines ls)" for xs
    using list_emb_append2[of "(=)" xs "unlines ls" "line @ [10]"] that by simp
  ultimately show ?case using 2 by (auto simp: Let_def)
qed simp

lemma trim_newlines_prefix: "prefix (trim_newlines s) s"
  unfolding trim_newlines_def prefix_def by (metis rev_append rev_rev_ident takeWhile_dropWhile_id)

lemma normalize_ws_subseq:
  assumes "13 \<notin> set s"
  shows "subseq (normalize_ws s) s"
proof -
  let ?q = "squeeze 0 (lines s)"
  have n: "normalize_ws s = (if ends_with_newline s then unlines ?q else trim_newlines (unlines ?q))"
    by (simp add: normalize_ws_def normalize_lines_eq replace_id[OF assms])
  have sub: "subseq (unlines ?q) (if s = [] \<or> ends_with_newline s then s else s @ [10])"
    using unlines_squeeze[of 0 "lines s"] unlines_lines[OF assms] by simp
  show ?thesis
  proof (cases "s = [] \<or> ends_with_newline s")
    case True
    then show ?thesis using n sub by (auto simp: trim_newlines_def ends_with_newline_def)
  next
    case False
    then obtain u where u: "unlines ?q = u @ [10]"
      using unlines_nonempty[OF squeeze_nonempty[OF lines_nonempty]]
      by (metis append_butlast_last_id ends_with_newline_def)
    then have "subseq u s" using sub False by simp
    moreover have "subseq (normalize_ws s) u"
      using n False u trim_newlines_prefix[of u] by (simp add: trim_newlines_snoc prefix_imp_subseq)
    ultimately show ?thesis by (rule subseq_order.trans[rotated])
  qed
qed

section \<open>The passes refine\<close>

text \<open>The lossless rewrites of the chain.\<close>

definition inline_rewrite :: "(str \<Rightarrow> 'v option) \<Rightarrow> ('v \<Rightarrow> str) \<Rightarrow> str \<Rightarrow> str \<Rightarrow> bool" where
  "inline_rewrite decode_ir compact_json a b =
     (b = strip_ansi a \<or> b = normalize_ws a \<or> minify_json decode_ir compact_json a = Some b)"

lemma inline_recode_Some:
  "inline_recode seg leaf t pid = Some p \<Longrightarrow> pr_strategy p = SRecode t None \<and> str_len t < str_len (lf_content leaf) \<and>
     pr_seg_index p = index seg \<and> pr_ref_id p = None \<and> pr_needs_ref p = lf_carried_ref leaf"
  by (auto simp: inline_recode_def split: if_splits)

lemma ref_recode_Some:
  "ref_recode seg leaf t b pid = Some p \<Longrightarrow> pr_strategy p = SRecode t None \<and> str_len t < str_len (lf_content leaf) \<and>
     pr_seg_index p = index seg \<and> pr_ref_id p = None \<and>
     pr_needs_ref p = Some (case lf_carried_ref leaf of Some b \<Rightarrow> b | None \<Rightarrow> b)"
  by (auto simp: ref_recode_def split: if_splits)

interpretation ansi: leaf_refiner "inline_rewrite decode_ir compact_json" ansi_strip_refine
  by unfold_locales
     (auto simp: ansi_strip_refine_def inline_rewrite_def dest!: inline_recode_Some)

interpretation ws: leaf_refiner "inline_rewrite decode_ir compact_json" whitespace_refine
  by unfold_locales
     (auto simp: whitespace_refine_def inline_rewrite_def dest!: inline_recode_Some)

interpretation minify: leaf_refiner "inline_rewrite decode_ir compact_json" "json_minify_refine decode_ir compact_json"
  by unfold_locales
     (auto simp: json_minify_refine_def inline_rewrite_def dest!: inline_recode_Some split: option.splits)

section \<open>The chain on one leaf\<close>

text \<open>A pass keeps a transform only when it shrinks the leaf.\<close>

definition keep_shorter :: "(str \<Rightarrow> str option) \<Rightarrow> str \<Rightarrow> str" where
  "keep_shorter f c = (case f c of None \<Rightarrow> c | Some t \<Rightarrow> if str_len t < str_len c then t else c)"

definition chain_at :: "serde \<Rightarrow> WireBody \<Rightarrow> Segment \<Rightarrow> str \<Rightarrow> PlanLedger \<Rightarrow> str \<Rightarrow> bool" where
  "chain_at J body seg raw l c = (ledger_ok l \<and> str_len c \<le> str_len raw \<and>
     map_option lf_content (raw_recode_leaf J body seg) = Some raw \<and>
     map_option pr_strategy (proposal_for l (index seg)) = (if str_len c < str_len raw then Some (SRecode c None) else None) \<and>
     (str_len c < str_len raw \<or> c = raw))"

lemma chain_at_leaf:
  assumes "chain_at J body seg raw l c"
  obtains leaf where "recode_leaf J body seg l = Some leaf" "lf_content leaf = c"
  using assms
  by (auto simp: chain_at_def recode_leaf_def raw_recode_leaf_def split: if_splits)

lemma chain_at_step:
  assumes at: "chain_at J body seg raw l c" and seg: "seg \<in> set segs" "distinct (map index segs)"
    and refine: "\<And>s leaf. refine s leaf = (case f (lf_content leaf) of None \<Rightarrow> None
                   | Some t \<Rightarrow> inline_recode s leaf t pid)"
  shows "chain_at J body seg raw (fold (refine_segment J refine body) segs l) (keep_shorter f c)"
proof -
  let ?l = "fold (refine_segment J refine body) segs l"
  obtain leaf where leaf: "recode_leaf J body seg l = Some leaf" "lf_content leaf = c"
    using at by (rule chain_at_leaf)
  have idx: "pr_seg_index p = index s" if "refine s lf = Some p" for s lf p
    using that by (auto simp: refine dest!: inline_recode_Some split: option.splits)
  have ok: "ledger_ok ?l" and look: "proposal_for ?l (index seg) = refined J refine body seg l"
    using refine_segments_lookup[of refine l segs J body, OF idx _ seg(2)] at seg(1) by (auto simp: chain_at_def)
  show ?thesis
  proof (cases "\<exists>t. f c = Some t \<and> str_len t < str_len c")
    case True
    then obtain t p where "f c = Some t" "str_len t < str_len c" "inline_recode seg leaf t pid = Some p"
      using leaf by (auto simp: inline_recode_def)
    then show ?thesis
      using ok look leaf at inline_recode_Some[of seg leaf t pid p]
      by (auto simp: chain_at_def refined_def refine keep_shorter_def)
  next
    case False
    then have "keep_shorter f c = c" by (auto simp: keep_shorter_def split: option.splits)
    moreover have "refine seg leaf = None"
      using False leaf by (auto simp: refine inline_recode_def split: option.splits)
    then have "proposal_for ?l (index seg) = proposal_for l (index seg)"
      using look leaf by (simp add: refined_def)
    ultimately show ?thesis using ok at by (simp add: chain_at_def)
  qed
qed

lemma keep_strip: "keep_shorter (\<lambda>c. Some (strip_ansi c)) c = strip_ansi c"
  using subseq_same_str_len[OF strip_ansi_subseq[of c]] by (auto simp: keep_shorter_def)

lemma keep_normalize: "13 \<notin> set c \<Longrightarrow> keep_shorter (\<lambda>c. Some (normalize_ws c)) c = normalize_ws c"
  using subseq_same_str_len[OF normalize_ws_subseq[of c]] by (auto simp: keep_shorter_def)

lemma strip_ansi_no_cr: "13 \<notin> set (strip_ansi s)"
  using strip_ansi_clean[of s] by (auto simp: ansi_clean_def)

lemma fast_lane_clean_eq:
  "fast_lane_clean di cj text =
     (let c = keep_shorter (minify_json di cj) (keep_shorter (\<lambda>c. Some (normalize_ws c))
                 (keep_shorter (\<lambda>c. Some (strip_ansi c)) text))
      in if str_len c < str_len text then Some c else None)"
  unfolding keep_strip keep_normalize[OF strip_ansi_no_cr]
  by (simp add: fast_lane_clean_def keep_shorter_def Let_def split: option.splits)

section \<open>Properties\<close>

text \<open>Stripping escapes is a filter: the result is a subsequence of the input that holds no control
  character but line feeds and tabs, text without control characters is unchanged, and a second run
  changes nothing.\<close>

theorem strip_ansi_filters:
  "subseq (strip_ansi s) s \<and> (\<forall>c \<in> set (strip_ansi s). is_control c \<longrightarrow> c = 10 \<or> c = 9) \<and>
   strip_ansi (strip_ansi s) = strip_ansi s \<and>
   ((\<forall>c \<in> set s. is_control c \<longrightarrow> c = 10 \<or> c = 9) \<longrightarrow> strip_ansi s = s)"
  using strip_ansi_subseq strip_ansi_clean strip_ansi_id by (simp add: ansi_clean_def)

theorem strip_ansi_filters_witness:
  "strip_ansi (lit ''plain text'') = lit ''plain text'' \<and>
   strip_ansi ([27] @ lit ''[31mred'' @ [27] @ lit ''[0m'' @ [13, 10]) = lit ''red'' @ [10]"
  using strip_ansi_filters[of "lit ''plain text''"]
  by (simp add: lit_def is_control_def skip_escape_def)

text \<open>Normalizing white space settles at once: a second run changes nothing; no line of the result
  ends in white space; no two blank lines follow one another; and on a leaf without carriage returns,
  the only ones that reach it behind the escape stripper, it only removes characters.\<close>

theorem normalize_ws_settles:
  "normalize_ws (normalize_ws s) = normalize_ws s \<and>
   (\<forall>l \<in> set (lines (normalize_ws s)). trim_end l = l) \<and>
   (\<forall>i. Suc i < length (lines (normalize_ws s)) \<longrightarrow>
      lines (normalize_ws s) ! i \<noteq> [] \<or> lines (normalize_ws s) ! Suc i \<noteq> []) \<and>
   (13 \<notin> set s \<longrightarrow> subseq (normalize_ws s) s)"
proof -
  have "squeezed False (lines (normalize_ws s))"
  proof (cases s rule: normalize_ws_cases)
    case (terminated ls)
    then show ?thesis using lines_unlines[of ls "[]"] by simp
  next
    case (unterminated ls l)
    then show ?thesis using lines_unlines[of ls l] by (simp add: lines_last line_ok_def)
  qed simp
  then show ?thesis using normalize_ws_idem normalize_ws_subseq squeezed_lines by blast
qed

theorem normalize_ws_settles_witness:
  "normalize_ws (lit ''a  '' @ [10, 10, 10] @ lit ''b'' @ [10]) = lit ''a'' @ [10, 10] @ lit ''b'' @ [10] \<and>
   subseq (normalize_ws (lit ''a  '' @ [10, 10, 10] @ lit ''b'' @ [10])) (lit ''a  '' @ [10, 10, 10] @ lit ''b'' @ [10])"
proof -
  have "normalize_ws (lit ''a  '' @ [10, 10, 10] @ lit ''b'' @ [10]) = lit ''a'' @ [10, 10] @ lit ''b'' @ [10]"
    by (simp add: normalize_ws_def lit_def replace_cr_def lines_def strip_cr_def Let_def trim_end_def
        is_whitespace_def ends_with_newline_def)
  moreover have "13 \<notin> set (lit ''a  '' @ [10, 10, 10] @ lit ''b'' @ [10])" by (simp add: lit_def)
  ultimately show ?thesis using normalize_ws_settles[of "lit ''a  '' @ [10, 10, 10] @ lit ''b'' @ [10]"] by blast
qed

text \<open>C25: the fast lane produces the bytes of the staged chain.  For every tool pair the fast lane may
  touch, running the passes D, E and A through the ledger from an empty plan proposes exactly the
  string \<^verbatim>\<open>fast_lane_clean\<close> returns, and proposes nothing exactly when it returns nothing,
  whatever the JSON library answers.\<close>

theorem fast_lane_matches_the_staged_chain:
  assumes "distinct (map index (cx_segments ctx))" "seg \<in> set (cx_segments ctx)"
    and leaf: "fast_lane_leaf J (cx_body ctx) seg = Some leaf"
  shows "\<exists>l. run r (Pipeline_of [StagePass (AnsiStripPass J), StagePass (WhitespacePass J),
                 StagePass (JsonMinifyPass J di cj)]) ctx (PlanLedger_sized (length (cx_segments ctx))) = Some l \<and>
    map_option pr_strategy (proposal_for l (index seg)) =
      map_option (\<lambda>c. SRecode c None) (fast_lane_clean di cj (lf_content leaf))"
proof -
  let ?init = "PlanLedger_sized (length (cx_segments ctx))" and ?body = "cx_body ctx" and ?segs = "cx_segments ctx"
  let ?ps = "[StagePass (AnsiStripPass J), StagePass (WhitespacePass J), StagePass (JsonMinifyPass J di cj)]"
  let ?step = "\<lambda>refine. fold (refine_segment J refine ?body) ?segs"
  let ?l = "?step (json_minify_refine di cj) (?step whitespace_refine (?step ansi_strip_refine ?init))"
  let ?raw = "lf_content leaf"
  have "chain_at J ?body seg ?raw ?init ?raw"
    using leaf by (simp add: chain_at_def fast_lane_leaf_def ledger_ok_def PlanLedger_sized_def proposal_for_def
        split: if_splits)
  note D = chain_at_step[OF this assms(2,1), where refine = ansi_strip_refine and
      f = "\<lambda>c. Some (strip_ansi c)" and pid = "''ansi_strip''"]
  note E = chain_at_step[OF D assms(2,1), where refine = whitespace_refine and
      f = "\<lambda>c. Some (normalize_ws c)" and pid = "''whitespace''"]
  note A = chain_at_step[OF E assms(2,1), where refine = "json_minify_refine di cj" and
      f = "minify_json di cj" and pid = "''json_minify''"]
  have "map_option pr_strategy (proposal_for ?l (index seg)) =
      map_option (\<lambda>c. SRecode c None) (fast_lane_clean di cj ?raw)"
    using A by (simp add: chain_at_def fast_lane_clean_eq Let_def ansi_strip_refine_def whitespace_refine_def
        json_minify_refine_def)
  moreover have "run r (Pipeline_of ?ps) ctx ?init = Some ?l"
    by (simp add: run_def Pipeline_of_def run_loop.simps AnsiStripPass_def WhitespacePass_def JsonMinifyPass_def
        for_each_leaf_def)
  ultimately show ?thesis by blast
qed

text \<open>A tool pair whose result is three hundred carriage returns.\<close>

definition redraw_body :: WireBody where
  "redraw_body = demo_body\<lparr>messages := [\<lparr>role = RoleAssistant, content = MBlocks [BToolUse (lit ''t'')]\<rparr>,
     \<lparr>role = RoleUser, content = MBlocks [BToolResult (replicate 300 13)]\<rparr>]\<rparr>"

definition redraw_segment :: Segment where
  "redraw_segment = demo_segment 0 ToolPair\<lparr>source_uuids := [message_id 0, message_id 1]\<rparr>"

definition redraw_ctx :: "PassCtx \<Rightarrow> PassCtx" where
  "redraw_ctx ctx = ctx\<lparr>cx_body := redraw_body, cx_segments := [redraw_segment]\<rparr>"

lemma redraw_leaf: "fast_lane_leaf demo_serde redraw_body redraw_segment =
    Some \<lparr>lf_content = replicate 300 13, lf_original_tokens = estimate_chars_proxy (replicate 300 13),
          lf_carried_ref = None\<rparr>"
proof -
  have len: "str_len (replicate 300 13) = 300" by (subst str_len_ascii) auto
  have users: "user_messages redraw_body redraw_segment = [1]"
    by (simp add: user_messages_def redraw_body_def redraw_segment_def message_id_def parse_usize_dec nth_opt_def)
  have kind: "kind redraw_segment = ToolPair" "\<not> pinned redraw_segment" "\<not> is_true_human redraw_segment"
    by (simp_all add: redraw_segment_def demo_segment_def)
  have "leaf_strings demo_serde redraw_body redraw_segment = [replicate 300 13]"
    unfolding leaf_strings_def users
    by (simp add: kind tool_result_strings_def redraw_body_def nth_opt_def tool_result_text_def demo_serde_def)
  moreover have "sole_squash_target redraw_body redraw_segment"
    unfolding sole_squash_target_def users
    by (simp add: kind redraw_body_def nth_opt_def is_tool_result_def MIN_BLOCK_SPAN_def len)
  ultimately show ?thesis
    by (simp add: fast_lane_leaf_def raw_recode_leaf_def kind raw_leaf_def MIN_RECODE_SPAN_def len)
qed

theorem fast_lane_matches_the_staged_chain_witness:
  "\<forall>ctx. \<exists>l. run Runner_default (Pipeline_of [StagePass (AnsiStripPass demo_serde), StagePass (WhitespacePass demo_serde),
       StagePass (JsonMinifyPass demo_serde (\<lambda>_. None :: unit option) (\<lambda>_. []))]) (redraw_ctx ctx) (PlanLedger_sized 1) = Some l \<and>
     map_option pr_strategy (proposal_for l 0) = Some (SRecode [] None)"
proof
  fix ctx
  have "strip_ansi (replicate n 13) = []" for n by (induction n) simp_all
  moreover have "str_len (replicate 300 13) = 300" by (subst str_len_ascii) auto
  moreover have "normalize_ws [] = []"
    by (simp add: normalize_ws_def replace_cr_def ends_with_newline_def trim_newlines_def)
  ultimately have clean: "fast_lane_clean (\<lambda>_. None :: unit option) (\<lambda>_. []) (replicate 300 13) = Some []"
    by (simp add: fast_lane_clean_def minify_json_def)
  have ctx: "cx_segments (redraw_ctx ctx) = [redraw_segment]" "cx_body (redraw_ctx ctx) = redraw_body"
    "index redraw_segment = 0"
    by (simp_all add: redraw_ctx_def redraw_segment_def demo_segment_def)
  show "\<exists>l. run Runner_default (Pipeline_of [StagePass (AnsiStripPass demo_serde), StagePass (WhitespacePass demo_serde),
       StagePass (JsonMinifyPass demo_serde (\<lambda>_. None :: unit option) (\<lambda>_. []))]) (redraw_ctx ctx) (PlanLedger_sized 1) = Some l \<and>
     map_option pr_strategy (proposal_for l 0) = Some (SRecode [] None)"
    using fast_lane_matches_the_staged_chain[of "redraw_ctx ctx" redraw_segment demo_serde _ Runner_default
        "\<lambda>_. None :: unit option" "\<lambda>_. []"] redraw_leaf clean
    by (simp add: ctx)
qed

end
