(* ===== verification/Lossy.thy ===== *)
theory Lossy
  imports Clean
begin

text \<open>
  The ref-backed recode passes: F (\<^verbatim>\<open>blob_extract.rs\<close>), B (\<^verbatim>\<open>json_toon.rs\<close>),
  C (\<^verbatim>\<open>dedup_backref.rs\<close>), J (\<^verbatim>\<open>head_tail.rs\<close>) and G
  (\<^verbatim>\<open>seq_diff.rs\<close>).  Each shows the model a shorter text and stores the bytes it replaced.

  \<^verbatim>\<open>format_core::select_encoding\<close> and the unified diff of the \<^verbatim>\<open>similar\<close> crate
  are arguments.  \<open>extract_blob\<close> returns \<open>None\<close> where slicing the string would panic, and
  \<open>Some None\<close> where there is no blob.
\<close>

section \<open>Pass F\<close>

definition MIN_BLOB_CHARS :: nat where "MIN_BLOB_CHARS = 512"

definition is_b64 :: "nat \<Rightarrow> bool" where
  "is_b64 c = ((48 \<le> c \<and> c \<le> 57) \<or> (65 \<le> c \<and> c \<le> 90) \<or> (97 \<le> c \<and> c \<le> 122) \<or>
     c = 43 \<or> c = 47 \<or> c = 45 \<or> c = 95 \<or> c = 61)"

definition wider :: "(nat \<times> nat) option \<Rightarrow> nat \<times> nat \<Rightarrow> (nat \<times> nat) option" where
  "wider best rng = (case best of
      Some (s, e) \<Rightarrow> if snd rng - fst rng \<le> e - s then Some (s, e) else Some rng
    | None \<Rightarrow> Some rng)"

type_synonym scan_state = "(nat \<times> nat) option \<times> nat \<times> bool"

definition blob_step :: "nat \<times> nat \<Rightarrow> scan_state \<Rightarrow> scan_state" where
  "blob_step ib st = (case (ib, st) of ((i, b), (best, run_start, in_run)) \<Rightarrow>
     if is_b64 b then (if \<not> in_run then (best, i, True) else (best, run_start, in_run))
     else if in_run then (wider best (run_start, i), run_start, False)
     else (best, run_start, in_run))"

definition longest_blob :: "str \<Rightarrow> (nat \<times> nat) option" where
  "longest_blob input =
     (let bytes = utf8 input;
          (best, run_start, in_run) = fold blob_step (enumerate 0 bytes) (None, 0, False);
          best' = (if in_run then wider best (run_start, length bytes) else best)
      in case best' of
           Some (s, e) \<Rightarrow> if MIN_BLOB_CHARS \<le> e - s then Some (s, e) else None
         | None \<Rightarrow> None)"

definition blob_marker :: "nat \<Rightarrow> str" where
  "blob_marker n = lit ''[base64 blob '' @ [183] @ lit '' '' @ dec n @ lit '' bytes elided]''"

definition extract_blob :: "str \<Rightarrow> str option option" where
  "extract_blob input = (case longest_blob input of
      None \<Rightarrow> Some None
    | Some (s, e) \<Rightarrow> (case split_at_byte s input of None \<Rightarrow> None
      | Some (before, _) \<Rightarrow> (case split_at_byte e input of None \<Rightarrow> None
        | Some (_, rest) \<Rightarrow> Some (Some (before @ blob_marker (e - s) @ rest)))))"

definition blob_extract_refine :: "Segment \<Rightarrow> RecodeLeaf \<Rightarrow> Proposal option option" where
  "blob_extract_refine seg leaf = (case extract_blob (lf_content leaf) of
      None \<Rightarrow> None
    | Some None \<Rightarrow> Some None
    | Some (Some extracted) \<Rightarrow>
        Some (ref_recode seg leaf extracted (utf8 (lf_content leaf)) ''blob_extract''))"

definition BlobExtractPass :: "serde \<Rightarrow> Pass" where
  "BlobExtractPass J = \<lparr>pass_id = ''blob_extract'', pass_phase = OffPath,
     pass_apply = try_each_leaf J blob_extract_refine\<rparr>"

section \<open>Pass B\<close>

definition select_leaner :: "(str \<Rightarrow> str option) \<Rightarrow> str \<Rightarrow> str option" where
  "select_leaner select_encoding input = select_encoding input"

definition json_toon_refine :: "(str \<Rightarrow> str option) \<Rightarrow> Segment \<Rightarrow> RecodeLeaf \<Rightarrow> Proposal option" where
  "json_toon_refine select_encoding seg leaf = (case select_leaner select_encoding (lf_content leaf) of
      None \<Rightarrow> None
    | Some encoded \<Rightarrow> ref_recode seg leaf encoded (utf8 (lf_content leaf)) ''json_toon'')"

definition JsonToonPass :: "serde \<Rightarrow> (str \<Rightarrow> str option) \<Rightarrow> Pass" where
  "JsonToonPass J select_encoding = \<lparr>pass_id = ''json_toon'', pass_phase = OffPath,
     pass_apply = for_each_leaf J (json_toon_refine select_encoding)\<rparr>"

section \<open>Pass C\<close>

definition DEDUPE_MIN_CHARS :: nat where "DEDUPE_MIN_CHARS = 1024"

fun dedup_segments :: "serde \<Rightarrow> WireBody \<Rightarrow> Segment list \<Rightarrow> str set \<Rightarrow> PlanLedger \<Rightarrow> PlanLedger" where
  "dedup_segments J body [] seen ledger = ledger"
| "dedup_segments J body (seg # segs) seen ledger = (case raw_recode_leaf J body seg of
      None \<Rightarrow> dedup_segments J body segs seen ledger
    | Some leaf \<Rightarrow>
        if str_len (lf_content leaf) < DEDUPE_MIN_CHARS then dedup_segments J body segs seen ledger
        else if lf_content leaf \<notin> seen then dedup_segments J body segs (insert (lf_content leaf) seen) ledger
        else (case ref_recode seg leaf [] (utf8 (lf_content leaf)) ''dedup_backref'' of
                None \<Rightarrow> dedup_segments J body segs seen ledger
              | Some p \<Rightarrow> dedup_segments J body segs seen (upsert_proposal p ledger)))"

definition DedupBackrefPass :: "serde \<Rightarrow> Pass" where
  "DedupBackrefPass J = \<lparr>pass_id = ''dedup_backref'', pass_phase = OffPath,
     pass_apply = (\<lambda>ctx ledger. Some (dedup_segments J (cx_body ctx) (cx_segments ctx) {} ledger, Continue))\<rparr>"

section \<open>Pass J\<close>

definition HEAD_LINES :: nat where "HEAD_LINES = 40"

definition TAIL_LINES :: nat where "TAIL_LINES = 20"

definition kept_ranges :: "nat \<Rightarrow> LineRange list option" where
  "kept_ranges n_lines =
     (if HEAD_LINES + TAIL_LINES < n_lines
      then Some [\<lparr>lr_start = 1, lr_end = HEAD_LINES\<rparr>,
                 \<lparr>lr_start = n_lines - TAIL_LINES + 1, lr_end = n_lines\<rparr>]
      else None)"

definition elided_marker :: "nat \<Rightarrow> str" where
  "elided_marker n = lit ''['' @ [8230] @ lit '' '' @ dec n @ lit '' lines elided '' @ [8230] @ lit '']''"

definition head_tail :: "str \<Rightarrow> str option" where
  "head_tail input =
     (let ls = lines input; n_lines = length ls in
      if n_lines \<le> HEAD_LINES + TAIL_LINES then None
      else Some (join_lines (take HEAD_LINES ls) @ [10] @ elided_marker (n_lines - HEAD_LINES - TAIL_LINES) @ [10] @
             join_lines (drop (n_lines - TAIL_LINES) ls)))"

definition head_tail_refine :: "Segment \<Rightarrow> RecodeLeaf \<Rightarrow> Proposal option" where
  "head_tail_refine seg leaf = (case head_tail (lf_content leaf) of
      None \<Rightarrow> None
    | Some truncated \<Rightarrow> ref_recode seg leaf truncated (utf8 (lf_content leaf)) ''head_tail'')"

definition HeadTailPass :: "serde \<Rightarrow> Pass" where
  "HeadTailPass J = \<lparr>pass_id = ''head_tail'', pass_phase = OffPath,
     pass_apply = for_each_leaf J head_tail_refine\<rparr>"

section \<open>Pass G\<close>

definition G_MIN_BYTES :: nat where "G_MIN_BYTES = 1024"

definition G_MAX_BYTES :: nat where "G_MAX_BYTES = 512 * 1024"

definition G_MAX_LINES :: nat where "G_MAX_LINES = 10000"

definition message_at :: "WireBody \<Rightarrow> MessageId \<Rightarrow> WireMessage option" where
  "message_at body mid = Option.bind (parse_usize (message_str mid)) (nth_opt (messages body))"

definition role_blocks :: "WireBody \<Rightarrow> Segment \<Rightarrow> Role \<Rightarrow> ContentBlock list" where
  "role_blocks body seg r = concat (map (\<lambda>w. blocks (content w))
     (filter (\<lambda>w. role w = r) (filter_map (message_at body) (source_uuids seg))))"

definition first_opt :: "'a list \<Rightarrow> 'a option" where
  "first_opt xs = (case xs of [] \<Rightarrow> None | x # _ \<Rightarrow> Some x)"

definition resolve_tool :: "serde \<Rightarrow> WireBody \<Rightarrow> Segment \<Rightarrow> (str \<times> str) option" where
  "resolve_tool J body seg = (case first_opt (filter_map
        (\<lambda>b. case b of BToolResult raw \<Rightarrow> if tool_result_text J raw \<noteq> None then tool_use_id J b else None
              | _ \<Rightarrow> None) (role_blocks body seg RoleUser)) of
      None \<Rightarrow> None
    | Some tid \<Rightarrow> (case first_opt (filter_map (tool_name J)
          (filter (\<lambda>b. is_client_tool_use b \<and> tool_use_id J b = Some tid) (role_blocks body seg RoleAssistant))) of
        None \<Rightarrow> None
      | Some name \<Rightarrow> Some (name, tid)))"

definition diff_header :: "str \<Rightarrow> str \<Rightarrow> str" where
  "diff_header name base_id = lit ''[cc-squash: near-duplicate of the earlier '' @ name @
     lit '' result (tool_use_id='' @ base_id @ lit '') '' @ [8212] @ lit '' unified diff vs that result]''"

definition diff_proposal ::
  "serde \<Rightarrow> (str \<Rightarrow> str \<Rightarrow> str) \<Rightarrow> PassCtx \<Rightarrow> Segment \<Rightarrow> RecodeLeaf \<Rightarrow> nat \<Rightarrow> str \<Rightarrow> str \<Rightarrow> Proposal option" where
  "diff_proposal J unified_diff ctx seg leaf base_idx base name =
     (let target = lf_content leaf in
      if str_len base < G_MIN_BYTES \<or> str_len target < G_MIN_BYTES then None
      else if G_MAX_BYTES \<le> str_len base \<or> G_MAX_BYTES \<le> str_len target then None
      else if G_MAX_LINES < length (lines base) \<or> G_MAX_LINES < length (lines target) then None
      else (case Option.bind (nth_opt (cx_segments ctx) base_idx) (resolve_tool J (cx_body ctx)) of
              None \<Rightarrow> None
            | Some (_, base_id) \<Rightarrow>
                let shown = diff_header name base_id @ [10] @ unified_diff base target in
                if str_len target < str_len shown * 2 then None
                else ref_recode seg leaf shown (utf8 (lf_content leaf)) ''seq_diff''))"

type_synonym diff_bases = "str \<rightharpoonup> nat \<times> str"

definition seq_diff_step ::
  "serde \<Rightarrow> (str \<Rightarrow> str \<Rightarrow> str) \<Rightarrow> PassCtx \<Rightarrow> Segment \<Rightarrow> diff_bases \<times> PlanLedger \<Rightarrow> diff_bases \<times> PlanLedger" where
  "seq_diff_step J unified_diff ctx seg st = (case st of (last_by_tool, ledger) \<Rightarrow>
     if (case proposal_for ledger (index seg) of Some p \<Rightarrow> pr_by p = ''seq_diff'' | None \<Rightarrow> False) then st
     else case recode_leaf J (cx_body ctx) seg ledger of
        None \<Rightarrow> st
      | Some leaf \<Rightarrow> (case resolve_tool J (cx_body ctx) seg of
          None \<Rightarrow> st
        | Some (name, _) \<Rightarrow>
            let proposal = (case last_by_tool name of None \<Rightarrow> None
                | Some (base_idx, base) \<Rightarrow> diff_proposal J unified_diff ctx seg leaf base_idx base name);
                ledger' = (case proposal of Some p \<Rightarrow> upsert_proposal p ledger | None \<Rightarrow> ledger)
            in (if proposal = None \<and> lf_carried_ref leaf = None \<and> G_MIN_BYTES \<le> str_len (lf_content leaf)
                then last_by_tool(name \<mapsto> (index seg, lf_content leaf)) else last_by_tool,
                ledger')))"

definition seq_diff_apply ::
  "serde \<Rightarrow> (str \<Rightarrow> str \<Rightarrow> str) \<Rightarrow> PassCtx \<Rightarrow> PlanLedger \<Rightarrow> (PlanLedger \<times> PassControl) option" where
  "seq_diff_apply J unified_diff ctx ledger =
     Some (snd (fold (seq_diff_step J unified_diff ctx) (cx_segments ctx) (Map.empty, ledger)), Continue)"

definition SeqDiffPass :: "serde \<Rightarrow> (str \<Rightarrow> str \<Rightarrow> str) \<Rightarrow> Pass" where
  "SeqDiffPass J unified_diff = \<lparr>pass_id = ''seq_diff'', pass_phase = OffPath,
     pass_apply = seq_diff_apply J unified_diff\<rparr>"

section \<open>The longest blob\<close>

text \<open>What the scan has found after a prefix of the string: the best finished run, and the run it
  is in.\<close>

definition b64_run :: "str \<Rightarrow> str \<Rightarrow> str \<Rightarrow> str \<Rightarrow> bool" where
  "b64_run s a r b = (s = a @ r @ b \<and> r \<noteq> [] \<and> list_all is_b64 r)"

definition best_ok :: "str \<Rightarrow> (nat \<times> nat) option \<Rightarrow> bool" where
  "best_ok p best = (case best of None \<Rightarrow> True
     | Some (s, e) \<Rightarrow> \<exists>a r b. b64_run p a r b \<and> s = str_len a \<and> e = str_len (a @ r))"

definition best_width :: "(nat \<times> nat) option \<Rightarrow> nat" where
  "best_width best = (case best of None \<Rightarrow> 0 | Some (s, e) \<Rightarrow> e - s)"

definition scan_inv :: "str \<Rightarrow> scan_state \<Rightarrow> bool" where
  "scan_inv p st = (case st of (best, run_start, in_run) \<Rightarrow> best_ok p best \<and>
     (if in_run
      then (\<exists>a r. b64_run p a r [] \<and> run_start = str_len a \<and> (a = [] \<or> \<not> is_b64 (last a)) \<and>
              (\<forall>a' r' b'. b64_run p a' r' b' \<longrightarrow> length r' \<le> max (best_width best) (length r)))
      else (p = [] \<or> \<not> is_b64 (last p)) \<and>
           (\<forall>a' r' b'. b64_run p a' r' b' \<longrightarrow> length r' \<le> best_width best)))"

lemma b64_ascii: "is_b64 c \<Longrightarrow> c < 128"
  by (auto simp: is_b64_def)

lemma b64_str_len: "list_all is_b64 r \<Longrightarrow> str_len r = length r"
  by (rule str_len_ascii) (auto simp: list_all_iff b64_ascii)

lemma utf8_char_b64: "is_b64 c \<Longrightarrow> utf8_char c = [c] \<and> utf8_width c = 1"
  using b64_ascii[of c] by (simp add: utf8_char_def utf8_width_def)

lemma utf8_char_not_b64: "\<not> is_b64 c \<Longrightarrow> b \<in> set (utf8_char c) \<Longrightarrow> \<not> is_b64 b"
  by (auto simp: utf8_char_def is_b64_def split: if_splits)

lemma utf8_char_nonempty: "utf8_char c \<noteq> []"
  by (simp add: utf8_char_def)

lemma fold_blob_not_b64:
  "\<forall>b \<in> set bs. \<not> is_b64 b \<Longrightarrow> bs \<noteq> [] \<Longrightarrow> fold blob_step (enumerate i bs) (best, rs, in_run) =
     (if in_run then (wider best (rs, i), rs, False) else (best, rs, in_run))"
proof (induction bs arbitrary: i best in_run)
  case (Cons b bs)
  show ?case
  proof (cases "bs = []")
    case True
    then show ?thesis using Cons.prems by (simp add: blob_step_def)
  next
    case False
    then show ?thesis using Cons.prems Cons.IH[of "Suc i"] by (simp add: blob_step_def)
  qed
qed simp

lemma run_suffix_length:
  assumes "a @ r = a0 @ r0" "list_all is_b64 r" "a0 = [] \<or> \<not> is_b64 (last a0)"
  shows "length r \<le> length r0"
proof -
  from assms(1) obtain us where "a = a0 @ us \<and> us @ r = r0 \<or> a @ us = a0 \<and> r = us @ r0"
    by (auto simp: append_eq_append_conv2)
  then show ?thesis
  proof
    assume us: "a @ us = a0 \<and> r = us @ r0"
    have "us = []"
    proof (rule ccontr)
      assume "us \<noteq> []"
      then show False using us assms(2,3) by (metis append_is_Nil_conv last_appendR last_in_set list_all_append list_all_iff)
    qed
    then show ?thesis using us by simp
  qed auto
qed

lemma b64_run_snoc:
  "b64_run (p @ [c]) a r b \<longleftrightarrow> (\<exists>b'. b = b' @ [c] \<and> b64_run p a r b') \<or>
     (b = [] \<and> is_b64 c \<and> (\<exists>r'. r = r' @ [c] \<and> p = a @ r' \<and> list_all is_b64 r'))"
proof (cases b rule: rev_cases)
  case Nil
  then show ?thesis by (cases r rule: rev_cases) (auto simp: b64_run_def)
qed (auto simp: b64_run_def)

definition scan_char :: "nat \<Rightarrow> nat \<Rightarrow> scan_state \<Rightarrow> scan_state" where
  "scan_char i c st = (case st of (best, rs, in_run) \<Rightarrow>
     if is_b64 c then (if in_run then st else (best, i, True))
     else if in_run then (wider best (rs, i), rs, False) else st)"

lemma fold_blob_char: "fold blob_step (enumerate i (utf8_char c)) st = scan_char i c st"
proof (cases "is_b64 c")
  case True
  then show ?thesis by (cases st) (simp add: utf8_char_b64 blob_step_def scan_char_def)
next
  case False
  then show ?thesis
    using fold_blob_not_b64[of "utf8_char c" i] utf8_char_not_b64[OF False] utf8_char_nonempty[of c]
    by (cases st) (simp add: scan_char_def)
qed

lemma wider_run:
  assumes "best_ok p best" "b64_run p a r []"
  shows "best_ok p (wider best (str_len a, str_len p))" "wider best (str_len a, str_len p) \<noteq> None"
    "best_width (wider best (str_len a, str_len p)) = max (best_width best) (length r)"
proof -
  have p: "str_len p = str_len (a @ r)" "str_len r = length r"
    using assms(2) by (auto simp: b64_run_def b64_str_len)
  show "best_ok p (wider best (str_len a, str_len p))" "wider best (str_len a, str_len p) \<noteq> None"
    using assms p(1) by (cases best; force simp: wider_def best_ok_def)+
  show "best_width (wider best (str_len a, str_len p)) = max (best_width best) (length r)"
    using p by (auto simp: wider_def best_width_def max_def split: option.splits)
qed

lemma best_ok_snoc: "best_ok p best \<Longrightarrow> best_ok (p @ [c]) best"
proof -
  have "b64_run p a r b \<Longrightarrow> b64_run (p @ [c]) a r (b @ [c])" for a r b by (simp add: b64_run_def)
  then show "best_ok p best \<Longrightarrow> best_ok (p @ [c]) best" unfolding best_ok_def by (cases best) (simp, force)
qed

lemma scan_inv_in_run:
  "scan_inv p (best, rs, True) \<longleftrightarrow> best_ok p best \<and> (\<exists>a r. b64_run p a r [] \<and> rs = str_len a \<and> (a = [] \<or> \<not> is_b64 (last a)) \<and>
     (\<forall>a' r' b'. b64_run p a' r' b' \<longrightarrow> length r' \<le> max (best_width best) (length r)))"
  "scan_inv p (best, rs, False) \<longleftrightarrow> best_ok p best \<and> (p = [] \<or> \<not> is_b64 (last p)) \<and>
     (\<forall>a' r' b'. b64_run p a' r' b' \<longrightarrow> length r' \<le> best_width best)"
  by (simp_all add: scan_inv_def)

lemma scan_inv_b64:
  assumes inv: "scan_inv p (best, rs, in_run)" and c: "is_b64 c"
  shows "scan_inv (p @ [c]) (if in_run then (best, rs, in_run) else (best, str_len p, True))"
proof (cases in_run)
  case True
  then have "scan_inv p (best, rs, True)" using inv by simp
  then obtain a r where run: "b64_run p a r []" "rs = str_len a" "a = [] \<or> \<not> is_b64 (last a)"
    and cover: "\<forall>a' r' b'. b64_run p a' r' b' \<longrightarrow> length r' \<le> max (best_width best) (length r)"
    and best: "best_ok p best"
    unfolding scan_inv_in_run by blast
  have "b64_run (p @ [c]) a (r @ [c]) []" using run c by (simp add: b64_run_def)
  moreover have "length r' \<le> max (best_width best) (length (r @ [c]))" if "b64_run (p @ [c]) a' r' b'" for a' r' b'
    using that[unfolded b64_run_snoc]
  proof
    assume "\<exists>b''. b' = b'' @ [c] \<and> b64_run p a' r' b''"
    then show ?thesis using cover by fastforce
  next
    assume "b' = [] \<and> is_b64 c \<and> (\<exists>r''. r' = r'' @ [c] \<and> p = a' @ r'' \<and> list_all is_b64 r'')"
    then show ?thesis using run run_suffix_length[of a' _ a r] by (auto simp: b64_run_def)
  qed
  ultimately have "scan_inv (p @ [c]) (best, rs, True)"
    unfolding scan_inv_in_run using run(2,3) best_ok_snoc[OF best] by blast
  then show ?thesis using True by simp
next
  case False
  then have nb: "p = [] \<or> \<not> is_b64 (last p)" and cover: "\<And>a' r' b'. b64_run p a' r' b' \<Longrightarrow> length r' \<le> best_width best"
    and best: "best_ok p best" using inv by (auto simp: scan_inv_def)
  have "b64_run (p @ [c]) p [c] []" using c by (simp add: b64_run_def)
  moreover have "length r' \<le> max (best_width best) (length [c])" if "b64_run (p @ [c]) a' r' b'" for a' r' b'
    using that[unfolded b64_run_snoc]
  proof
    assume "\<exists>b''. b' = b'' @ [c] \<and> b64_run p a' r' b''"
    then show ?thesis using cover by fastforce
  next
    assume "b' = [] \<and> is_b64 c \<and> (\<exists>r''. r' = r'' @ [c] \<and> p = a' @ r'' \<and> list_all is_b64 r'')"
    then show ?thesis using nb run_suffix_length[of a' _ p "[]"] by auto
  qed
  ultimately have "scan_inv (p @ [c]) (best, str_len p, True)"
    unfolding scan_inv_in_run using nb best_ok_snoc[OF best] by blast
  then show ?thesis using False by simp
qed

lemma scan_inv_other:
  assumes inv: "scan_inv p (best, rs, in_run)" and c: "\<not> is_b64 c"
  shows "scan_inv (p @ [c]) (if in_run then (wider best (rs, str_len p), rs, False) else (best, rs, in_run))"
proof -
  have old: "\<exists>b''. b64_run p a' r' b''" if "b64_run (p @ [c]) a' r' b'" for a' r' b'
    using that c by (auto simp: b64_run_snoc)
  show ?thesis
  proof (cases in_run)
    case True
    then have "scan_inv p (best, rs, True)" using inv by simp
    then obtain a r where run: "b64_run p a r []" "rs = str_len a"
      and cover: "\<forall>a' r' b'. b64_run p a' r' b' \<longrightarrow> length r' \<le> max (best_width best) (length r)"
      and best: "best_ok p best"
      unfolding scan_inv_in_run by blast
    have "scan_inv (p @ [c]) (wider best (rs, str_len p), rs, False)"
      unfolding scan_inv_in_run run(2) wider_run(3)[OF best run(1)]
      using best_ok_snoc[OF wider_run(1)[OF best run(1)]] c old cover by simp blast
    then show ?thesis using True by simp
  next
    case False
    then have "scan_inv (p @ [c]) (best, rs, False)"
      using inv c old best_ok_snoc by (simp add: scan_inv_in_run) blast
    then show ?thesis using False by simp
  qed
qed

lemma scan_inv_string: "scan_inv p (fold blob_step (enumerate 0 (utf8 p)) (None, 0, False))"
proof (induction p rule: rev_induct)
  case Nil
  then show ?case by (simp add: scan_inv_def best_ok_def utf8_def b64_run_def)
next
  case (snoc c p)
  obtain best rs in_run where st: "fold blob_step (enumerate 0 (utf8 p)) (None, 0, False) = (best, rs, in_run)"
    by (metis prod_cases3)
  have "fold blob_step (enumerate 0 (utf8 (p @ [c]))) (None, 0, False) =
      scan_char (str_len p) c (best, rs, in_run)"
    using st by (simp add: utf8_def enumerate_append_eq fold_blob_char length_utf8[unfolded utf8_def])
  then show ?case using snoc scan_inv_b64[of p best rs in_run c] scan_inv_other[of p best rs in_run c]
    by (simp add: st scan_char_def split: if_splits)
qed

text \<open>The blob is a longest run of base64 characters, and there is none when every run is short.\<close>

lemma longest_blob_spec:
  "case longest_blob s of
     None \<Rightarrow> (\<forall>a r b. b64_run s a r b \<longrightarrow> length r < MIN_BLOB_CHARS)
   | Some (x, y) \<Rightarrow> (\<exists>a r b. b64_run s a r b \<and> x = str_len a \<and> y = str_len (a @ r) \<and> MIN_BLOB_CHARS \<le> length r \<and>
       (\<forall>a' r' b'. b64_run s a' r' b' \<longrightarrow> length r' \<le> length r))"
proof -
  obtain best rs in_run where st: "fold blob_step (enumerate 0 (utf8 s)) (None, 0, False) = (best, rs, in_run)"
    by (metis prod_cases3)
  define best' where "best' = (if in_run then wider best (rs, length (utf8 s)) else best)"
  have "best_ok s best' \<and> (\<forall>a r b. b64_run s a r b \<longrightarrow> length r \<le> best_width best')"
  proof (cases in_run)
    case True
    then obtain a r where "b64_run s a r []" "rs = str_len a" "best_ok s best"
      "\<forall>a' r' b'. b64_run s a' r' b' \<longrightarrow> length r' \<le> max (best_width best) (length r)"
      using scan_inv_string[of s] by (auto simp: st scan_inv_def)
    then show ?thesis using wider_run[of s best a r] True by (simp add: best'_def length_utf8)
  next
    case False
    then show ?thesis using scan_inv_string[of s] by (simp add: st scan_inv_def best'_def)
  qed
  moreover have "longest_blob s = (case best' of Some (x, y) \<Rightarrow> if MIN_BLOB_CHARS \<le> y - x then Some (x, y) else None
      | None \<Rightarrow> None)"
    by (simp add: longest_blob_def st best'_def)
  moreover have width: "b64_run s a r b \<Longrightarrow> str_len (a @ r) - str_len a = length r" for a r b
    by (simp add: b64_run_def b64_str_len)
  ultimately show ?thesis
  proof (cases best')
    case None
    then show ?thesis
      using \<open>longest_blob s = _\<close> \<open>best_ok s best' \<and> _\<close> by (auto simp: best_width_def MIN_BLOB_CHARS_def b64_run_def)
  next
    case (Some xy)
    then obtain a r b where run: "b64_run s a r b" "xy = (str_len a, str_len (a @ r))"
      using \<open>best_ok s best' \<and> _\<close> by (auto simp: best_ok_def)
    have "best_width best' = length r" using Some run width[OF run(1)] by (simp add: best_width_def)
    then have cover: "\<forall>a' r' b'. b64_run s a' r' b' \<longrightarrow> length r' \<le> length r" using \<open>best_ok s best' \<and> _\<close> by simp
    have lb: "longest_blob s = (if MIN_BLOB_CHARS \<le> length r then Some (str_len a, str_len (a @ r)) else None)"
      using \<open>longest_blob s = _\<close> Some run width[OF run(1)] by simp
    show ?thesis
    proof (cases "MIN_BLOB_CHARS \<le> length r")
      case True
      then show ?thesis using lb run cover by auto
    next
      case False
      then have "length r' < MIN_BLOB_CHARS" if "b64_run s a' r' b'" for a' r' b' using that cover by fastforce
      then show ?thesis using lb False by auto
    qed
  qed
qed

lemma extract_blob_spec:
  "(extract_blob s = Some None \<and> (\<forall>a r b. b64_run s a r b \<longrightarrow> length r < MIN_BLOB_CHARS)) \<or>
   (\<exists>a r b. b64_run s a r b \<and> MIN_BLOB_CHARS \<le> length r \<and> (\<forall>a' r' b'. b64_run s a' r' b' \<longrightarrow> length r' \<le> length r) \<and>
      extract_blob s = Some (Some (a @ blob_marker (length r) @ b)))"
proof (cases "longest_blob s")
  case None
  then show ?thesis using longest_blob_spec[of s] by (simp add: extract_blob_def)
next
  case (Some xy)
  then obtain a r b where run: "b64_run s a r b" "xy = (str_len a, str_len (a @ r))" "MIN_BLOB_CHARS \<le> length r"
    "\<forall>a' r' b'. b64_run s a' r' b' \<longrightarrow> length r' \<le> length r"
    using longest_blob_spec[of s] by (cases xy) auto
  have s: "s = a @ (r @ b)" "s = (a @ r) @ b" "str_len r = length r"
    using run(1) by (simp_all add: b64_run_def b64_str_len)
  have "split_at_byte (str_len a) s = Some (a, r @ b)" "split_at_byte (str_len (a @ r)) s = Some (a @ r, b)"
    unfolding s(1) using split_at_byte_append[of a "r @ b"] split_at_byte_append[of "a @ r" b] by simp_all
  then have "extract_blob s = Some (Some (a @ blob_marker (length r) @ b))"
    using Some run(2) s(3) by (simp add: extract_blob_def)
  then show ?thesis using run by blast
qed

text \<open>A run between two characters that are not base64, as long as the text around it is short, is the
  only run of its length.\<close>

lemma run_between:
  assumes "(xs @ [x]) @ r0 @ (y # ys) = a @ r @ b" "list_all is_b64 r" "list_all is_b64 r0" "\<not> is_b64 x" "\<not> is_b64 y"
    "length r0 \<le> length r" "length xs < length r0" "length ys < length r0"
  shows "a = xs @ [x] \<and> r = r0 \<and> b = y # ys"
proof -
  let ?s = "(xs @ [x]) @ r0 @ (y # ys)"
  have at: "is_b64 (?s ! k)" if "length a \<le> k" "k < length a + length r" for k
    using that assms(2) unfolding assms(1) by (auto simp: nth_append list_all_length)
  have x: "?s ! length xs = x" and y: "?s ! (Suc (length xs) + length r0) = y" by (simp_all add: nth_append)
  have len: "length a + length r + length b = Suc (length xs) + length r0 + Suc (length ys)"
    using arg_cong[OF assms(1), of length] by simp
  have "\<not> (length a \<le> length xs \<and> length xs < length a + length r)" using at[of "length xs"] x assms(4) by metis
  moreover have "\<not> (length a \<le> Suc (length xs) + length r0 \<and> Suc (length xs) + length r0 < length a + length r)"
    using at[of "Suc (length xs) + length r0"] y assms(5) by metis
  ultimately have "length a = Suc (length xs)" "length r = length r0" using len assms(6-8) by linarith+
  then show ?thesis using assms(1) by (metis append_eq_append_conv length_append_singleton)
qed

section \<open>The passes refine\<close>

definition blob_refined :: "Segment \<Rightarrow> RecodeLeaf \<Rightarrow> Proposal option" where
  "blob_refined seg leaf = (case blob_extract_refine seg leaf of Some p \<Rightarrow> p | None \<Rightarrow> None)"

lemma blob_extract_total: "blob_extract_refine seg leaf = Some (blob_refined seg leaf)"
  using extract_blob_spec[of "lf_content leaf"]
  by (auto simp: blob_refined_def blob_extract_refine_def)

text \<open>Any transform handed to \<open>ref_recode\<close> with the bytes it replaces refines; the blob, encoding,
  truncation and diff passes are such.\<close>

interpretation stored: leaf_refiner inl "\<lambda>seg leaf. ref_recode seg leaf t (utf8 (lf_content leaf)) pid"
  by unfold_locales (auto dest!: ref_recode_Some)

interpretation blob: leaf_refiner inl blob_refined
  by unfold_locales
     (auto simp: blob_refined_def blob_extract_refine_def dest!: ref_recode_Some split: option.splits)

interpretation toon: leaf_refiner inl "json_toon_refine select_encoding"
  by unfold_locales (auto simp: json_toon_refine_def dest!: ref_recode_Some split: option.splits)

interpretation head_tail: leaf_refiner inl head_tail_refine
  by unfold_locales (auto simp: head_tail_refine_def dest!: ref_recode_Some split: option.splits)

section \<open>Back references\<close>

text \<open>The leaves the pass has registered before a segment.\<close>

definition registered :: "serde \<Rightarrow> WireBody \<Rightarrow> Segment list \<Rightarrow> str set" where
  "registered J body segs = {lf_content leaf | seg leaf. seg \<in> set segs \<and>
     raw_recode_leaf J body seg = Some leaf \<and> DEDUPE_MIN_CHARS \<le> str_len (lf_content leaf)}"

definition backref_for :: "serde \<Rightarrow> WireBody \<Rightarrow> str set \<Rightarrow> Segment \<Rightarrow> Proposal option" where
  "backref_for J body seen seg = (case raw_recode_leaf J body seg of
      None \<Rightarrow> None
    | Some leaf \<Rightarrow> if DEDUPE_MIN_CHARS \<le> str_len (lf_content leaf) \<and> lf_content leaf \<in> seen
        then ref_recode seg leaf [] (utf8 (lf_content leaf)) ''dedup_backref'' else None)"

definition register :: "serde \<Rightarrow> WireBody \<Rightarrow> Segment \<Rightarrow> str set \<Rightarrow> str set" where
  "register J body seg seen = seen \<union> registered J body [seg]"

lemma registered_Cons: "registered J body (seg # segs) = registered J body [seg] \<union> registered J body segs"
  by (auto simp: registered_def)

lemma registered_single: "registered J body [seg] = (case raw_recode_leaf J body seg of None \<Rightarrow> {}
    | Some leaf \<Rightarrow> if DEDUPE_MIN_CHARS \<le> str_len (lf_content leaf) then {lf_content leaf} else {})"
  by (auto simp: registered_def split: option.splits)

lemma dedup_segments_Cons:
  "dedup_segments J body (seg # segs) seen l = dedup_segments J body segs (register J body seg seen)
     (case backref_for J body seen seg of None \<Rightarrow> l | Some p \<Rightarrow> upsert_proposal p l)"
  by (auto simp: register_def registered_single backref_for_def insert_absorb split: option.splits)

declare dedup_segments.simps(2) [simp del]

lemma backref_for_index: "backref_for J body seen seg = Some p \<Longrightarrow> pr_seg_index p = index seg"
  by (auto simp: backref_for_def dest!: ref_recode_Some split: option.splits if_splits)

lemma backref_lookup:
  assumes "ledger_ok l"
  shows "ledger_ok (case backref_for J body seen seg of None \<Rightarrow> l | Some p \<Rightarrow> upsert_proposal p l)"
    "proposal_for (case backref_for J body seen seg of None \<Rightarrow> l | Some p \<Rightarrow> upsert_proposal p l) i =
      (if i = index seg \<and> backref_for J body seen seg \<noteq> None then backref_for J body seen seg else proposal_for l i)"
  using assms ledger.inv_upsert ledger.lookup_upsert[OF assms] backref_for_index
  by (fastforce split: option.splits)+

lemma dedup_other:
  "ledger_ok l \<Longrightarrow> ledger_ok (dedup_segments J body segs seen l) \<and>
     (i \<notin> index ` set segs \<longrightarrow> proposal_for (dedup_segments J body segs seen l) i = proposal_for l i)"
proof (induction segs arbitrary: seen l)
  case (Cons seg segs)
  show ?case using Cons.IH[OF backref_lookup(1)[OF Cons.prems]] backref_lookup(2)[OF Cons.prems]
    by (simp add: dedup_segments_Cons)
qed simp

lemma dedup_lookup:
  assumes "ledger_ok l" "distinct (map index segs)" "segs = pre @ seg # post"
  shows "proposal_for (dedup_segments J body segs seen l) (index seg) =
    (case backref_for J body (seen \<union> registered J body pre) seg of
       Some p \<Rightarrow> Some p | None \<Rightarrow> proposal_for l (index seg))"
  using assms
proof (induction pre arbitrary: segs seen l)
  case Nil
  then have "index seg \<notin> index ` set post" by auto
  then show ?case
    using Nil dedup_other[OF backref_lookup(1)[OF Nil(1)]] backref_lookup(2)[OF Nil(1)]
    by (auto simp: dedup_segments_Cons registered_def split: option.splits)
next
  case (Cons s pre)
  let ?l = "case backref_for J body seen s of None \<Rightarrow> l | Some p \<Rightarrow> upsert_proposal p l"
  have "index s \<noteq> index seg" using Cons.prems(2,3) by auto
  then have "proposal_for ?l (index seg) = proposal_for l (index seg)" using backref_lookup(2)[OF Cons.prems(1)] by simp
  moreover have "seen \<union> registered J body (s # pre) = register J body s seen \<union> registered J body pre"
    by (simp add: register_def registered_Cons[of _ _ s pre] Un_assoc)
  ultimately show ?case
    using Cons.IH[OF backref_lookup(1)[OF Cons.prems(1), of J body seen s], of "pre @ seg # post" "register J body s seen"]
      Cons.prems
    by (cases "backref_for J body (register J body s seen \<union> registered J body pre) seg")
       (simp_all add: dedup_segments_Cons)
qed

lemma backref_recoverable:
  assumes "backref_for J (cx_body ctx) seen seg = Some p" "seg \<in> set (cx_segments ctx)"
  shows "proposal_recoverable J inl (cx_body ctx) (cx_segments ctx) p"
proof -
  obtain leaf where leaf: "raw_recode_leaf J (cx_body ctx) seg = Some leaf"
    "ref_recode seg leaf [] (utf8 (lf_content leaf)) ''dedup_backref'' = Some p"
    using assms(1) by (auto simp: backref_for_def split: option.splits if_splits)
  have "lf_carried_ref leaf = None" using leaf(1) by (auto dest!: raw_recode_leaf_Some raw_leaf_Some)
  then have "recoverable inl (lf_content leaf) [] (pr_needs_ref p)"
    using ref_recode_Some[OF leaf(2)] recoverable_stored[OF recoverable_raw, of "[]"] by simp
  then show ?thesis unfolding proposal_recoverable_def
    using assms(2) leaf(1) ref_recode_Some[OF leaf(2)]
    by (intro exI[of _ seg] exI[of _ leaf] exI[of _ "[]"]) auto
qed

lemma dedup_keeps:
  "recode_inv J inl ctx l \<Longrightarrow> set segs \<subseteq> set (cx_segments ctx) \<Longrightarrow>
     recode_inv J inl ctx (dedup_segments J (cx_body ctx) segs seen l)"
proof (induction segs arbitrary: seen l)
  case (Cons seg segs)
  have "recode_inv J inl ctx (case backref_for J (cx_body ctx) seen seg of None \<Rightarrow> l | Some p \<Rightarrow> upsert_proposal p l)"
  proof (cases "backref_for J (cx_body ctx) seen seg")
    case (Some p)
    then show ?thesis using recode_inv_upsert[OF Cons.prems(1) backref_recoverable[OF Some]] Cons.prems(2) by simp
  qed (use Cons.prems in simp)
  then show ?case using Cons by (simp add: dedup_segments_Cons)
qed simp

section \<open>Sequential diffs\<close>

lemma diff_proposal_Some:
  assumes "diff_proposal J ud ctx seg leaf bi base name = Some p"
  obtains bseg bname btid where "nth_opt (cx_segments ctx) bi = Some bseg"
    "resolve_tool J (cx_body ctx) bseg = Some (bname, btid)"
    "ref_recode seg leaf (diff_header name btid @ [10] @ ud base (lf_content leaf)) (utf8 (lf_content leaf)) ''seq_diff'' = Some p"
    "2 * str_len (diff_header name btid @ [10] @ ud base (lf_content leaf)) \<le> str_len (lf_content leaf)"
  using assms by (auto simp: diff_proposal_def Let_def bind_eq_Some_conv split: if_splits option.splits)

text \<open>What the walk holds: every base is an earlier segment of that tool whose current leaf is the
  base, with nothing stored for it.\<close>

definition shows_bare :: "serde \<Rightarrow> PassCtx \<Rightarrow> PlanLedger \<Rightarrow> Segment \<Rightarrow> str \<Rightarrow> bool" where
  "shows_bare J ctx l seg c = (\<exists>leaf. recode_leaf J (cx_body ctx) seg l = Some leaf \<and> lf_content leaf = c \<and>
     lf_carried_ref leaf = None)"

definition bases_ok :: "serde \<Rightarrow> PassCtx \<Rightarrow> Segment list \<Rightarrow> diff_bases \<Rightarrow> PlanLedger \<Rightarrow> bool" where
  "bases_ok J ctx pre bases l = (\<forall>name bi base. bases name = Some (bi, base) \<longrightarrow>
     (\<exists>bseg tid. bseg \<in> set pre \<and> index bseg = bi \<and> resolve_tool J (cx_body ctx) bseg = Some (name, tid) \<and>
        shows_bare J ctx l bseg base))"

definition diffed :: "serde \<Rightarrow> (str \<Rightarrow> str \<Rightarrow> str) \<Rightarrow> PassCtx \<Rightarrow> PlanLedger \<Rightarrow> PlanLedger \<Rightarrow> Segment \<Rightarrow> bool" where
  "diffed J ud ctx l l' seg = (\<exists>leaf name tid bseg btid base p.
     recode_leaf J (cx_body ctx) seg l = Some leaf \<and> resolve_tool J (cx_body ctx) seg = Some (name, tid) \<and>
     bseg \<in> set (cx_segments ctx) \<and> index bseg < index seg \<and>
     resolve_tool J (cx_body ctx) bseg = Some (name, btid) \<and> shows_bare J ctx l' bseg base \<and>
     proposal_for l' (index seg) = Some p \<and> pr_needs_ref p \<noteq> None \<and>
     pr_strategy p = SRecode (diff_header name btid @ [10] @ ud base (lf_content leaf)) None \<and>
     2 * str_len (diff_header name btid @ [10] @ ud base (lf_content leaf)) \<le> str_len (lf_content leaf))"

definition diff_inv :: "serde \<Rightarrow> (str \<Rightarrow> str \<Rightarrow> str) \<Rightarrow> PassCtx \<Rightarrow> PlanLedger \<Rightarrow> Segment list \<Rightarrow> diff_bases \<times> PlanLedger \<Rightarrow> bool" where
  "diff_inv J ud ctx l pre st = (ledger_ok (snd st) \<and> bases_ok J ctx pre (fst st) (snd st) \<and>
     (\<forall>i. i \<notin> index ` set pre \<longrightarrow> proposal_for (snd st) i = proposal_for l i) \<and>
     (\<forall>seg \<in> set pre. proposal_for (snd st) (index seg) \<noteq> proposal_for l (index seg) \<longrightarrow> diffed J ud ctx l (snd st) seg))"

lemma shows_bare_upsert:
  assumes "shows_bare J ctx l seg c" "ledger_ok l" "pr_seg_index p \<noteq> index seg"
  shows "shows_bare J ctx (upsert_proposal p l) seg c"
  using assms recode_leaf_cong[of "upsert_proposal p l" seg l] by (simp add: shows_bare_def ledger.lookup_upsert)

lemma diffed_upsert:
  assumes "diffed J ud ctx l l' seg" "ledger_ok l'" "pr_seg_index p \<noteq> index seg"
    "\<forall>s \<in> set (cx_segments ctx). index s < index seg \<longrightarrow> pr_seg_index p \<noteq> index s"
  shows "diffed J ud ctx l (upsert_proposal p l') seg"
proof -
  obtain leaf name tid bseg btid base q where *: "recode_leaf J (cx_body ctx) seg l = Some leaf"
     "resolve_tool J (cx_body ctx) seg = Some (name, tid)"
     "bseg \<in> set (cx_segments ctx)" "index bseg < index seg"
     "resolve_tool J (cx_body ctx) bseg = Some (name, btid)" "shows_bare J ctx l' bseg base"
     "proposal_for l' (index seg) = Some q" "pr_needs_ref q \<noteq> None"
     "pr_strategy q = SRecode (diff_header name btid @ [10] @ ud base (lf_content leaf)) None"
     "2 * str_len (diff_header name btid @ [10] @ ud base (lf_content leaf)) \<le> str_len (lf_content leaf)"
    using assms(1) unfolding diffed_def by blast
  have "shows_bare J ctx (upsert_proposal p l') bseg base"
    using shows_bare_upsert[OF *(6) assms(2)] assms(4) *(3,4) by blast
  moreover have "proposal_for (upsert_proposal p l') (index seg) = Some q"
    using assms(2,3) *(7) by (simp add: ledger.lookup_upsert)
  ultimately show ?thesis unfolding diffed_def using * by blast
qed

lemma diff_inv_upsert:
  assumes inv: "diff_inv J ud ctx l pre (bases, l')" and p: "pr_seg_index p = index seg"
    and new: "\<forall>s \<in> set pre. index s < index seg" and pre: "set pre \<subseteq> set (cx_segments ctx)"
    and seg: "diffed J ud ctx l (upsert_proposal p l') seg"
  shows "diff_inv J ud ctx l (pre @ [seg]) (bases, upsert_proposal p l')"
proof -
  have ok: "ledger_ok l'" using inv by (simp add: diff_inv_def)
  have "diffed J ud ctx l (upsert_proposal p l') s"
    if s: "s \<in> set pre" "proposal_for (upsert_proposal p l') (index s) \<noteq> proposal_for l (index s)" for s
  proof (rule diffed_upsert[OF _ ok])
    have "index s < index seg" using s(1) new by blast
    then show "pr_seg_index p \<noteq> index s"
      "\<forall>t \<in> set (cx_segments ctx). index t < index s \<longrightarrow> pr_seg_index p \<noteq> index t" using p by auto
    show "diffed J ud ctx l l' s"
      using s inv ok \<open>pr_seg_index p \<noteq> index s\<close> by (auto simp: diff_inv_def ledger.lookup_upsert split: if_splits)
  qed
  moreover have "bases_ok J ctx (pre @ [seg]) bases (upsert_proposal p l')"
    using inv new p shows_bare_upsert[OF _ ok] unfolding diff_inv_def bases_ok_def fst_conv snd_conv
    by (metis in_set_conv_decomp_first less_irrefl set_append UnI1)
  ultimately show ?thesis
    using inv seg ok p ledger.inv_upsert[OF ok] by (auto simp: diff_inv_def ledger.lookup_upsert)
qed

lemma diff_inv_skip:
  assumes "diff_inv J ud ctx l pre (bases, l')" "seg \<notin> set pre" "\<forall>s \<in> set pre. index s < index seg"
  shows "diff_inv J ud ctx l (pre @ [seg]) (bases, l')"
proof -
  have "index seg \<notin> index ` set pre" using assms(3) by force
  then have "proposal_for l' (index seg) = proposal_for l (index seg)" using assms(1) by (simp add: diff_inv_def)
  moreover have "bases_ok J ctx (pre @ [seg]) bases l'"
    using assms(1) unfolding diff_inv_def bases_ok_def by simp blast
  ultimately show ?thesis using assms(1) by (auto simp: diff_inv_def)
qed

lemma diff_inv_base:
  assumes "diff_inv J ud ctx l (pre @ [seg]) (bases, l')" "resolve_tool J (cx_body ctx) seg = Some (name, tid)"
    "shows_bare J ctx l' seg c"
  shows "diff_inv J ud ctx l (pre @ [seg]) (bases(name \<mapsto> (index seg, c)), l')"
  using assms unfolding diff_inv_def bases_ok_def by (simp, metis)

lemma seq_diff_step_inv:
  assumes wf: "wf_segments (cx_segments ctx)" and segs: "cx_segments ctx = pre @ seg # post"
    and inv: "diff_inv J ud ctx l pre st"
  shows "diff_inv J ud ctx l (pre @ [seg]) (seq_diff_step J ud ctx seg st)"
proof -
  obtain bases l' where st: "st = (bases, l')" by force
  note inv = inv[unfolded st]
  have sub: "set pre \<subseteq> set (cx_segments ctx)" using segs by auto
  have idx: "index seg = length pre" "\<forall>s \<in> set pre. index s < index seg"
  proof -
    show i: "index seg = length pre" using wf_segments_nth[OF wf, of "length pre"] segs by simp
    show "\<forall>s \<in> set pre. index s < index seg"
    proof
      fix s assume "s \<in> set pre"
      then obtain k where "k < length pre" "s = pre ! k" by (auto simp: in_set_conv_nth)
      then show "index s < index seg" using wf_segments_nth[OF wf, of k] segs i by (simp add: nth_append)
    qed
  qed
  have skip: "diff_inv J ud ctx l (pre @ [seg]) (bases, l')"
    using diff_inv_skip[OF inv _ idx(2)] idx(2) by blast
  have ok: "ledger_ok l'" and cur: "proposal_for l' (index seg) = proposal_for l (index seg)"
    using inv idx(2) by (force simp: diff_inv_def)+
  consider (same) "seq_diff_step J ud ctx seg st = st"
    | (go) leaf name tid where "recode_leaf J (cx_body ctx) seg l' = Some leaf"
        "resolve_tool J (cx_body ctx) seg = Some (name, tid)"
        "\<not> (case proposal_for l' (index seg) of Some p \<Rightarrow> pr_by p = ''seq_diff'' | None \<Rightarrow> False)"
    unfolding seq_diff_step_def st by (fastforce split: option.splits if_splits)
  then show ?thesis
  proof cases
    case same
    then show ?thesis using \<open>diff_inv J ud ctx l (pre @ [seg]) (bases, l')\<close> st by simp
  next
    case go
    define made where "made = (case bases name of None \<Rightarrow> None
      | Some (bi, base) \<Rightarrow> diff_proposal J ud ctx seg leaf bi base name)"
    have step: "seq_diff_step J ud ctx seg st = (if made = None \<and> lf_carried_ref leaf = None \<and> G_MIN_BYTES \<le> str_len (lf_content leaf)
        then bases(name \<mapsto> (index seg, lf_content leaf)) else bases,
        case made of Some p \<Rightarrow> upsert_proposal p l' | None \<Rightarrow> l')"
      unfolding seq_diff_step_def st made_def using go by (simp add: Let_def)
    show ?thesis
    proof (cases made)
      case None
      then show ?thesis using step skip diff_inv_base[OF skip go(2)] go(1) by (auto simp: shows_bare_def)
    next
      case (Some p)
      then obtain bi base where b: "bases name = Some (bi, base)" "diff_proposal J ud ctx seg leaf bi base name = Some p"
        by (auto simp: made_def split: option.splits)
      obtain bseg btid where bseg: "bseg \<in> set pre" "index bseg = bi"
        "resolve_tool J (cx_body ctx) bseg = Some (name, btid)" "shows_bare J ctx l' bseg base"
        using inv b(1) unfolding diff_inv_def bases_ok_def fst_conv snd_conv by blast
      have nth: "nth_opt (cx_segments ctx) bi = Some bseg"
      proof -
        obtain k where k: "k < length (cx_segments ctx)" "bseg = cx_segments ctx ! k"
          using bseg(1) sub by (metis in_set_conv_nth subsetD)
        then show ?thesis using wf_segments_nth[OF wf k(1)] bseg(2) by (simp add: nth_opt_def)
      qed
      let ?d = "diff_header name btid @ [10] @ ud base (lf_content leaf)"
      have d: "ref_recode seg leaf ?d (utf8 (lf_content leaf)) ''seq_diff'' = Some p" "2 * str_len ?d \<le> str_len (lf_content leaf)"
        using diff_proposal_Some[OF b(2)] nth bseg(3) by (metis option.inject prod.inject)+
      have p: "pr_seg_index p = index seg" using ref_recode_Some[OF d(1)] by simp
      have "recode_leaf J (cx_body ctx) seg l = Some leaf" using go(1) recode_leaf_cong[OF cur] by simp
      moreover have "shows_bare J ctx (upsert_proposal p l') bseg base"
        using shows_bare_upsert[OF bseg(4) ok] p idx(2) bseg(1) by fastforce
      moreover have "proposal_for (upsert_proposal p l') (index seg) = Some p" using ok p by (simp add: ledger.lookup_upsert)
      ultimately have "diffed J ud ctx l (upsert_proposal p l') seg"
        unfolding diffed_def using go(2) bseg(1,3) sub idx(2) ref_recode_Some[OF d(1)] d(2) by blast
      then show ?thesis using diff_inv_upsert[OF inv p idx(2) sub] step Some by simp
    qed
  qed
qed

lemma seq_diff_fold_inv:
  assumes "wf_segments (cx_segments ctx)" "ledger_ok l" "cx_segments ctx = pre @ post"
  shows "diff_inv J ud ctx l pre (fold (seq_diff_step J ud ctx) pre (Map.empty, l))"
  using assms(3)
proof (induction pre arbitrary: post rule: rev_induct)
  case Nil
  then show ?case using assms(2) by (simp add: diff_inv_def bases_ok_def)
next
  case (snoc seg pre)
  then show ?case using seq_diff_step_inv[OF assms(1), of pre seg post] by simp
qed

lemma seq_diff_step_keeps:
  assumes "recode_inv J inl ctx (snd st)" "seg \<in> set (cx_segments ctx)"
  shows "recode_inv J inl ctx (snd (seq_diff_step J ud ctx seg st))"
proof -
  obtain bases l where st: "st = (bases, l)" by force
  have "proposal_recoverable J inl (cx_body ctx) (cx_segments ctx) p"
    if leaf: "recode_leaf J (cx_body ctx) seg l = Some leaf" and p: "diff_proposal J ud ctx seg leaf bi base name = Some p"
    for leaf bi base name p
  proof -
    obtain t where "ref_recode seg leaf t (utf8 (lf_content leaf)) ''seq_diff'' = Some p"
      using diff_proposal_Some[OF p] by metis
    then show ?thesis using stored.refine_recoverable[OF _ assms(2) leaf] assms(1) st by simp
  qed
  then show ?thesis using assms(1) recode_inv_upsert unfolding seq_diff_step_def st
    by (fastforce simp: Let_def split: option.splits prod.splits)
qed

section \<open>A concrete run\<close>

text \<open>Two calls of one tool with the same two thousand bytes as their result.\<close>

definition twin_text :: str where "twin_text = replicate 2000 97"

definition twin_serde :: serde where
  "twin_serde = demo_serde\<lparr>js_id_fields := (\<lambda>r. Some \<lparr>idf_id = Some (lit ''u''), idf_tool_use_id = Some (lit ''u''),
     idf_name = Some (lit ''Bash'')\<rparr>)\<rparr>"

definition twin_body :: WireBody where
  "twin_body = demo_body\<lparr>messages := [\<lparr>role = RoleAssistant, content = MBlocks [BToolUse []]\<rparr>,
     \<lparr>role = RoleUser, content = MBlocks [BToolResult twin_text]\<rparr>,
     \<lparr>role = RoleAssistant, content = MBlocks [BToolUse []]\<rparr>,
     \<lparr>role = RoleUser, content = MBlocks [BToolResult twin_text]\<rparr>]\<rparr>"

definition twin_segment :: "nat \<Rightarrow> Segment" where
  "twin_segment k = demo_segment k ToolPair\<lparr>source_uuids := [message_id (2 * k), message_id (2 * k + 1)]\<rparr>"

definition twin_ctx :: "PassCtx \<Rightarrow> PassCtx" where
  "twin_ctx ctx = ctx\<lparr>cx_body := twin_body, cx_segments := [twin_segment 0, twin_segment 1]\<rparr>"

definition twin_leaf :: RecodeLeaf where
  "twin_leaf = \<lparr>lf_content = twin_text, lf_original_tokens = estimate_chars_proxy twin_text, lf_carried_ref = None\<rparr>"

lemma twin_text_len: "str_len twin_text = 2000"
  unfolding twin_text_def by (subst str_len_ascii) auto

lemma twin_raw_leaf:
  assumes "k < 2"
  shows "raw_recode_leaf twin_serde twin_body (twin_segment k) = Some twin_leaf"
proof -
  have users: "user_messages twin_body (twin_segment k) = [2 * k + 1]"
    using assms by (auto simp: less_2_cases_iff user_messages_def twin_body_def twin_segment_def message_id_def
        parse_usize_dec nth_opt_def)
  have kind: "kind (twin_segment k) = ToolPair" "\<not> pinned (twin_segment k)" "\<not> is_true_human (twin_segment k)"
    by (simp_all add: twin_segment_def demo_segment_def)
  have block: "nth_opt (messages twin_body) (Suc (2 * k)) = Some \<lparr>role = RoleUser, content = MBlocks [BToolResult twin_text]\<rparr>"
    using assms by (auto simp: less_2_cases_iff twin_body_def)
  have "tool_result_text twin_serde twin_text = Some twin_text"
    by (simp add: tool_result_text_def twin_serde_def demo_serde_def)
  then have "tool_result_strings twin_serde twin_body (Suc (2 * k)) = [twin_text]"
    unfolding tool_result_strings_def block by simp
  then have "leaf_strings twin_serde twin_body (twin_segment k) = [twin_text]"
    unfolding leaf_strings_def users by (simp add: kind)
  moreover have "(case nth_opt (messages twin_body) (Suc (2 * k)) of None \<Rightarrow> [] | Some w \<Rightarrow> blocks (content w))
      = [BToolResult twin_text]" unfolding block by simp
  then have "sole_squash_target twin_body (twin_segment k)"
    unfolding sole_squash_target_def users
    by (simp add: kind is_tool_result_def MIN_BLOCK_SPAN_def twin_text_len)
  ultimately show ?thesis
    by (simp add: raw_recode_leaf_def kind raw_leaf_def MIN_RECODE_SPAN_def twin_text_len twin_leaf_def)
qed

lemma twin_ctx_simps [simp]: "cx_segments (twin_ctx ctx) = [twin_segment 0, twin_segment 1]"
  "cx_body (twin_ctx ctx) = twin_body" "index (twin_segment k) = k"
  by (simp_all add: twin_ctx_def twin_segment_def demo_segment_def)

lemma twin_wf: "wf_segments (cx_segments (twin_ctx ctx))" "ledger_ok (PlanLedger_sized n)"
  "proposal_for (PlanLedger_sized n) i = None"
  by (simp_all add: wf_segments_def ledger_ok_def PlanLedger_sized_def proposal_for_def)

section \<open>Properties\<close>

text \<open>C26: blob extraction never panics on its byte offsets and replaces exactly a longest run of base64
  characters, keeping the text around it; it leaves the leaf alone exactly when every run is shorter
  than 512 characters.\<close>

theorem extract_blob_replaces_longest_run:
  "(extract_blob s = Some None \<and> (\<forall>a r b. s = a @ r @ b \<and> list_all is_b64 r \<longrightarrow> length r < MIN_BLOB_CHARS)) \<or>
   (\<exists>a r b. s = a @ r @ b \<and> list_all is_b64 r \<and> MIN_BLOB_CHARS \<le> length r \<and>
      extract_blob s = Some (Some (a @ blob_marker (length r) @ b)) \<and>
      (\<forall>a' r' b'. s = a' @ r' @ b' \<and> list_all is_b64 r' \<longrightarrow> length r' \<le> length r))"
proof -
  have run: "b64_run s a r b \<or> r = []" if "s = a @ r @ b \<and> list_all is_b64 r" for a r b
    using that by (simp add: b64_run_def)
  from extract_blob_spec[of s] show ?thesis
  proof
    assume "extract_blob s = Some None \<and> (\<forall>a r b. b64_run s a r b \<longrightarrow> length r < MIN_BLOB_CHARS)"
    then show ?thesis using run by (metis MIN_BLOB_CHARS_def list.size(3) zero_less_numeral)
  next
    assume "\<exists>a r b. b64_run s a r b \<and> MIN_BLOB_CHARS \<le> length r \<and> (\<forall>a' r' b'. b64_run s a' r' b' \<longrightarrow> length r' \<le> length r) \<and>
      extract_blob s = Some (Some (a @ blob_marker (length r) @ b))"
    then obtain a r b where *: "b64_run s a r b" "MIN_BLOB_CHARS \<le> length r"
      "\<forall>a' r' b'. b64_run s a' r' b' \<longrightarrow> length r' \<le> length r"
      "extract_blob s = Some (Some (a @ blob_marker (length r) @ b))" by blast
    have "\<forall>a' r' b'. s = a' @ r' @ b' \<and> list_all is_b64 r' \<longrightarrow> length r' \<le> length r"
      using run *(3) by (metis le0 list.size(3))
    moreover have "s = a @ r @ b \<and> list_all is_b64 r" using *(1) by (simp add: b64_run_def)
    ultimately show ?thesis using *(2,4) by blast
  qed
qed

theorem extract_blob_replaces_longest_run_witness:
  "extract_blob (lit ''out: '' @ replicate 600 65 @ lit '' done'') =
     Some (Some (lit ''out: '' @ blob_marker 600 @ lit '' done''))"
proof -
  let ?s = "lit ''out: '' @ replicate 600 65 @ lit '' done''"
  have all: "list_all is_b64 (replicate 600 65)" by (simp add: list_all_iff is_b64_def)
  have not: "\<not> is_b64 32" by (simp add: is_b64_def)
  have "\<not> (\<forall>a r b. ?s = a @ r @ b \<and> list_all is_b64 r \<longrightarrow> length r < MIN_BLOB_CHARS)"
    unfolding not_all by (intro exI[of _ "lit ''out: ''"] exI[of _ "replicate 600 65"] exI[of _ "lit '' done''"])
      (simp add: all MIN_BLOB_CHARS_def)
  then obtain a r b where run: "?s = a @ r @ b" "list_all is_b64 r"
    "extract_blob ?s = Some (Some (a @ blob_marker (length r) @ b))"
    and max: "\<forall>a' r' b'. ?s = a' @ r' @ b' \<and> list_all is_b64 r' \<longrightarrow> length r' \<le> length r"
    using extract_blob_replaces_longest_run[of ?s] by blast
  have "600 \<le> length r" using max all by (metis length_replicate)
  have "a = lit ''out: '' \<and> r = replicate 600 65 \<and> b = lit '' done''"
    using run_between[of "lit ''out:''" 32 "replicate 600 65" 32 "lit ''done''" a r b] run(1,2) all not
      \<open>600 \<le> length r\<close>
    by (simp add: lit_def)
  with run(3) show ?thesis by simp
qed

text \<open>The dedup pass writes a back reference for a segment exactly when its raw leaf is at least 1024
  bytes long and an earlier segment has the same one: its proposal then shows nothing and stores the
  leaf's bytes.  Every other segment keeps the proposal it had, the first copy included.\<close>

theorem dedup_backrefs_exactly_later_copies:
  assumes "ledger_ok l" "distinct (map index (cx_segments ctx))" "cx_segments ctx = pre @ seg # post"
  shows "\<exists>l'. pass_apply (DedupBackrefPass J) ctx l = Some (l', Continue) \<and>
    (if \<exists>leaf s leaf'. raw_recode_leaf J (cx_body ctx) seg = Some leaf \<and> 1024 \<le> str_len (lf_content leaf) \<and>
          s \<in> set pre \<and> raw_recode_leaf J (cx_body ctx) s = Some leaf' \<and> lf_content leaf' = lf_content leaf
     then \<exists>leaf p. raw_recode_leaf J (cx_body ctx) seg = Some leaf \<and> proposal_for l' (index seg) = Some p \<and>
            pr_strategy p = SRecode [] None \<and> pr_needs_ref p = Some (utf8 (lf_content leaf))
     else proposal_for l' (index seg) = proposal_for l (index seg))"
proof -
  let ?l = "dedup_segments J (cx_body ctx) (cx_segments ctx) {} l"
  let ?dup = "\<exists>leaf s leaf'. raw_recode_leaf J (cx_body ctx) seg = Some leaf \<and> 1024 \<le> str_len (lf_content leaf) \<and>
          s \<in> set pre \<and> raw_recode_leaf J (cx_body ctx) s = Some leaf' \<and> lf_content leaf' = lf_content leaf"
  let ?b = "backref_for J (cx_body ctx) (registered J (cx_body ctx) pre) seg"
  have look: "proposal_for ?l (index seg) = (case ?b of Some p \<Rightarrow> Some p | None \<Rightarrow> proposal_for l (index seg))"
    using dedup_lookup[OF assms, of J "cx_body ctx" "{}"] by simp
  show ?thesis
  proof (cases ?dup)
    case True
    then obtain leaf where leaf: "raw_recode_leaf J (cx_body ctx) seg = Some leaf"
      "1024 \<le> str_len (lf_content leaf)" "lf_content leaf \<in> registered J (cx_body ctx) pre"
      by (force simp: registered_def DEDUPE_MIN_CHARS_def)
    then obtain p where p: "?b = Some p" "ref_recode seg leaf [] (utf8 (lf_content leaf)) ''dedup_backref'' = Some p"
      by (auto simp: backref_for_def DEDUPE_MIN_CHARS_def ref_recode_def)
    have "lf_carried_ref leaf = None" using leaf(1) by (auto dest!: raw_recode_leaf_Some raw_leaf_Some)
    then show ?thesis using True look p leaf(1) ref_recode_Some[OF p(2)] by (auto simp: DedupBackrefPass_def)
  next
    case False
    then have "?b = None"
      by (auto simp: backref_for_def registered_def DEDUPE_MIN_CHARS_def split: option.splits) blast
    then have "proposal_for ?l (index seg) = proposal_for l (index seg)" using look by simp
    then show ?thesis unfolding if_not_P[OF False] by (simp add: DedupBackrefPass_def)
  qed
qed

theorem dedup_backrefs_exactly_later_copies_witness:
  "\<forall>ctx. \<exists>l' p. pass_apply (DedupBackrefPass twin_serde) (twin_ctx ctx) (PlanLedger_sized 2) = Some (l', Continue) \<and>
     proposal_for l' 1 = Some p \<and> pr_strategy p = SRecode [] None \<and> pr_needs_ref p = Some (utf8 twin_text)"
proof
  fix ctx
  have leaf: "raw_recode_leaf twin_serde twin_body (twin_segment 0) = Some twin_leaf"
    "raw_recode_leaf twin_serde twin_body (twin_segment 1) = Some twin_leaf"
    using twin_raw_leaf[of 0] twin_raw_leaf[of 1] by simp_all
  have "lf_content twin_leaf = twin_text" by (simp add: twin_leaf_def)
  then show "\<exists>l' p. pass_apply (DedupBackrefPass twin_serde) (twin_ctx ctx) (PlanLedger_sized 2) = Some (l', Continue) \<and>
     proposal_for l' 1 = Some p \<and> pr_strategy p = SRecode [] None \<and> pr_needs_ref p = Some (utf8 twin_text)"
    using dedup_backrefs_exactly_later_copies[of "PlanLedger_sized 2" "twin_ctx ctx" "[twin_segment 0]" "twin_segment 1" "[]" twin_serde]
      leaf twin_wf(2)[of 2]
    by (auto simp: twin_text_len)
qed

text \<open>C27: every diff the model is shown is against text the model is shown.  Whenever the diff pass
  changes a segment's proposal, the new one is a header and the unified diff from the text of an
  earlier segment of the same tool, named by its own tool-use id; in the final plan that earlier
  segment still shows exactly that text with nothing stored behind it; the diff is at most half as
  long as the text it replaces, which stays retrievable.\<close>

theorem seq_diff_bases_stay_visible:
  assumes "wf_segments (cx_segments ctx)" "ledger_ok l"
  shows "\<exists>l'. pass_apply (SeqDiffPass J ud) ctx l = Some (l', Continue) \<and>
    (\<forall>seg \<in> set (cx_segments ctx). proposal_for l' (index seg) \<noteq> proposal_for l (index seg) \<longrightarrow>
      (\<exists>leaf name tid bseg btid bleaf p.
        recode_leaf J (cx_body ctx) seg l = Some leaf \<and> resolve_tool J (cx_body ctx) seg = Some (name, tid) \<and>
        bseg \<in> set (cx_segments ctx) \<and> index bseg < index seg \<and> resolve_tool J (cx_body ctx) bseg = Some (name, btid) \<and>
        recode_leaf J (cx_body ctx) bseg l' = Some bleaf \<and> lf_carried_ref bleaf = None \<and>
        proposal_for l' (index seg) = Some p \<and> pr_needs_ref p \<noteq> None \<and>
        pr_strategy p = SRecode (diff_header name btid @ [10] @ ud (lf_content bleaf) (lf_content leaf)) None \<and>
        2 * str_len (rc_content (pr_strategy p)) \<le> str_len (lf_content leaf)))"
proof -
  let ?l = "snd (fold (seq_diff_step J ud ctx) (cx_segments ctx) (Map.empty, l))"
  have "diffed J ud ctx l ?l seg"
    if "seg \<in> set (cx_segments ctx)" "proposal_for ?l (index seg) \<noteq> proposal_for l (index seg)" for seg
    using seq_diff_fold_inv[OF assms, of "cx_segments ctx" "[]" J ud] that by (simp add: diff_inv_def)
  then show ?thesis unfolding diffed_def shows_bare_def SeqDiffPass_def seq_diff_apply_def by fastforce
qed

lemma twin_resolve: "k < 2 \<Longrightarrow> resolve_tool twin_serde twin_body (twin_segment k) = Some (lit ''Bash'', lit ''u'')"
  by (auto simp: less_2_cases_iff resolve_tool_def role_blocks_def message_at_def twin_segment_def twin_body_def
      message_id_def parse_usize_dec nth_opt_def first_opt_def tool_result_text_def twin_serde_def demo_serde_def
      tool_use_id_def tool_name_def is_client_tool_use_def)

lemma twin_diff:
  "proposal_for (snd (fold (seq_diff_step twin_serde (\<lambda>_ _. []) (twin_ctx ctx)) [twin_segment 0, twin_segment 1]
     (Map.empty, PlanLedger_sized 2))) 1 \<noteq> None"
proof -
  let ?l = "PlanLedger_sized 2"
  have leaf: "recode_leaf twin_serde twin_body (twin_segment k) ?l = Some twin_leaf" if "k < 2" for k
    using twin_raw_leaf[OF that] that
    by (simp add: recode_leaf_def raw_recode_leaf_def twin_wf(3) split: if_splits)
  have one: "seq_diff_step twin_serde (\<lambda>_ _. []) (twin_ctx ctx) (twin_segment 0) (Map.empty, ?l) =
      ([lit ''Bash'' \<mapsto> (0, twin_text)], ?l)"
    by (simp add: seq_diff_step_def leaf twin_wf(3) twin_resolve twin_leaf_def twin_text_len G_MIN_BYTES_def)
  have "length (lines twin_text) = 1" by (simp add: twin_text_def lines_last)
  moreover have "str_len (diff_header (lit ''Bash'') (lit ''u'') @ [10]) \<le> 200"
    by (simp add: diff_header_def lit_def utf8_width_def)
  ultimately obtain p where p: "diff_proposal twin_serde (\<lambda>_ _. []) (twin_ctx ctx) (twin_segment 1) twin_leaf 0 twin_text (lit ''Bash'') = Some p"
    by (simp add: diff_proposal_def Let_def twin_leaf_def twin_text_len G_MIN_BYTES_def G_MAX_BYTES_def G_MAX_LINES_def
        nth_opt_def twin_resolve ref_recode_def)
  have "pr_seg_index p = 1"
    by (rule diff_proposal_Some[OF p]) (drule ref_recode_Some, simp)
  then show ?thesis
    using leaf[of 1] one p twin_wf(2)[of 2]
    by (simp add: seq_diff_step_def twin_wf(3) twin_resolve ledger.lookup_upsert)
qed

theorem seq_diff_bases_stay_visible_witness:
  "\<forall>ctx. \<exists>l' p. pass_apply (SeqDiffPass twin_serde (\<lambda>_ _. [])) (twin_ctx ctx) (PlanLedger_sized 2) = Some (l', Continue) \<and>
     proposal_for l' 1 = Some p \<and> pr_needs_ref p \<noteq> None"
proof
  fix ctx
  show "\<exists>l' p. pass_apply (SeqDiffPass twin_serde (\<lambda>_ _. [])) (twin_ctx ctx) (PlanLedger_sized 2) = Some (l', Continue) \<and>
     proposal_for l' 1 = Some p \<and> pr_needs_ref p \<noteq> None"
    using seq_diff_bases_stay_visible[of "twin_ctx ctx" "PlanLedger_sized 2" twin_serde "\<lambda>_ _. []"]
      twin_wf(1)[of ctx] twin_wf(2,3)[of 2] twin_diff[of ctx]
    by (auto simp: SeqDiffPass_def seq_diff_apply_def)
qed

end
