(* ===== verification/Markup.thy ===== *)
theory Markup
  imports Lossy
begin

text \<open>
  Pass I, \<^verbatim>\<open>markup_strip.rs\<close>: recognising HTML and rendering it to text.  The scanner works
  on the bytes of the leaf and pushes characters; every slice and index of the source is an
  \<open>option\<close> here.  \<open>strip_html\<close> returns \<open>None\<close> for a panic, \<open>Some None\<close> where the
  source gives up on the markup and \<open>Some (Some text)\<close> for the rendered text.
\<close>

section \<open>Byte helpers\<close>

definition MIN_TAG_HITS :: nat where "MIN_TAG_HITS = 8"

definition MIN_DISTINCT_TAGS :: nat where "MIN_DISTINCT_TAGS = 3"

definition UNQUOTED_TAG_WINDOW :: nat where "UNQUOTED_TAG_WINDOW = 256"

definition HTML_TAGS :: "str list" where
  "HTML_TAGS = map lit [''div'', ''p'', ''a'', ''span'', ''li'', ''ul'', ''ol'', ''table'', ''tr'', ''td'', ''br'',
     ''head'', ''body'', ''title'', ''h1'', ''h2'', ''h3'', ''h4'', ''h5'', ''h6'', ''script'', ''style'']"

definition BLOCK_TAGS :: "str list" where
  "BLOCK_TAGS = map lit [''p'', ''div'', ''li'', ''tr'', ''table'', ''ul'', ''ol'', ''h1'', ''h2'', ''h3'', ''h4'', ''h5'',
     ''h6'', ''br'', ''section'', ''article'', ''header'', ''footer'', ''pre'', ''blockquote'']"

definition CELL_TAGS :: "str list" where
  "CELL_TAGS = map lit [''td'', ''th'']"

definition slice_opt :: "'a list \<Rightarrow> nat \<Rightarrow> nat \<Rightarrow> 'a list option" where
  "slice_opt xs i j = (if i \<le> j \<and> j \<le> length xs then Some (take (j - i) (drop i xs)) else None)"

definition to_ascii_lowercase :: "nat \<Rightarrow> nat" where
  "to_ascii_lowercase b = (if 65 \<le> b \<and> b \<le> 90 then b + 32 else b)"

definition eq_ignore_ascii_case :: "nat list \<Rightarrow> nat list \<Rightarrow> bool" where
  "eq_ignore_ascii_case a b = (map to_ascii_lowercase a = map to_ascii_lowercase b)"

definition is_ascii_alphabetic :: "nat \<Rightarrow> bool" where
  "is_ascii_alphabetic b = ((65 \<le> b \<and> b \<le> 90) \<or> (97 \<le> b \<and> b \<le> 122))"

definition is_ascii_alphanumeric :: "nat \<Rightarrow> bool" where
  "is_ascii_alphanumeric b = (is_ascii_alphabetic b \<or> is_digit b)"

definition is_tag_boundary :: "nat \<Rightarrow> bool" where
  "is_tag_boundary b = (b = 32 \<or> b = 9 \<or> b = 10 \<or> b = 12 \<or> b = 13 \<or> b = 47 \<or> b = 62)"

definition starts_tag :: "nat \<Rightarrow> bool" where
  "starts_tag b = (is_ascii_alphabetic b \<or> b = 47 \<or> b = 33)"

definition starts_ascii_case_insensitive :: "str \<Rightarrow> nat list \<Rightarrow> bool" where
  "starts_ascii_case_insensitive input p = (case slice_opt (utf8 input) 0 (length p) of
      Some candidate \<Rightarrow> eq_ignore_ascii_case candidate p | None \<Rightarrow> False)"

definition named_tag_with_prefix_at :: "nat list \<Rightarrow> nat \<Rightarrow> nat list \<Rightarrow> nat list \<Rightarrow> bool" where
  "named_tag_with_prefix_at bytes start name p =
     (let name_start = start + length p; name_end = name_start + length name in
      slice_opt bytes start name_start = Some p \<and>
      (case slice_opt bytes name_start name_end of Some candidate \<Rightarrow> eq_ignore_ascii_case candidate name | None \<Rightarrow> False) \<and>
      (case nth_opt bytes name_end of Some b \<Rightarrow> is_tag_boundary b | None \<Rightarrow> True))"

definition named_opening_tag_at :: "nat list \<Rightarrow> nat \<Rightarrow> nat list \<Rightarrow> bool" where
  "named_opening_tag_at bytes start name = named_tag_with_prefix_at bytes start name (lit ''<'')"

definition named_closing_tag_at :: "nat list \<Rightarrow> nat \<Rightarrow> nat list \<Rightarrow> bool" where
  "named_closing_tag_at bytes start name = named_tag_with_prefix_at bytes start name (lit ''</'')"

definition named_tag_at :: "nat list \<Rightarrow> nat \<Rightarrow> nat list \<Rightarrow> bool" where
  "named_tag_at bytes start name = (named_opening_tag_at bytes start name \<or> named_closing_tag_at bytes start name)"

definition find_byte :: "nat list \<Rightarrow> nat \<Rightarrow> nat \<Rightarrow> nat option" where
  "find_byte bytes start needle =
     (if start \<le> length bytes then map_option ((+) start) (position (\<lambda>b. b = needle) (drop start bytes)) else None)"

fun position_window :: "nat list \<Rightarrow> nat list \<Rightarrow> nat option" where
  "position_window needle [] = None"
| "position_window needle (b # bs) =
     (if length (b # bs) < length needle then None
      else if take (length needle) (b # bs) = needle then Some 0
      else map_option Suc (position_window needle bs))"

definition find_bytes :: "nat list \<Rightarrow> nat \<Rightarrow> nat list \<Rightarrow> nat option" where
  "find_bytes bytes start needle =
     (if start \<le> length bytes then map_option ((+) start) (position_window needle (drop start bytes)) else None)"

lemma position_Some: "position P xs = Some i \<Longrightarrow> i < length xs \<and> P (xs ! i)"
  by (rule position_bound)

lemma find_byte_Some: "find_byte bytes start b = Some i \<Longrightarrow> start \<le> i \<and> i < length bytes \<and> bytes ! i = b"
  by (auto simp: find_byte_def dest!: position_Some split: if_splits)

lemma position_window_Some:
  "position_window needle bs = Some i \<Longrightarrow> i + length needle \<le> length bs \<and> take (length needle) (drop i bs) = needle"
  by (induction needle bs arbitrary: i rule: position_window.induct) (auto split: if_splits)

lemma find_bytes_Some:
  "find_bytes bytes start needle = Some i \<Longrightarrow> start \<le> i \<and> i + length needle \<le> length bytes \<and>
     take (length needle) (drop i bytes) = needle"
  by (auto simp: find_bytes_def add.commute dest!: position_window_Some split: if_splits)

section \<open>Scanning tags\<close>

function find_tag_end_from :: "nat list \<Rightarrow> nat \<Rightarrow> nat \<Rightarrow> nat option" where
  "find_tag_end_from bytes i unquoted_run = (case nth_opt bytes i of
      None \<Rightarrow> None
    | Some b \<Rightarrow>
        if b = 62 then Some i
        else if b = 34 \<or> b = 39
        then (case find_byte bytes (i + 1) b of None \<Rightarrow> None | Some j \<Rightarrow> find_tag_end_from bytes (j + 1) 0)
        else if UNQUOTED_TAG_WINDOW < unquoted_run + 1 then None
        else find_tag_end_from bytes (i + 1) (unquoted_run + 1))"
  by pat_completeness auto

termination
  by (relation "measure (\<lambda>(bytes, i, _). length bytes - i)") (auto dest!: find_byte_Some)

declare find_tag_end_from.simps [simp del]

definition find_tag_end :: "nat list \<Rightarrow> nat \<Rightarrow> nat option" where
  "find_tag_end bytes start = find_tag_end_from bytes (start + 1) 0"

function find_closing_tag :: "nat list \<Rightarrow> nat \<Rightarrow> nat list \<Rightarrow> nat option" where
  "find_closing_tag bytes cursor name =
     (if cursor < length bytes
      then (case find_byte bytes cursor 60 of
              None \<Rightarrow> None
            | Some candidate \<Rightarrow>
                if named_closing_tag_at bytes candidate name then Some candidate
                else find_closing_tag bytes (candidate + 1) name)
      else None)"
  by pat_completeness auto

termination
  by (relation "measure (\<lambda>(bytes, i, _). length bytes - i)") (auto dest!: find_byte_Some)

declare find_closing_tag.simps [simp del]

definition decoded_entity :: "nat list \<Rightarrow> (nat \<times> nat) option" where
  "decoded_entity bytes = map_option (\<lambda>(e, c). (c, length e))
     (find (\<lambda>(e, c). starts_with bytes e)
       [(lit ''&amp;'', 38), (lit ''&lt;'', 60), (lit ''&gt;'', 62), (lit ''&quot;'', 34), (lit ''&#39;'', 39), (lit ''&nbsp;'', 32)])"

lemma find_tag_end_from_Some:
  "find_tag_end_from bytes i u = Some j \<Longrightarrow> i \<le> j \<and> j < length bytes \<and> bytes ! j = 62"
proof (induction "length bytes - i" arbitrary: i u rule: less_induct)
  case less
  note IH = less.hyps and run = less.prems[unfolded find_tag_end_from.simps[of bytes i u]]
  have i: "i < length bytes" using run by (auto simp: nth_opt_def split: if_splits)
  show ?case
  proof (cases "bytes ! i = 34 \<or> bytes ! i = 39")
    case True
    then obtain k where "find_byte bytes (i + 1) (bytes ! i) = Some k" "find_tag_end_from bytes (k + 1) 0 = Some j"
      using run i by (auto simp: nth_opt_def split: option.splits if_splits)
    moreover have k: "i + 1 \<le> k" "k < length bytes" using calculation(1) find_byte_Some by blast+
    then have "length bytes - (k + 1) < length bytes - i" by arith
    ultimately have "k + 1 \<le> j \<and> j < length bytes \<and> bytes ! j = 62" using IH[of "k + 1" 0] by blast
    then show ?thesis using k by arith
  next
    case False
    have "length bytes - (i + 1) < length bytes - i" using i by arith
    moreover have "bytes ! i = 62 \<and> j = i \<or> find_tag_end_from bytes (i + 1) (u + 1) = Some j"
      using run i False by (auto simp: nth_opt_def split: if_splits)
    ultimately have "bytes ! i = 62 \<and> j = i \<or> i + 1 \<le> j \<and> j < length bytes \<and> bytes ! j = 62"
      using IH[of "i + 1" "u + 1"] by blast
    then show ?thesis using i by auto
  qed
qed

lemma find_tag_end_Some:
  "find_tag_end bytes i = Some j \<Longrightarrow> i < j \<and> j < length bytes \<and> bytes ! j = 62"
  by (auto simp: find_tag_end_def dest!: find_tag_end_from_Some)

lemma find_closing_tag_Some: "find_closing_tag bytes i name = Some j \<Longrightarrow> i \<le> j \<and> j < length bytes"
proof (induction "length bytes - i" arbitrary: i rule: less_induct)
  case less
  from less.prems[unfolded find_closing_tag.simps[of bytes i name]]
  obtain k where k: "find_byte bytes i 60 = Some k"
    "k = j \<or> find_closing_tag bytes (k + 1) name = Some j"
    by (auto split: option.splits if_splits)
  have b: "i \<le> k" "k < length bytes" using find_byte_Some[OF k(1)] by simp_all
  then have "length bytes - (k + 1) < length bytes - i" by arith
  then have "k = j \<or> k + 1 \<le> j \<and> j < length bytes" using less.hyps[of "k + 1"] k(2) by blast
  then show ?case using b by arith
qed

lemma decoded_entity_Some:
  "decoded_entity bs = Some (c, w) \<Longrightarrow> 0 < w \<and> w \<le> length bs \<and> bs ! (w - 1) = 59 \<and> c < 128"
  by (auto simp: decoded_entity_def starts_with_iff lit_def split: if_splits)

section \<open>Tags and the renderer\<close>

datatype Separator = SepSpace | SepNewline

definition sep_max :: "Separator \<Rightarrow> Separator \<Rightarrow> Separator" where
  "sep_max a b = (if a = SepNewline \<or> b = SepNewline then SepNewline else SepSpace)"

record Tag =
  tag_name :: "nat list"
  closing :: bool
  self_closing :: bool

definition Tag_parse :: "nat list \<Rightarrow> nat \<Rightarrow> nat \<Rightarrow> Tag option" where
  "Tag_parse bytes start tag_end =
     (let is_closing = (nth_opt bytes (start + 1) = Some 47);
          name_start = start + 1 + (if is_closing then 1 else 0)
      in case slice_opt bytes name_start tag_end of None \<Rightarrow> None
         | Some inside \<Rightarrow>
             let name_end = name_start + length (takeWhile is_ascii_alphanumeric inside) in
             (case slice_opt bytes name_start name_end of None \<Rightarrow> None
              | Some name \<Rightarrow> (case nth_opt bytes (tag_end - 1) of None \<Rightarrow> None
                | Some b \<Rightarrow> Some \<lparr>tag_name = name, closing = is_closing, self_closing = (b = 47)\<rparr>)))"

definition tag_is :: "Tag \<Rightarrow> nat list \<Rightarrow> bool" where
  "tag_is self name = eq_ignore_ascii_case (tag_name self) name"

definition tag_separator :: "Tag \<Rightarrow> Separator option" where
  "tag_separator self =
     (if tag_is self (lit ''br'') then Some SepNewline
      else if \<not> closing self \<and> \<not> self_closing self then None
      else if list_ex (tag_is self) CELL_TAGS then Some SepSpace
      else if list_ex (tag_is self) BLOCK_TAGS then Some SepNewline else None)"

record Renderer =
  out :: str
  trailing_newlines :: nat
  pending :: "Separator option"
  pre_depth :: nat

definition Renderer_new :: Renderer where
  "Renderer_new = \<lparr>out = [], trailing_newlines = 0, pending = None, pre_depth = 0\<rparr>"

definition push_raw :: "nat \<Rightarrow> Renderer \<Rightarrow> Renderer" where
  "push_raw ch self = self\<lparr>trailing_newlines := (if ch = 10 then trailing_newlines self + 1 else 0),
     out := out self @ [ch]\<rparr>"

definition newline_capped :: "Renderer \<Rightarrow> Renderer" where
  "newline_capped self = (if trailing_newlines self < 2 then push_raw 10 self else self)"

definition flush_pending :: "Renderer \<Rightarrow> Renderer" where
  "flush_pending self = (case pending self of
      Some SepNewline \<Rightarrow> newline_capped (self\<lparr>pending := None\<rparr>)
    | Some SepSpace \<Rightarrow> push_raw 32 (self\<lparr>pending := None\<rparr>)
    | None \<Rightarrow> self\<lparr>pending := None\<rparr>)"

definition push_text :: "nat \<Rightarrow> Renderer \<Rightarrow> Renderer" where
  "push_text ch self = (if ch = 10 then newline_capped self else push_raw ch self)"

definition push_char :: "nat \<Rightarrow> Renderer \<Rightarrow> Renderer" where
  "push_char ch self =
     (if 0 < pre_depth self then push_raw ch (flush_pending self)
      else case pending self of
          Some SepNewline \<Rightarrow>
            if ch = 10 then push_text ch (self\<lparr>pending := None\<rparr>)
            else if ch = 32 \<or> ch = 9 then self
            else push_text ch (flush_pending self)
        | Some SepSpace \<Rightarrow>
            if is_whitespace ch then push_text ch (self\<lparr>pending := None\<rparr>)
            else push_text ch (flush_pending self)
        | None \<Rightarrow> push_text ch self)"

definition render_tag :: "Tag \<Rightarrow> Renderer \<Rightarrow> Renderer" where
  "render_tag tag self =
     (let self' = (if tag_is tag (lit ''pre'') \<or> tag_is tag (lit ''code'')
                   then (if closing tag then self\<lparr>pre_depth := pre_depth self - 1\<rparr>
                         else if self_closing tag then self
                         else self\<lparr>pre_depth := pre_depth self + 1\<rparr>)
                   else self)
      in case tag_separator tag of None \<Rightarrow> self'
         | Some sep \<Rightarrow>
             if pre_depth self' = 0 \<and> out self' \<noteq> []
             then self'\<lparr>pending := Some (case pending self' of None \<Rightarrow> sep | Some prior \<Rightarrow> sep_max prior sep)\<rparr>
             else self')"

lemma lit_close_last: "lit ''-->'' ! 2 = 62"
  by (simp add: lit_def)

section \<open>Rendering\<close>

text \<open>One turn of the scanning loop: give up, panic, or go on at a later index.\<close>

datatype scan_result = Bail | Panic | Go nat Renderer

definition skip_element :: "nat list \<Rightarrow> nat \<Rightarrow> nat list \<Rightarrow> Renderer \<Rightarrow> scan_result" where
  "skip_element bytes tag_end name r = (case find_closing_tag bytes (tag_end + 1) name of
      None \<Rightarrow> Bail
    | Some close \<Rightarrow> (case find_tag_end bytes close of None \<Rightarrow> Bail | Some e \<Rightarrow> Go (e + 1) r))"

definition html_step :: "str \<Rightarrow> nat list \<Rightarrow> nat \<Rightarrow> Renderer \<Rightarrow> scan_result" where
  "html_step input bytes i r =
     (if bytes ! i = 60 then
        if starts_with (drop i bytes) (lit ''<!--'') then
          (case find_bytes bytes (i + 4) (lit ''-->'') of None \<Rightarrow> Bail | Some j \<Rightarrow> Go (j + 3) r)
        else (case nth_opt bytes (i + 1) of None \<Rightarrow> Bail
          | Some nb \<Rightarrow>
              if starts_tag nb then
                (case find_tag_end bytes i of None \<Rightarrow> Bail
                 | Some tag_end \<Rightarrow>
                     if named_opening_tag_at bytes i (lit ''script'') then skip_element bytes tag_end (lit ''script'') r
                     else if named_opening_tag_at bytes i (lit ''style'') then skip_element bytes tag_end (lit ''style'') r
                     else (case Tag_parse bytes i tag_end of None \<Rightarrow> Panic
                           | Some tag \<Rightarrow> Go (tag_end + 1) (render_tag tag r)))
              else Go (i + 1) (push_char 60 r))
      else if bytes ! i = 38 then
        (case decoded_entity (drop i bytes) of
           Some (decoded, width) \<Rightarrow> Go (i + width) (push_char decoded r)
         | None \<Rightarrow> Go (i + 1) (push_char 38 r))
      else (case split_at_byte i input of None \<Rightarrow> Panic
        | Some (_, []) \<Rightarrow> Bail
        | Some (_, ch # _) \<Rightarrow> Go (i + utf8_width ch) (push_char ch r)))"

text \<open>Every turn moves on, and where it goes to follows an ASCII byte or a whole character.\<close>

definition after_ascii :: "nat list \<Rightarrow> nat \<Rightarrow> bool" where
  "after_ascii bytes j = (0 < j \<and> j \<le> length bytes \<and> bytes ! (j - 1) < 128)"

lemma skip_element_Go:
  assumes "skip_element bytes e name r = Go j r'"
  shows "e < j \<and> after_ascii bytes j"
proof -
  obtain close k where k: "find_closing_tag bytes (e + 1) name = Some close" "find_tag_end bytes close = Some k" "j = k + 1"
    using assms by (auto simp: skip_element_def split: option.splits)
  show ?thesis using find_closing_tag_Some[OF k(1)] find_tag_end_Some[OF k(2)] k(3) by (auto simp: after_ascii_def)
qed

lemma html_step_Go:
  assumes go: "html_step input bytes i r = Go j r'" and i: "i < length bytes"
  shows "i < j \<and> (after_ascii bytes j \<or>
    (\<exists>pre ch rest. split_at_byte i input = Some (pre, ch # rest) \<and> j = i + utf8_width ch))"
proof -
  consider (comment) k where "find_bytes bytes (i + 4) (lit ''-->'') = Some k" "j = k + 3"
    | (element) e name where "find_tag_end bytes i = Some e" "skip_element bytes e name r = Go j r'"
    | (tag) e where "find_tag_end bytes i = Some e" "j = e + 1"
    | (lt) "bytes ! i = 60" "j = i + 1"
    | (entity) c w where "decoded_entity (drop i bytes) = Some (c, w)" "j = i + w"
    | (amp) "bytes ! i = 38" "j = i + 1"
    | (char) pre ch rest where "split_at_byte i input = Some (pre, ch # rest)" "j = i + utf8_width ch"
    using go unfolding html_step_def by (auto split: if_splits option.splits list.splits)
  then show ?thesis
  proof cases
    case comment
    have "take 3 (drop k bytes) = lit ''-->''" using find_bytes_Some[OF comment(1)] by (simp add: numeral_3_eq_3)
    then have "take 3 (drop k bytes) ! 2 = 62" using lit_close_last by simp
    then have "drop k bytes ! 2 = 62" by simp
    then show ?thesis using find_bytes_Some[OF comment(1)] comment(2)
      by (simp add: after_ascii_def numeral_eq_Suc)
  next
    case element
    then show ?thesis using skip_element_Go[OF element(2)] find_tag_end_Some[OF element(1)] by auto
  next
    case tag
    then show ?thesis using find_tag_end_Some[OF tag(1)] by (auto simp: after_ascii_def)
  next
    case entity
    then show ?thesis using decoded_entity_Some[OF entity(1)] i by (auto simp: after_ascii_def)
  next
    case char
    then show ?thesis using utf8_width_pos(1)[of ch] by auto
  qed (use i in \<open>auto simp: after_ascii_def\<close>)
qed

function html_loop :: "str \<Rightarrow> nat list \<Rightarrow> nat \<Rightarrow> Renderer \<Rightarrow> str option option" where
  "html_loop input bytes i r =
     (if i < length bytes
      then (case html_step input bytes i r of
              Bail \<Rightarrow> Some None
            | Panic \<Rightarrow> None
            | Go j r' \<Rightarrow> html_loop input bytes j r')
      else Some (Some (out r)))"
  by pat_completeness auto

termination
  by (relation "measure (\<lambda>(_, bytes, i, _). length bytes - i)") (auto dest!: html_step_Go)

declare html_loop.simps [simp del]

definition strip_html :: "str \<Rightarrow> str option option" where
  "strip_html input = (case html_loop input (utf8 input) 0 Renderer_new of
      None \<Rightarrow> None
    | Some None \<Rightarrow> Some None
    | Some (Some shown) \<Rightarrow> Some (if str_len shown < str_len input then Some shown else None))"

section \<open>Recognising HTML\<close>

definition count_ones :: "u32 \<Rightarrow> nat" where
  "count_ones w = length (filter (\<lambda>i. bit w i) [0..<32])"

fun tag_density :: "nat list \<Rightarrow> nat list \<Rightarrow> nat \<Rightarrow> u32 \<Rightarrow> bool" where
  "tag_density bytes [] hits seen = False"
| "tag_density bytes (i # idxs) hits seen =
     (if bytes ! i \<noteq> 60 then tag_density bytes idxs hits seen
      else case position (\<lambda>tag. named_tag_at bytes i tag) HTML_TAGS of
          None \<Rightarrow> tag_density bytes idxs hits seen
        | Some tag \<Rightarrow>
            let hits' = hits + 1; seen' = or seen (push_bit tag 1) in
            if MIN_TAG_HITS \<le> hits' \<and> MIN_DISTINCT_TAGS \<le> count_ones seen' then True
            else tag_density bytes idxs hits' seen')"

definition looks_like_html :: "str \<Rightarrow> bool" where
  "looks_like_html input =
     (let trimmed = trim input; bytes = utf8 trimmed in
      if starts_ascii_case_insensitive trimmed (lit ''<?xml'') then False
      else if starts_ascii_case_insensitive trimmed (lit ''<!doctype html'') \<or>
              starts_ascii_case_insensitive trimmed (lit ''<html'') then True
      else if \<not> starts_with trimmed [60] then False
      else tag_density bytes [0..<length bytes] 0 0)"

definition markup_strip_refine :: "Segment \<Rightarrow> RecodeLeaf \<Rightarrow> Proposal option option" where
  "markup_strip_refine seg leaf =
     (if \<not> looks_like_html (lf_content leaf) then Some None
      else case strip_html (lf_content leaf) of
          None \<Rightarrow> None
        | Some None \<Rightarrow> Some None
        | Some (Some shown) \<Rightarrow> Some (ref_recode seg leaf shown (utf8 (lf_content leaf)) ''markup_strip''))"

definition MarkupStripPass :: "serde \<Rightarrow> Pass" where
  "MarkupStripPass J = \<lparr>pass_id = ''markup_strip'', pass_phase = OffPath,
     pass_apply = try_each_leaf J markup_strip_refine\<rparr>"

section \<open>No panic\<close>

lemma utf8_char_high: "128 \<le> c \<Longrightarrow> b \<in> set (utf8_char c) \<Longrightarrow> 128 \<le> b"
  by (auto simp: utf8_char_def split: if_splits)

lemma ascii_byte_char:
  "i < length (utf8 s) \<Longrightarrow> utf8 s ! i < 128 \<Longrightarrow> \<exists>pre c rest. s = pre @ c # rest \<and> i = str_len pre \<and> c < 128"
proof (induction s arbitrary: i)
  case (Cons c s)
  have u: "utf8 (c # s) = utf8_char c @ utf8 s" by (simp add: utf8_def)
  show ?case
  proof (cases "i < utf8_width c")
    case True
    then have "utf8_char c ! i \<in> set (utf8_char c)" "utf8 (c # s) ! i = utf8_char c ! i"
      by (simp_all add: u length_utf8_char nth_append)
    then have "c < 128" using Cons.prems(2) utf8_char_high[of c "utf8_char c ! i"] by fastforce
    moreover have "i = 0" using True calculation by (simp add: utf8_width_def)
    ultimately show ?thesis by (intro exI[of _ "[]"]) auto
  next
    case False
    then have "i - utf8_width c < length (utf8 s)" "utf8 s ! (i - utf8_width c) < 128"
      using Cons.prems by (auto simp: u length_utf8_char nth_append)
    then obtain pre d rest where "s = pre @ d # rest" "i - utf8_width c = str_len pre" "d < 128"
      using Cons.IH by blast
    then show ?thesis using False by (intro exI[of _ "c # pre"]) auto
  qed
qed (simp add: utf8_def)

definition boundary :: "str \<Rightarrow> nat \<Rightarrow> bool" where
  "boundary s i = (\<exists>pre rest. s = pre @ rest \<and> i = str_len pre)"

lemma boundary_after_ascii:
  assumes "after_ascii (utf8 s) j"
  shows "boundary s j"
proof -
  have "j - 1 < length (utf8 s)" "utf8 s ! (j - 1) < 128" using assms by (auto simp: after_ascii_def)
  then obtain pre c rest where "s = pre @ c # rest" "j - 1 = str_len pre" "c < 128"
    using ascii_byte_char by blast
  then have "s = (pre @ [c]) @ rest" "j = str_len (pre @ [c])"
    using assms by (auto simp: after_ascii_def utf8_width_def)
  then show ?thesis unfolding boundary_def by blast
qed

lemma Tag_parse_total:
  assumes "find_tag_end bytes i = Some e" "i + 1 < length bytes"
  shows "Tag_parse bytes i e \<noteq> None"
proof -
  have e: "i < e" "e < length bytes" "bytes ! e = 62" using find_tag_end_Some[OF assms(1)] by simp_all
  let ?c = "nth_opt bytes (i + 1) = Some 47"
  let ?n = "i + 1 + (if ?c then 1 else 0)"
  have n: "?n \<le> e"
  proof (cases ?c)
    case True
    then have "e \<noteq> i + 1" using e(3) by auto
    then show ?thesis using True e(1) by simp
  qed (use e in simp)
  let ?in = "take (e - ?n) (drop ?n bytes)"
  have "?n + length (takeWhile is_ascii_alphanumeric ?in) \<le> e"
    using length_takeWhile_le[of is_ascii_alphanumeric ?in] n e by simp
  then show ?thesis using n e by (simp add: Tag_parse_def slice_opt_def Let_def nth_opt_def)
qed

lemma html_step_no_panic:
  assumes "boundary input i"
  shows "html_step input (utf8 input) i r \<noteq> Panic"
proof -
  obtain pre rest where "input = pre @ rest" "i = str_len pre" using assms by (auto simp: boundary_def)
  then have split: "split_at_byte i input = Some (pre, rest)" by simp
  have "skip_element (utf8 input) e name r \<noteq> Panic" for e name
    by (simp add: skip_element_def split: option.splits)
  moreover have "Tag_parse (utf8 input) i e \<noteq> None"
    if "find_tag_end (utf8 input) i = Some e" "nth_opt (utf8 input) (i + 1) = Some nb" for e nb
    using Tag_parse_total[OF that(1)] that(2) by (simp add: nth_opt_def split: if_splits)
  ultimately show ?thesis
    by (auto simp: html_step_def split split: option.splits list.splits if_splits)
qed

lemma html_step_boundary:
  assumes "html_step input (utf8 input) i r = Go j r'" "i < length (utf8 input)"
  shows "boundary input j"
proof -
  from html_step_Go[OF assms] consider "after_ascii (utf8 input) j"
    | pre ch rest where "split_at_byte i input = Some (pre, ch # rest)" "j = i + utf8_width ch" by blast
  then show ?thesis
  proof cases
    case 2
    then have "input = (pre @ [ch]) @ rest" "j = str_len (pre @ [ch])" by (auto dest!: split_at_byte_Some)
    then show ?thesis unfolding boundary_def by blast
  qed (rule boundary_after_ascii)
qed

lemma html_loop_total:
  "bytes = utf8 input \<Longrightarrow> boundary input i \<Longrightarrow> html_loop input bytes i r \<noteq> None"
proof (induction input bytes i r rule: html_loop.induct)
  case (1 input bytes i r)
  then show ?case
    using html_step_no_panic[of input i r] html_step_boundary[of input i r]
    by (subst html_loop.simps) (auto split: scan_result.splits)
qed

lemma strip_html_total: "strip_html input \<noteq> None"
proof -
  have "boundary input 0" unfolding boundary_def by (intro exI[of _ "[]"] exI[of _ input]) simp
  then show ?thesis using html_loop_total[of "utf8 input" input 0 Renderer_new]
    by (auto simp: strip_html_def split: option.splits)
qed

definition markup_refined :: "Segment \<Rightarrow> RecodeLeaf \<Rightarrow> Proposal option" where
  "markup_refined seg leaf = (case markup_strip_refine seg leaf of Some p \<Rightarrow> p | None \<Rightarrow> None)"

lemma markup_strip_total: "markup_strip_refine seg leaf = Some (markup_refined seg leaf)"
  using strip_html_total[of "lf_content leaf"]
  by (auto simp: markup_refined_def markup_strip_refine_def split: option.splits)

interpretation markup: leaf_refiner inl markup_refined
  by unfold_locales
     (auto simp: markup_refined_def markup_strip_refine_def dest!: ref_recode_Some split: option.splits if_splits)

section \<open>Blank lines\<close>

definition newlines_at_end :: "str \<Rightarrow> nat" where
  "newlines_at_end s = length (takeWhile (\<lambda>c. c = 10) (rev s))"

definition capped :: "str \<Rightarrow> bool" where
  "capped s = (\<forall>k \<le> length s. newlines_at_end (take k s) \<le> 2)"

lemma newlines_at_end_snoc: "newlines_at_end (s @ [c]) = (if c = 10 then newlines_at_end s + 1 else 0)"
  by (simp add: newlines_at_end_def)

lemma capped_snoc: "capped (s @ [c]) \<longleftrightarrow> capped s \<and> newlines_at_end (s @ [c]) \<le> 2"
  by (auto simp: capped_def le_Suc_eq all_conj_distrib)

lemma capped_no_triple: "capped s \<Longrightarrow> s \<noteq> a @ [10, 10, 10] @ b"
proof
  assume c: "capped s" and s: "s = a @ [10, 10, 10] @ b"
  have "take (length a + 3) s = ((a @ [10]) @ [10]) @ [10]" using s by simp
  then have "newlines_at_end (take (length a + 3) s) = newlines_at_end a + 3"
    by (simp only: newlines_at_end_snoc) simp
  moreover have "length a + 3 \<le> length s" using s by simp
  ultimately show False using c unfolding capped_def by fastforce
qed

definition render_ok :: "Renderer \<Rightarrow> bool" where
  "render_ok r = (trailing_newlines r = newlines_at_end (out r) \<and> pre_depth r = 0 \<and> capped (out r))"

lemma render_ok_raw: "render_ok r \<Longrightarrow> ch \<noteq> 10 \<or> trailing_newlines r < 2 \<Longrightarrow> render_ok (push_raw ch r)"
  by (auto simp: render_ok_def push_raw_def newlines_at_end_snoc capped_snoc)

lemma render_ok_pending [simp]: "render_ok (r\<lparr>pending := x\<rparr>) = render_ok r"
  by (simp add: render_ok_def)

lemma render_ok_newline: "render_ok r \<Longrightarrow> render_ok (newline_capped r)"
  by (simp add: newline_capped_def render_ok_raw)

lemma render_ok_flush: "render_ok r \<Longrightarrow> render_ok (flush_pending r)"
  by (auto simp: flush_pending_def render_ok_newline render_ok_raw split: option.splits Separator.splits)

lemma render_ok_text: "render_ok r \<Longrightarrow> render_ok (push_text ch r)"
  by (simp add: push_text_def render_ok_newline render_ok_raw)

lemma render_ok_char: "render_ok r \<Longrightarrow> render_ok (push_char ch r)"
proof -
  assume r: "render_ok r"
  then have "\<not> 0 < pre_depth r" by (simp add: render_ok_def)
  with r show ?thesis
    by (auto simp: push_char_def render_ok_text render_ok_flush split: option.splits Separator.splits)
qed

text \<open>The input opens no element whose name begins like the two that keep white space.\<close>

definition opens_protected :: "nat list \<Rightarrow> nat \<Rightarrow> bool" where
  "opens_protected bytes i = (eq_ignore_ascii_case (take 4 (drop i bytes)) (lit ''<pre'') \<or>
     eq_ignore_ascii_case (take 5 (drop i bytes)) (lit ''<code''))"

lemma Tag_parse_name:
  assumes "Tag_parse bytes i e = Some tag" "\<not> closing tag" "i < length bytes"
  shows "take (Suc (length (tag_name tag))) (drop i bytes) = bytes ! i # tag_name tag"
proof -
  obtain inside where "slice_opt bytes (i + 1) e = Some inside"
    "slice_opt bytes (i + 1) (i + 1 + length (takeWhile is_ascii_alphanumeric inside)) = Some (tag_name tag)"
    using assms(1,2) by (auto simp: Tag_parse_def Let_def split: option.splits if_splits)
  then have name: "tag_name tag = take (length (takeWhile is_ascii_alphanumeric inside)) (drop (i + 1) bytes)"
    and len: "i + 1 + length (takeWhile is_ascii_alphanumeric inside) \<le> length bytes"
    by (auto simp: slice_opt_def split: if_splits)
  have "length (tag_name tag) = length (takeWhile is_ascii_alphanumeric inside)" using name len by simp
  then show ?thesis using name assms(3) by (simp add: Cons_nth_drop_Suc[symmetric])
qed

lemma eq_ignore_length: "eq_ignore_ascii_case a b \<Longrightarrow> length a = length b"
  by (metis eq_ignore_ascii_case_def length_map)

lemma render_ok_tag:
  assumes ok: "render_ok r" and tag: "Tag_parse bytes i e = Some tag" "bytes ! i = 60" "i < length bytes"
    and free: "\<not> opens_protected bytes i"
  shows "render_ok (render_tag tag r)"
proof -
  have "\<not> tag_is tag (lit ''pre'') \<and> \<not> tag_is tag (lit ''code'')" if "\<not> closing tag"
  proof -
    note name = Tag_parse_name[OF tag(1) that tag(3), unfolded tag(2)]
    have pre: "opens_protected bytes i" if t: "tag_is tag (lit ''pre'')"
    proof -
      have "length (tag_name tag) = 3" using t eq_ignore_length[of "tag_name tag" "lit ''pre''"] by (simp add: tag_is_def)
      with name have "take 4 (drop i bytes) = 60 # tag_name tag" by simp
      then show ?thesis using t by (simp add: opens_protected_def tag_is_def eq_ignore_ascii_case_def lit_def)
    qed
    have code: "opens_protected bytes i" if t: "tag_is tag (lit ''code'')"
    proof -
      have "length (tag_name tag) = 4" using t eq_ignore_length[of "tag_name tag" "lit ''code''"] by (simp add: tag_is_def)
      with name have "take 5 (drop i bytes) = 60 # tag_name tag" by simp
      then show ?thesis using t by (simp add: opens_protected_def tag_is_def eq_ignore_ascii_case_def lit_def)
    qed
    show ?thesis using pre code free by blast
  qed
  then have depth: "pre_depth (if tag_is tag (lit ''pre'') \<or> tag_is tag (lit ''code'')
      then (if closing tag then r\<lparr>pre_depth := pre_depth r - 1\<rparr>
            else if self_closing tag then r else r\<lparr>pre_depth := pre_depth r + 1\<rparr>) else r) = 0"
    using ok by (auto simp: render_ok_def)
  then show ?thesis using ok
    by (auto simp: render_tag_def Let_def render_ok_def split: option.splits if_splits)
qed

lemma html_step_render_ok:
  assumes "render_ok r" "html_step input bytes i r = Go j r'" "i < length bytes" "\<not> opens_protected bytes i"
  shows "render_ok r'"
proof -
  have "skip_element bytes e name r = Go j r' \<Longrightarrow> render_ok r'" for e name
    using assms(1) by (auto simp: skip_element_def split: option.splits)
  then show ?thesis
    using assms render_ok_char[OF assms(1)] render_ok_tag[OF assms(1) _ _ assms(3,4)]
    by (auto simp: html_step_def split: if_splits option.splits list.splits)
qed

lemma html_loop_capped:
  "render_ok r \<Longrightarrow> \<forall>i < length bytes. \<not> opens_protected bytes i \<Longrightarrow> html_loop input bytes i r = Some (Some shown) \<Longrightarrow>
     capped shown"
proof (induction input bytes i r rule: html_loop.induct)
  case (1 input bytes i r)
  show ?case
  proof (cases "i < length bytes")
    case True
    then obtain j r' where step: "html_step input bytes i r = Go j r'" "html_loop input bytes j r' = Some (Some shown)"
      using 1(4) by (subst (asm) html_loop.simps) (auto split: scan_result.splits)
    then show ?thesis using 1(1)[OF True step(1)] html_step_render_ok[OF 1(2) step(1) True] 1(3) True by blast
  next
    case False
    then show ?thesis using 1(2,4) by (subst (asm) html_loop.simps) (simp add: render_ok_def)
  qed
qed

section \<open>Properties\<close>

text \<open>C28: rendering HTML never panics, whatever the bytes: every slice of the scanner is in range and
  every index at which it reads a character lies between two characters.  A result is strictly
  shorter than the input, and when the input opens no protected element it never shows more than one
  blank line in a row.\<close>

theorem strip_html_is_safe_and_compact:
  "\<exists>res. strip_html input = Some res \<and>
     (\<forall>shown. res = Some shown \<longrightarrow> str_len shown < str_len input \<and>
        ((\<forall>i < length (utf8 input). \<not> opens_protected (utf8 input) i) \<longrightarrow> (\<nexists>a b. shown = a @ [10, 10, 10] @ b)))"
proof -
  have "render_ok Renderer_new"
    by (simp add: render_ok_def Renderer_new_def newlines_at_end_def capped_def)
  then have "\<nexists>a b. shown = a @ [10, 10, 10] @ b"
    if "\<forall>i < length (utf8 input). \<not> opens_protected (utf8 input) i" "strip_html input = Some (Some shown)" for shown
    using that html_loop_capped[of Renderer_new "utf8 input" input 0 shown] capped_no_triple[of shown]
    by (auto simp: strip_html_def split: option.splits if_splits)
  moreover have "str_len shown < str_len input" if "strip_html input = Some (Some shown)" for shown
    using that by (auto simp: strip_html_def split: option.splits if_splits)
  ultimately show ?thesis using strip_html_total[of input] by blast
qed

theorem strip_html_is_safe_and_compact_witness:
  "\<exists>shown. strip_html (lit ''<p>'' @ [10, 10, 10]) = Some (Some shown) \<and> (\<nexists>a b. shown = a @ [10, 10, 10] @ b)"
proof -
  let ?i = "[60, 112, 62, 10, 10, 10] :: str"
  have i: "lit ''<p>'' @ [10, 10, 10] = ?i" by (simp add: lit_def)
  have bytes: "utf8 ?i = ?i" by (simp add: utf8_def utf8_char_def)
  have "find_tag_end ?i 0 = Some 2"
    by (simp add: find_tag_end_def find_tag_end_from.simps nth_opt_def UNQUOTED_TAG_WINDOW_def)
  moreover have "Tag_parse ?i 0 2 = Some \<lparr>tag_name = [112], closing = False, self_closing = False\<rparr>"
    by (simp add: Tag_parse_def nth_opt_def slice_opt_def is_ascii_alphanumeric_def is_ascii_alphabetic_def is_digit_def)
  moreover have "\<not> named_opening_tag_at ?i 0 (lit ''script'')" "\<not> named_opening_tag_at ?i 0 (lit ''style'')"
    by (simp_all add: named_opening_tag_at_def named_tag_with_prefix_at_def slice_opt_def lit_def eq_ignore_ascii_case_def
        to_ascii_lowercase_def)
  moreover have "render_tag \<lparr>tag_name = [112], closing = False, self_closing = False\<rparr> r = r" for r
    by (simp add: render_tag_def tag_is_def eq_ignore_ascii_case_def lit_def to_ascii_lowercase_def tag_separator_def)
  ultimately have "html_loop ?i ?i 0 Renderer_new = Some (Some [10, 10])"
    by (simp add: html_loop.simps html_step_def starts_with_def lit_def nth_opt_def starts_tag_def is_ascii_alphabetic_def
        split_at_byte.simps utf8_width_def push_char_def push_text_def newline_capped_def push_raw_def Renderer_new_def)
  then have res: "strip_html ?i = Some (Some [10, 10])" by (simp add: strip_html_def bytes utf8_width_def)
  have "\<forall>i < length (utf8 ?i). \<not> opens_protected (utf8 ?i) i"
    unfolding bytes by (simp add: All_less_Suc opens_protected_def eq_ignore_ascii_case_def lit_def to_ascii_lowercase_def)
  with res show ?thesis unfolding i using strip_html_is_safe_and_compact[of ?i] by simp
qed

end
