(* ===== verification/Deterministic.thy ===== *)
theory Deterministic
  imports Markup
begin

text \<open>
  The deterministic chain, \<^verbatim>\<open>Presets::deterministic\<close> of \<^verbatim>\<open>pipeline/presets.rs\<close>:
  the nine recode passes in their order, run off the request path while staging.  The contract
  \<open>pass_invariant\<close> of the runner is discharged for them with the invariant that every proposal is
  recoverable.
\<close>

definition Presets_deterministic ::
  "serde \<Rightarrow> (str \<Rightarrow> 'v option) \<Rightarrow> ('v \<Rightarrow> str) \<Rightarrow> (str \<Rightarrow> str option) \<Rightarrow> (str \<Rightarrow> str \<Rightarrow> str) \<Rightarrow> PolicyConfig \<Rightarrow> Pipeline" where
  "Presets_deterministic J decode_ir compact_json select_encoding unified_diff knobs = Pipeline_of
     [StagePass (BlobExtractPass J), StagePass (AnsiStripPass J), StagePass (WhitespacePass J),
      StagePass (MarkupStripPass J), StagePass (JsonMinifyPass J decode_ir compact_json),
      StagePass (JsonToonPass J select_encoding), StagePass (DedupBackrefPass J), StagePass (HeadTailPass J),
      StagePass (SeqDiffPass J unified_diff)]"

definition recode_pass ::
  "serde \<Rightarrow> (str \<Rightarrow> 'v option) \<Rightarrow> ('v \<Rightarrow> str) \<Rightarrow> (str \<Rightarrow> str option) \<Rightarrow> (str \<Rightarrow> str \<Rightarrow> str) \<Rightarrow> Pass \<Rightarrow> bool" where
  "recode_pass J di cj se ud p = (p \<in> {BlobExtractPass J, AnsiStripPass J, WhitespacePass J, MarkupStripPass J,
     JsonMinifyPass J di cj, JsonToonPass J se, DedupBackrefPass J, HeadTailPass J, SeqDiffPass J ud})"

lemmas recode_pass_defs = BlobExtractPass_def AnsiStripPass_def WhitespacePass_def MarkupStripPass_def
  JsonMinifyPass_def JsonToonPass_def DedupBackrefPass_def HeadTailPass_def SeqDiffPass_def

lemma seq_diff_keeps:
  assumes "recode_inv J inl ctx l"
  shows "recode_inv J inl ctx (snd (fold (seq_diff_step J ud ctx) (cx_segments ctx) (Map.empty, l)))"
proof -
  have "recode_inv J inl ctx (snd (fold (seq_diff_step J ud ctx) segs st))"
    if "set segs \<subseteq> set (cx_segments ctx)" "recode_inv J inl ctx (snd st)" for segs st
    using that
  proof (induction segs arbitrary: st)
    case (Cons seg segs)
    then show ?case using seq_diff_step_keeps[of J inl ctx st seg ud] by simp
  qed simp
  then show ?thesis using assms by simp
qed

interpretation chain: pass_invariant "recode_pass J di cj se ud" "recode_inv J (inline_rewrite di cj)"
proof
  fix p ctx l
  assume p: "recode_pass J di cj se ud p" and inv: "recode_inv J (inline_rewrite di cj) ctx l"
  note kept = ansi.for_each_leaf_keeps[OF inv] ws.for_each_leaf_keeps[OF inv] minify.for_each_leaf_keeps[OF inv]
    blob.for_each_leaf_keeps[OF inv] toon.for_each_leaf_keeps[OF inv] head_tail.for_each_leaf_keeps[OF inv]
    markup.for_each_leaf_keeps[OF inv] dedup_keeps[OF inv order_refl] seq_diff_keeps[OF inv]
  have "\<exists>l'. pass_apply p ctx l = Some (l', Continue) \<and> recode_inv J (inline_rewrite di cj) ctx l'"
    using p unfolding recode_pass_def
    by (elim insertE) (auto simp: recode_pass_defs kept seq_diff_apply_def
        try_each_leaf_total[OF blob_extract_total] try_each_leaf_total[OF markup_strip_total])
  then show "\<exists>l' c. pass_apply p ctx l = Some (l', c) \<and> recode_inv J (inline_rewrite di cj) ctx l'" by blast
qed

lemma deterministic_passes:
  "set (stage_passes (stages (Presets_deterministic J di cj se ud knobs))) \<subseteq> Collect (recode_pass J di cj se ud)"
  by (simp add: Presets_deterministic_def Pipeline_of_def stage_passes_def recode_pass_def)

section \<open>Properties\<close>

text \<open>C10: the deterministic chain loses nothing that can not be fetched back.  From an empty plan it
  always finishes, whatever the JSON, encoding and diff libraries return, and then every proposal is
  a recode of an unpinned, not human-written segment with a single recodeable leaf, strictly shorter
  than that leaf.  If the proposal stores no bytes, its text comes from the leaf by the lossless
  cleanups alone; if it stores bytes, they are the leaf up to those cleanups.\<close>

theorem deterministic_chain_is_recoverable:
  assumes "distinct (map index (cx_segments ctx))"
  shows "\<exists>l. run r (Presets_deterministic J di cj se ud knobs) ctx (PlanLedger_sized n) = Some l \<and> ledger_ok l \<and>
    (\<forall>i p. proposal_for l i = Some p \<longrightarrow>
      (\<exists>seg leaf c s. seg \<in> set (cx_segments ctx) \<and> index seg = i \<and> \<not> pinned seg \<and> \<not> is_true_human seg \<and>
         raw_recode_leaf J (cx_body ctx) seg = Some leaf \<and> pr_strategy p = SRecode c None \<and>
         str_len c < str_len (lf_content leaf) \<and> (inline_rewrite di cj)\<^sup>*\<^sup>* (lf_content leaf) s \<and>
         (pr_needs_ref p = None \<and> c = s \<or> pr_needs_ref p = Some (utf8 s))))"
proof -
  have "recode_inv J (inline_rewrite di cj) ctx (PlanLedger_sized n)"
    using assms by (simp add: recode_inv_def ledger_ok_def PlanLedger_sized_def proposal_for_def)
  then obtain l where l: "run r (Presets_deterministic J di cj se ud knobs) ctx (PlanLedger_sized n) = Some l"
    "recode_inv J (inline_rewrite di cj) ctx l"
    using chain.run_keeps[of "Presets_deterministic J di cj se ud knobs"] deterministic_passes by blast
  have "\<exists>seg leaf c s. seg \<in> set (cx_segments ctx) \<and> index seg = i \<and> \<not> pinned seg \<and> \<not> is_true_human seg \<and>
         raw_recode_leaf J (cx_body ctx) seg = Some leaf \<and> pr_strategy p = SRecode c None \<and>
         str_len c < str_len (lf_content leaf) \<and> (inline_rewrite di cj)\<^sup>*\<^sup>* (lf_content leaf) s \<and>
         (pr_needs_ref p = None \<and> c = s \<or> pr_needs_ref p = Some (utf8 s))"
    if p: "proposal_for l i = Some p" for i p
  proof -
    have "proposal_recoverable J (inline_rewrite di cj) (cx_body ctx) (cx_segments ctx) p"
      using l(2) p by (auto simp: recode_inv_def)
    then obtain seg leaf c where *: "seg \<in> set (cx_segments ctx)" "index seg = pr_seg_index p"
      "raw_recode_leaf J (cx_body ctx) seg = Some leaf" "pr_strategy p = SRecode c None"
      "str_len c < str_len (lf_content leaf)" "recoverable (inline_rewrite di cj) (lf_content leaf) c (pr_needs_ref p)"
      unfolding proposal_recoverable_def by blast
    then obtain s where "(inline_rewrite di cj)\<^sup>*\<^sup>* (lf_content leaf) s"
      "pr_needs_ref p = None \<and> c = s \<or> pr_needs_ref p = Some (utf8 s)"
      by (auto simp: recoverable_def split: if_splits)
    then show ?thesis using * ledger.lookup_index[OF p] raw_recode_leaf_Some[OF *(3)] by blast
  qed
  then show ?thesis using l by (auto simp: recode_inv_def)
qed

theorem deterministic_chain_is_recoverable_witness:
  "\<forall>ctx. \<exists>l. run Runner_default (Presets_deterministic twin_serde (\<lambda>_. None :: unit option) (\<lambda>_. []) (\<lambda>_. None) (\<lambda>_ _. [])
       PolicyConfig_default) (twin_ctx ctx) (PlanLedger_sized 2) = Some l \<and> ledger_ok l"
proof
  fix ctx
  have "distinct (map index (cx_segments (twin_ctx ctx)))" by simp
  then show "\<exists>l. run Runner_default (Presets_deterministic twin_serde (\<lambda>_. None :: unit option) (\<lambda>_. []) (\<lambda>_. None) (\<lambda>_ _. [])
       PolicyConfig_default) (twin_ctx ctx) (PlanLedger_sized 2) = Some l \<and> ledger_ok l"
    using deterministic_chain_is_recoverable[of "twin_ctx ctx" Runner_default twin_serde "\<lambda>_. None :: unit option" "\<lambda>_. []"
        "\<lambda>_. None" "\<lambda>_ _. []" PolicyConfig_default 2] by blast
qed

end
