(* ===== verification/Rewrite.thy ===== *)
theory Rewrite
  imports Targets
begin

text \<open>
  The owned-bytes splice, \<^verbatim>\<open>ccs-policy/src/rewrite.rs\<close>, and the validity gate behind it,
  \<^verbatim>\<open>ccs-policy/src/rewrite_gate.rs\<close>.

  The JSON library's values are the datatype \<open>Value\<close>, an object the list of its entries; what the
  library reads and prints is the record \<open>writer\<close>, an argument of the splice.  The order in which
  an object's keys are printed is the printer's.
\<close>

section \<open>Values\<close>

datatype Value =
    VNull
  | VBool bool
  | VNumber str
  | VString str
  | VArray "Value list"
  | VObject "(str \<times> Value) list"

record writer =
  wr_raw_array :: "RawValue \<Rightarrow> RawValue list option"
  wr_object :: "RawValue \<Rightarrow> (str \<times> Value) list option"
  wr_value :: "str \<Rightarrow> Value option"
  wr_text :: "Value \<Rightarrow> str option"
  wr_raw :: "str \<Rightarrow> RawValue option"
  wr_messages :: "RawValue list \<Rightarrow> str option"
  wr_envelope :: "(str \<times> RawValue) list \<Rightarrow> nat list option"

fun map_insert :: "'k \<Rightarrow> 'v \<Rightarrow> ('k \<times> 'v) list \<Rightarrow> ('k \<times> 'v) list" where
  "map_insert k v [] = [(k, v)]"
| "map_insert k v ((k', v') # es) = (if k' = k then (k, v) # es else (k', v') # map_insert k v es)"

definition map_remove :: "'k \<Rightarrow> ('k \<times> 'v) list \<Rightarrow> ('k \<times> 'v) list" where
  "map_remove k es = filter (\<lambda>e. fst e \<noteq> k) es"

text \<open>Non-overlapping occurrences, as \<^verbatim>\<open>str::matches\<close> and \<^verbatim>\<open>memmem::find_iter\<close> count
  them, and whether there is one.\<close>

function count_matches :: "nat list \<Rightarrow> nat list \<Rightarrow> nat" where
  "count_matches pat s =
     (if pat = [] \<or> s = [] then 0
      else case strip_prefix pat s of
          Some rest \<Rightarrow> Suc (count_matches pat rest)
        | None \<Rightarrow> count_matches pat (tl s))"
  by pat_completeness auto

termination
  by (relation "measure (\<lambda>(_, s). length s)") (auto simp: strip_prefix_Some_iff)

declare count_matches.simps [simp del]

fun contains :: "nat list \<Rightarrow> nat list \<Rightarrow> bool" where
  "contains s pat = (starts_with s pat \<or> (case s of [] \<Rightarrow> False | _ # r \<Rightarrow> contains r pat))"

declare contains.simps [simp del]

section \<open>The splice\<close>

record RenderedSegment =
  rs_target :: SegmentTarget
  rs_block_json :: str

datatype RewriteError = ParseEnvelope | TargetOutOfRange | Serialize

record Spliced =
  sp_bytes :: "nat list"
  sp_suppressed_breakpoints :: nat

definition hint_literal :: str where
  "hint_literal = lit ''\"cache_control\"''"

definition has_hint_raw :: "RawValue \<Rightarrow> bool" where
  "has_hint_raw raw = contains raw hint_literal"

definition count_hints_raw :: "RawValue option \<Rightarrow> nat" where
  "count_hints_raw raw = (case raw of None \<Rightarrow> 0 | Some r \<Rightarrow> count_matches hint_literal r)"

definition ephemeral :: Value where
  "ephemeral = VObject [(lit ''type'', VString (lit ''ephemeral''))]"

definition add_hint_block :: "Value \<Rightarrow> Value" where
  "add_hint_block block = (case block of
      VObject es \<Rightarrow> VObject (map_insert (lit ''cache_control'') ephemeral es) | _ \<Rightarrow> block)"

definition strip_hint_block :: "Value \<Rightarrow> Value" where
  "strip_hint_block block = (case block of
      VObject es \<Rightarrow> VObject (map_remove (lit ''cache_control'') es) | _ \<Rightarrow> block)"

definition set_hint :: "Value \<Rightarrow> bool \<Rightarrow> RewriteError + Value" where
  "set_hint c wants_hint = (case c of
      VArray bs \<Rightarrow>
        let stripped = map strip_hint_block bs in
        if wants_hint
        then (if stripped = [] then Inl TargetOutOfRange
              else Inr (VArray (butlast stripped @ [add_hint_block (last stripped)])))
        else Inr (VArray stripped)
    | VString text \<Rightarrow>
        if wants_hint
        then Inr (VArray [VObject [(lit ''type'', VString (lit ''text'')), (lit ''text'', VString text),
                                   (lit ''cache_control'', ephemeral)]])
        else Inr c
    | _ \<Rightarrow> Inr c)"

fun write_targets :: "writer \<Rightarrow> RenderedSegment list \<Rightarrow> Value \<Rightarrow> RewriteError + Value" where
  "write_targets W [] c = Inr c"
| "write_targets W (seg # segs) c = (case wr_value W (rs_block_json seg) of
      None \<Rightarrow> Inl Serialize
    | Some block \<Rightarrow> (case (tg_block (rs_target seg), c) of
          (None, _) \<Rightarrow> write_targets W segs block
        | (Some b, VArray bs) \<Rightarrow>
            if b < length bs then write_targets W segs (VArray (bs[b := block])) else Inl TargetOutOfRange
        | (Some _, _) \<Rightarrow> Inl TargetOutOfRange))"

definition edit_message :: "writer \<Rightarrow> nat \<Rightarrow> RawValue \<Rightarrow> RenderedSegment list \<Rightarrow> bool \<Rightarrow> RewriteError + RawValue" where
  "edit_message W i raw segments wants_hint =
     (let targets = filter (\<lambda>s. tg_message (rs_target s) = i) segments in
      if targets = [] \<and> \<not> wants_hint \<and> \<not> has_hint_raw raw then Inr raw
      else case wr_object W raw of
          None \<Rightarrow> Inl ParseEnvelope
        | Some msg \<Rightarrow> (case map_of msg (lit ''content'') of
            None \<Rightarrow> Inl ParseEnvelope
          | Some c \<Rightarrow> (case write_targets W targets c of
              Inl e \<Rightarrow> Inl e
            | Inr c' \<Rightarrow> (case set_hint c' wants_hint of
                Inl e \<Rightarrow> Inl e
              | Inr c'' \<Rightarrow> (case Option.bind (wr_text W (VObject (map_insert (lit ''content'') c'' msg))) (wr_raw W) of
                  None \<Rightarrow> Inl Serialize
                | Some raw' \<Rightarrow> Inr raw')))))"

fun edit_messages :: "writer \<Rightarrow> nat \<Rightarrow> RawValue list \<Rightarrow> RenderedSegment list \<Rightarrow> nat list \<Rightarrow> RewriteError + RawValue list" where
  "edit_messages W i [] segments kept = Inr []"
| "edit_messages W i (raw # rest) segments kept = (case edit_message W i raw segments (i \<in> set kept) of
      Inl e \<Rightarrow> Inl e
    | Inr raw' \<Rightarrow> (case edit_messages W (i + 1) rest segments kept of
        Inl e \<Rightarrow> Inl e
      | Inr rest' \<Rightarrow> Inr (raw' # rest')))"

definition wanted_hints :: "BreakpointPlan \<Rightarrow> nat \<Rightarrow> nat list" where
  "wanted_hints plan n = filter (\<lambda>p. p < n) (positions plan)"

definition effective_cap :: "WireBody \<Rightarrow> nat" where
  "effective_cap body = CACHE_HINT_CAP - (count_hints_raw (wb_system body) + count_hints_raw (wb_tools body))"

definition splice ::
  "serde \<Rightarrow> writer \<Rightarrow> nat list \<Rightarrow> WireBody \<Rightarrow> RenderedSegment list \<Rightarrow> BreakpointPlan \<Rightarrow> RewriteError + Spliced" where
  "splice J W original body segments plan = (case js_envelope J original of
      None \<Rightarrow> Inl ParseEnvelope
    | Some envelope \<Rightarrow> (case Option.bind (map_of envelope (lit ''messages'')) (wr_raw_array W) of
        None \<Rightarrow> Inl ParseEnvelope
      | Some raw_messages \<Rightarrow>
          let wanted = wanted_hints plan (length raw_messages);
              kept = cap_cache_hints_to wanted (effective_cap body);
              suppressed = length wanted - length kept
          in case edit_messages W 0 raw_messages segments kept of
               Inl e \<Rightarrow> Inl e
             | Inr msgs \<Rightarrow> (case Option.bind (wr_messages W msgs) (wr_raw W) of
                 None \<Rightarrow> Inl Serialize
               | Some raw \<Rightarrow> (case wr_envelope W (map_insert (lit ''messages'') raw envelope) of
                   None \<Rightarrow> Inl Serialize
                 | Some bytes \<Rightarrow> Inr \<lparr>sp_bytes = bytes, sp_suppressed_breakpoints = suppressed\<rparr>))))"

section \<open>The gate\<close>

datatype GateError =
    Reparse
  | ToolPairBroken
  | RoleDropped
  | TooManyBreakpoints nat
  | GrewInsteadOfShrank
  | ThinkingMutated
  | EnvelopeKeyDropped

definition all_blocks :: "WireBody \<Rightarrow> ContentBlock list" where
  "all_blocks body = concat (map (\<lambda>m. blocks (content m)) (messages body))"

definition client_uses :: "serde \<Rightarrow> WireBody \<Rightarrow> str set" where
  "client_uses J body = set (filter_map (tool_use_id J) (filter is_client_tool_use (all_blocks body)))"

definition client_results :: "serde \<Rightarrow> WireBody \<Rightarrow> str set" where
  "client_results J body = set (filter_map (tool_use_id J) (filter is_tool_result (all_blocks body)))"

definition check_tool_pairs :: "serde \<Rightarrow> WireBody \<Rightarrow> GateError + unit" where
  "check_tool_pairs J body = (if client_uses J body = client_results J body then Inr () else Inl ToolPairBroken)"

definition check_roles :: "WireBody \<Rightarrow> WireBody \<Rightarrow> GateError + unit" where
  "check_roles original new = (if map role (messages original) = map role (messages new) then Inr () else Inl RoleDropped)"

definition check_hint_cap :: "nat list \<Rightarrow> GateError + unit" where
  "check_hint_cap rewritten = (let n = count_matches hint_literal rewritten in
     if n \<le> CACHE_HINT_CAP then Inr () else Inl (TooManyBreakpoints n))"

definition msg_spans :: "WireBody \<Rightarrow> str list" where
  "msg_spans body = concat (map (\<lambda>m. raws (content m)) (messages body))"

definition check_shrink :: "WireBody \<Rightarrow> WireBody \<Rightarrow> GateError + unit" where
  "check_shrink original new =
     (let original_sum = sum_list (map str_len (msg_spans original));
          new_sum = sum_list (map str_len (msg_spans new)) in
      if original_sum \<le> new_sum then Inl GrewInsteadOfShrank
      else if list_all (\<lambda>(ospan, nspan). str_len nspan \<le> str_len ospan) (zip (msg_spans original) (msg_spans new))
      then Inr () else Inl GrewInsteadOfShrank)"

definition is_thinking :: "ContentBlock \<Rightarrow> bool" where
  "is_thinking b = (case b of BThinking _ \<Rightarrow> True | BRedactedThinking _ \<Rightarrow> True | _ \<Rightarrow> False)"

definition latest_assistant_thinking :: "WireBody \<Rightarrow> str list" where
  "latest_assistant_thinking body = (case find (\<lambda>m. role m = RoleAssistant) (rev (messages body)) of
      None \<Rightarrow> []
    | Some m \<Rightarrow> map braw (filter is_thinking (blocks (content m))))"

definition check_thinking :: "nat list \<Rightarrow> WireBody \<Rightarrow> GateError + unit" where
  "check_thinking rewritten original =
     (if list_all (\<lambda>span. contains rewritten (utf8 span)) (latest_assistant_thinking original)
      then Inr () else Inl ThinkingMutated)"

definition top_level_keys :: "serde \<Rightarrow> nat list \<Rightarrow> str set option" where
  "top_level_keys J bytes = map_option (\<lambda>es. set (map fst es)) (js_envelope J bytes)"

definition required_keys :: "WireBody \<Rightarrow> str list" where
  "required_keys original = [lit ''model'', lit ''max_tokens'', lit ''messages''] @
     (if wb_system original = None then [] else [lit ''system'']) @
     (if wb_tools original = None then [] else [lit ''tools''])"

definition check_envelope_keys :: "serde \<Rightarrow> nat list \<Rightarrow> WireBody \<Rightarrow> GateError + unit" where
  "check_envelope_keys J rewritten original = (case top_level_keys J rewritten of
      None \<Rightarrow> Inl Reparse
    | Some keys \<Rightarrow> if list_all (\<lambda>k. k \<in> keys) (required_keys original) then Inr () else Inl EnvelopeKeyDropped)"

definition and_then :: "'e + 'a \<Rightarrow> 'e + 'b \<Rightarrow> 'e + 'b" where
  "and_then a b = (case a of Inl e \<Rightarrow> Inl e | Inr _ \<Rightarrow> b)"

definition validate :: "serde \<Rightarrow> nat list \<Rightarrow> WireBody \<Rightarrow> GateError + unit" where
  "validate J rewritten original = (case parse_body J rewritten of
      None \<Rightarrow> Inl Reparse
    | Some new \<Rightarrow>
        and_then (check_tool_pairs J new)
       (and_then (check_roles original new)
       (and_then (check_hint_cap rewritten)
       (and_then (check_shrink original new)
       (and_then (check_thinking rewritten original)
                 (check_envelope_keys J rewritten original))))))"

section \<open>What the splice changes\<close>

definition hinted :: "Value \<Rightarrow> bool" where
  "hinted v = (case v of VObject es \<Rightarrow> lit ''cache_control'' \<in> fst ` set es | _ \<Rightarrow> False)"

definition content_hints :: "Value \<Rightarrow> nat" where
  "content_hints c = (case c of VArray bs \<Rightarrow> length (filter hinted bs) | _ \<Rightarrow> 0)"

lemma strip_not_hinted: "\<not> hinted (strip_hint_block v)"
  by (auto simp: hinted_def strip_hint_block_def map_remove_def split: Value.splits)

lemma set_hint_at_most_one: "set_hint c w = Inr c' \<Longrightarrow> content_hints c' \<le> (if w then 1 else 0)"
proof -
  assume "set_hint c w = Inr c'"
  moreover have "filter hinted (map strip_hint_block bs) = []" for bs by (simp add: filter_empty_conv strip_not_hinted)
  moreover from this have "filter hinted (butlast (map strip_hint_block bs)) = []" for bs
    by (metis (no_types, lifting) filter_empty_conv in_set_butlastD)
  ultimately show ?thesis
    by (auto simp: set_hint_def content_hints_def Let_def split: Value.splits if_splits)
qed

lemma edit_messages_nth:
  "edit_messages W i rs segs kept = Inr ms \<Longrightarrow> length ms = length rs \<and>
     (\<forall>k < length rs. edit_message W (i + k) (rs ! k) segs (i + k \<in> set kept) = Inr (ms ! k))"
proof (induction W i rs segs kept arbitrary: ms rule: edit_messages.induct)
  case (2 W i raw rest segs kept)
  then obtain raw' rest' where *: "edit_message W i raw segs (i \<in> set kept) = Inr raw'"
    "edit_messages W (i + 1) rest segs kept = Inr rest'" "ms = raw' # rest'"
    by (auto split: sum.splits)
  show ?case
  proof (intro conjI allI impI)
    show "length ms = length (raw # rest)" using 2(1)[OF *(1,2)] *(3) by simp
    fix k assume "k < length (raw # rest)"
    then show "edit_message W (i + k) ((raw # rest) ! k) segs (i + k \<in> set kept) = Inr (ms ! k)"
      using 2(1)[OF *(1,2)] * by (cases k) auto
  qed
qed simp

lemma edit_message_cases:
  assumes "edit_message W i raw segs w = Inr raw'"
  obtains (same) "raw' = raw" "filter (\<lambda>s. tg_message (rs_target s) = i) segs = []" "\<not> w" "\<not> has_hint_raw raw"
    | (edited) msg c0 c1 c where "wr_object W raw = Some msg" "map_of msg (lit ''content'') = Some c0"
        "write_targets W (filter (\<lambda>s. tg_message (rs_target s) = i) segs) c0 = Inr c1" "set_hint c1 w = Inr c"
        "Option.bind (wr_text W (VObject (map_insert (lit ''content'') c msg))) (wr_raw W) = Some raw'"
  using assms by (auto simp: edit_message_def Let_def split: if_splits option.splits sum.splits)

lemma write_targets_in_range:
  assumes "write_targets W segs c = Inr c'" "\<forall>s \<in> set segs. tg_block (rs_target s) \<noteq> None" "segs \<noteq> []"
  shows "\<exists>bs bs'. c = VArray bs \<and> c' = VArray bs' \<and> length bs' = length bs \<and>
    (\<forall>s \<in> set segs. the (tg_block (rs_target s)) < length bs) \<and>
    (\<forall>b < length bs. (\<forall>s \<in> set segs. tg_block (rs_target s) \<noteq> Some b) \<longrightarrow> bs' ! b = bs ! b) \<and>
    (\<forall>s \<in> set segs. \<exists>s' \<in> set segs. tg_block (rs_target s') = tg_block (rs_target s) \<and>
       wr_value W (rs_block_json s') = Some (bs' ! the (tg_block (rs_target s))))"
  using assms
proof (induction W segs c rule: write_targets.induct)
  case (2 W seg segs c)
  then obtain v b bs where v: "wr_value W (rs_block_json seg) = Some v" "tg_block (rs_target seg) = Some b"
    "c = VArray bs" "b < length bs" "write_targets W segs (VArray (bs[b := v])) = Inr c'"
    by (auto split: option.splits Value.splits if_splits)
  show ?case
  proof (cases "segs = []")
    case True
    then show ?thesis using v by auto
  next
    case False
    obtain bs' where bs': "c' = VArray bs'" "length bs' = length bs"
      "\<forall>s \<in> set segs. the (tg_block (rs_target s)) < length bs"
      "\<forall>b' < length bs. (\<forall>s \<in> set segs. tg_block (rs_target s) \<noteq> Some b') \<longrightarrow> bs' ! b' = bs[b := v] ! b'"
      "\<forall>s \<in> set segs. \<exists>s' \<in> set segs. tg_block (rs_target s') = tg_block (rs_target s) \<and>
         wr_value W (rs_block_json s') = Some (bs' ! the (tg_block (rs_target s)))"
      using 2(2)[OF v(1) refl v(2,3,4,5)] 2(4) False by auto
    have "\<exists>s' \<in> set (seg # segs). tg_block (rs_target s') = Some b \<and> wr_value W (rs_block_json s') = Some (bs' ! b)"
    proof (cases "\<exists>s \<in> set segs. tg_block (rs_target s) = Some b")
      case True
      then obtain s where "s \<in> set segs" "tg_block (rs_target s) = Some b" ..
      then show ?thesis using bs'(5) by fastforce
    next
      case False
      then have "bs' ! b = v" using bs'(4) v(4) by simp
      then show ?thesis using v(1,2) by auto
    qed
    then show ?thesis using v bs' by auto
  qed
qed simp

lemma map_of_map_insert: "map_of (map_insert k v es) k' = (if k' = k then Some v else map_of es k')"
  by (induction es) auto

lemma write_targets_whole:
  "write_targets W segs c = Inr c' \<Longrightarrow> segs \<noteq> [] \<Longrightarrow> tg_block (rs_target (last segs)) = None \<Longrightarrow>
   wr_value W (rs_block_json (last segs)) = Some c'"
proof (induction W segs c rule: write_targets.induct)
  case (2 W seg segs c)
  then show ?case by (cases "segs = []") (auto split: option.splits Value.splits if_splits)
qed simp

text \<open>Two contents that differ in cache hints only: block by block, every other key of a block has its value;
  a string either stays or becomes the one text block that carries it.\<close>

definition same_block :: "Value \<Rightarrow> Value \<Rightarrow> bool" where
  "same_block b b' = (case (b, b') of
      (VObject es, VObject es') \<Rightarrow> (\<forall>k. k \<noteq> lit ''cache_control'' \<longrightarrow> map_of es' k = map_of es k)
    | _ \<Rightarrow> b' = b)"

definition same_but_hints :: "Value \<Rightarrow> Value \<Rightarrow> bool" where
  "same_but_hints c c' = (case c of
      VArray bs \<Rightarrow> (\<exists>bs'. c' = VArray bs' \<and> list_all2 same_block bs bs')
    | VString t \<Rightarrow> c' = c \<or> c' = VArray [VObject [(lit ''type'', VString (lit ''text'')), (lit ''text'', VString t),
        (lit ''cache_control'', ephemeral)]]
    | _ \<Rightarrow> c' = c)"

lemma map_of_map_remove: "k' \<noteq> k \<Longrightarrow> map_of (map_remove k es) k' = map_of es k'"
  by (induction es) (auto simp: map_remove_def)

lemma same_block_ops: "same_block b (strip_hint_block b)" "same_block b (add_hint_block (strip_hint_block b))"
  by (simp_all add: same_block_def strip_hint_block_def add_hint_block_def map_of_map_insert map_of_map_remove split: Value.split)

lemma set_hint_same: "set_hint c w = Inr c' \<Longrightarrow> same_but_hints c c'"
proof (cases c)
  case (VArray bs)
  assume h: "set_hint c w = Inr c'"
  have all: "list_all2 same_block bs (map strip_hint_block bs)" by (simp add: list_all2_conv_all_nth same_block_ops(1))
  have "list_all2 same_block bs (butlast (map strip_hint_block bs) @ [add_hint_block (last (map strip_hint_block bs))])" if ne: "bs \<noteq> []"
  proof -
    obtain xs x where bs: "bs = xs @ [x]" using ne by (cases bs rule: rev_cases) auto
    have "list_all2 same_block xs (map strip_hint_block xs)" by (simp add: list_all2_conv_all_nth same_block_ops(1))
    then show ?thesis unfolding bs by (simp add: list_all2_appendI same_block_ops(2))
  qed
  then show ?thesis using h all by (auto simp: VArray set_hint_def same_but_hints_def Let_def split: if_splits)
qed (auto simp: set_hint_def same_but_hints_def split: if_splits)

text \<open>An edit is confined: the message is reprinted with another content, which comes from the old one
  by writing the targets and setting the hint, and carries at most one hint and only a wanted one.  Where only
  blocks are targeted every target is in range, every other block is kept, and a targeted block is what a
  rendered segment for it reads as; where the last target is the whole content, the content is.\<close>

definition edit_confined :: "writer \<Rightarrow> RenderedSegment list \<Rightarrow> bool \<Rightarrow> RawValue \<Rightarrow> RawValue \<Rightarrow> bool" where
  "edit_confined W targets wants_hint raw raw' = (\<exists>msg c0 c1 c. wr_object W raw = Some msg \<and>
     map_of msg (lit ''content'') = Some c0 \<and> same_but_hints c1 c \<and>
     content_hints c \<le> (if wants_hint then 1 else 0) \<and>
     Option.bind (wr_text W (VObject (map_insert (lit ''content'') c msg))) (wr_raw W) = Some raw' \<and>
     (targets = [] \<longrightarrow> c1 = c0) \<and>
     (targets \<noteq> [] \<and> tg_block (rs_target (last targets)) = None \<longrightarrow> wr_value W (rs_block_json (last targets)) = Some c1) \<and>
     (targets \<noteq> [] \<and> (\<forall>s \<in> set targets. tg_block (rs_target s) \<noteq> None) \<longrightarrow>
        (\<exists>bs bs'. c0 = VArray bs \<and> c1 = VArray bs' \<and> length bs' = length bs \<and>
           (\<forall>s \<in> set targets. the (tg_block (rs_target s)) < length bs) \<and>
           (\<forall>b < length bs. (\<forall>s \<in> set targets. tg_block (rs_target s) \<noteq> Some b) \<longrightarrow> bs' ! b = bs ! b) \<and>
           (\<forall>s \<in> set targets. \<exists>s' \<in> set targets. tg_block (rs_target s') = tg_block (rs_target s) \<and>
              wr_value W (rs_block_json s') = Some (bs' ! the (tg_block (rs_target s)))))))"

lemma edit_message_confined:
  assumes e: "edit_message W i raw segs w = Inr raw'"
    and "filter (\<lambda>s. tg_message (rs_target s) = i) segs \<noteq> [] \<or> w \<or> has_hint_raw raw"
  shows "edit_confined W (filter (\<lambda>s. tg_message (rs_target s) = i) segs) w raw raw'"
  using e
proof (cases rule: edit_message_cases)
  case (edited msg c0 c1 c)
  show ?thesis unfolding edit_confined_def
    by (rule exI[of _ msg], rule exI[of _ c0], rule exI[of _ c1], rule exI[of _ c])
       (use edited set_hint_at_most_one[OF edited(4)] set_hint_same[OF edited(4)] write_targets_in_range[OF edited(3)]
          write_targets_whole[OF edited(3)] in auto)
qed (use assms(2) in auto)

section \<open>Properties\<close>

text \<open>C3: a successful splice changes only what it is told to.  The request that is printed has the
  original's keys and values but for its messages, and these are the original messages one by one: a message
  without a target, a planned hint or a hint of its own is byte for byte the original; every other message is
  its original with another content, in which untargeted blocks stay, targeted blocks are the rendered
  segments, and apart from that only cache hints differ, of which at most one is left and only where the plan
  keeps one.  The hints kept are the last of the planned ones that fit beside those of the prompt's system
  and tools.\<close>

theorem splice_changes_only_targets:
  assumes "splice J W original body segments plan = Inr sp"
  shows "\<exists>env raw_msgs msgs kept raw. js_envelope J original = Some env \<and>
    Option.bind (map_of env (lit ''messages'')) (wr_raw_array W) = Some raw_msgs \<and> length msgs = length raw_msgs \<and>
    kept = cap_cache_hints_to (wanted_hints plan (length raw_msgs)) (effective_cap body) \<and>
    length kept + count_hints_raw (wb_system body) + count_hints_raw (wb_tools body)
      \<le> max CACHE_HINT_CAP (count_hints_raw (wb_system body) + count_hints_raw (wb_tools body)) \<and>
    sp_suppressed_breakpoints sp + length kept = length (wanted_hints plan (length raw_msgs)) \<and>
    (\<forall>i < length raw_msgs.
       if (\<forall>s \<in> set segments. tg_message (rs_target s) \<noteq> i) \<and> i \<notin> set kept \<and> \<not> has_hint_raw (raw_msgs ! i)
       then msgs ! i = raw_msgs ! i
       else edit_confined W (filter (\<lambda>s. tg_message (rs_target s) = i) segments) (i \<in> set kept) (raw_msgs ! i) (msgs ! i)) \<and>
    Option.bind (wr_messages W msgs) (wr_raw W) = Some raw \<and>
    wr_envelope W (map_insert (lit ''messages'') raw env) = Some (sp_bytes sp) \<and>
    (\<forall>k. map_of (map_insert (lit ''messages'') raw env) k = (if k = lit ''messages'' then Some raw else map_of env k))"
proof -
  obtain env raw_msgs msgs raw where env: "js_envelope J original = Some env"
    "Option.bind (map_of env (lit ''messages'')) (wr_raw_array W) = Some raw_msgs"
    and edit: "edit_messages W 0 raw_msgs segments
       (cap_cache_hints_to (wanted_hints plan (length raw_msgs)) (effective_cap body)) = Inr msgs"
    and out: "Option.bind (wr_messages W msgs) (wr_raw W) = Some raw"
      "wr_envelope W (map_insert (lit ''messages'') raw env) = Some (sp_bytes sp)"
      "sp_suppressed_breakpoints sp = length (wanted_hints plan (length raw_msgs)) -
         length (cap_cache_hints_to (wanted_hints plan (length raw_msgs)) (effective_cap body))"
    using assms by (auto simp: splice_def Let_def split: option.splits sum.splits)
  define kept where "kept = cap_cache_hints_to (wanted_hints plan (length raw_msgs)) (effective_cap body)"
  note nth = edit_messages_nth[OF edit, folded kept_def]
  have cap: "length kept + count_hints_raw (wb_system body) + count_hints_raw (wb_tools body)
      \<le> max CACHE_HINT_CAP (count_hints_raw (wb_system body) + count_hints_raw (wb_tools body))"
    "sp_suppressed_breakpoints sp + length kept = length (wanted_hints plan (length raw_msgs))"
    using out(3) by (auto simp: kept_def cap_cache_hints_to_def effective_cap_def max_def)
  have msg: "if (\<forall>s \<in> set segments. tg_message (rs_target s) \<noteq> i) \<and> i \<notin> set kept \<and> \<not> has_hint_raw (raw_msgs ! i)
       then msgs ! i = raw_msgs ! i
       else edit_confined W (filter (\<lambda>s. tg_message (rs_target s) = i) segments) (i \<in> set kept) (raw_msgs ! i) (msgs ! i)"
    if "i < length raw_msgs" for i
  proof -
    have e: "edit_message W i (raw_msgs ! i) segments (i \<in> set kept) = Inr (msgs ! i)" using nth that by simp
    then have "msgs ! i = raw_msgs ! i"
      if "\<forall>s \<in> set segments. tg_message (rs_target s) \<noteq> i" "i \<notin> set kept" "\<not> has_hint_raw (raw_msgs ! i)"
      using that by (simp add: edit_message_def filter_empty_conv)
    then show ?thesis using edit_message_confined[OF e] by (auto simp: filter_empty_conv)
  qed
  have other: "\<forall>k. map_of (map_insert (lit ''messages'') raw env) k = (if k = lit ''messages'' then Some raw else map_of env k)"
    by (simp add: map_of_map_insert)
  show ?thesis
    by (rule exI[of _ env], rule exI[of _ raw_msgs], rule exI[of _ msgs], rule exI[of _ kept], rule exI[of _ raw])
       (use env nth cap out(1,2) msg other kept_def in blast)
qed

text \<open>A library that reads every request as one message of two text blocks.\<close>

definition demo_writer :: writer where
  "demo_writer = \<lparr>wr_raw_array = (\<lambda>r. Some [r]),
     wr_object = (\<lambda>r. Some [(lit ''content'', VArray [VString (lit ''a''), VString (lit ''b'')])]),
     wr_value = (\<lambda>s. Some (VString s)), wr_text = (\<lambda>v. Some (lit ''x'')), wr_raw = Some,
     wr_messages = (\<lambda>ms. Some (concat ms)), wr_envelope = (\<lambda>es. Some [length es])\<rparr>"

definition envelope_serde :: serde where
  "envelope_serde = demo_serde\<lparr>js_envelope := (\<lambda>_. Some [(lit ''model'', []), (lit ''messages'', lit ''m'')])\<rparr>"

theorem splice_changes_only_targets_witness:
  "\<exists>sp m. splice envelope_serde demo_writer [] demo_body
      [\<lparr>rs_target = \<lparr>tg_message = 0, tg_block = Some 1\<rparr>, rs_block_json = lit ''c''\<rparr>] \<lparr>positions = [7]\<rparr> = Inr sp \<and>
     sp_suppressed_breakpoints sp = 0 \<and>
     edit_confined demo_writer [\<lparr>rs_target = \<lparr>tg_message = 0, tg_block = Some 1\<rparr>, rs_block_json = lit ''c''\<rparr>] False (lit ''m'') m"
proof -
  let ?segs = "[\<lparr>rs_target = \<lparr>tg_message = 0, tg_block = Some 1\<rparr>, rs_block_json = lit ''c''\<rparr>]"
  have "\<exists>sp. splice envelope_serde demo_writer [] demo_body ?segs \<lparr>positions = [7]\<rparr> = Inr sp"
    by (simp add: splice_def envelope_serde_def demo_writer_def Let_def wanted_hints_def cap_cache_hints_to_def
        edit_message_def set_hint_def)
  then obtain sp where sp: "splice envelope_serde demo_writer [] demo_body ?segs \<lparr>positions = [7]\<rparr> = Inr sp" ..
  have kept: "wanted_hints \<lparr>positions = [7]\<rparr> 1 = []" "cap_cache_hints_to [] n = []" for n
    by (simp_all add: wanted_hints_def cap_cache_hints_to_def)
  have env: "js_envelope envelope_serde [] = Some [(lit ''model'', []), (lit ''messages'', lit ''m'')]"
    "wr_raw_array demo_writer (lit ''m'') = Some [lit ''m'']" "lit ''messages'' \<noteq> lit ''model''"
    by (simp_all add: envelope_serde_def demo_writer_def lit_def)
  obtain raw_msgs msgs where m: "raw_msgs = [lit ''m'']" "sp_suppressed_breakpoints sp = 0"
    "\<forall>i < length raw_msgs. if (\<forall>s \<in> set ?segs. tg_message (rs_target s) \<noteq> i) \<and> i \<notin> set [] \<and> \<not> has_hint_raw (raw_msgs ! i)
       then msgs ! i = raw_msgs ! i
       else edit_confined demo_writer (filter (\<lambda>s. tg_message (rs_target s) = i) ?segs) (i \<in> set []) (raw_msgs ! i) (msgs ! i)"
    using splice_changes_only_targets[OF sp] env kept by auto
  have "edit_confined demo_writer ?segs False (lit ''m'') (msgs ! 0)" using m(3)[rule_format, of 0] by (simp add: m(1))
  with sp m(2) show ?thesis by blast
qed

text \<open>C2: the gate lets a rewrite through exactly when it parses and every invariant of the original
  holds of it: client tool calls and results pair up by id, the roles are the same in the same
  order, at most four cache hints, strictly fewer bytes of message content and no span longer than
  the one it stands for, the thinking of the latest assistant message verbatim, and the original's
  top-level keys.  Otherwise it reports the first of these that fails.\<close>

theorem validate_accepts_exactly:
  "(validate J rewritten original = Inr () \<longleftrightarrow> (\<exists>new. parse_body J rewritten = Some new \<and>
      client_uses J new = client_results J new \<and>
      map role (messages new) = map role (messages original) \<and>
      count_matches hint_literal rewritten \<le> 4 \<and>
      sum_list (map str_len (msg_spans new)) < sum_list (map str_len (msg_spans original)) \<and>
      (\<forall>i. i < length (msg_spans new) \<and> i < length (msg_spans original) \<longrightarrow>
         str_len (msg_spans new ! i) \<le> str_len (msg_spans original ! i)) \<and>
      (\<forall>span \<in> set (latest_assistant_thinking original). contains rewritten (utf8 span)) \<and>
      (\<exists>env. js_envelope J rewritten = Some env \<and> set (required_keys original) \<subseteq> fst ` set env))) \<and>
   (\<forall>e. validate J rewritten original = Inl e \<longrightarrow> (case e of
        Reparse \<Rightarrow> parse_body J rewritten = None \<or> js_envelope J rewritten = None
      | ToolPairBroken \<Rightarrow> (\<exists>new. parse_body J rewritten = Some new \<and> client_uses J new \<noteq> client_results J new)
      | RoleDropped \<Rightarrow> (\<exists>new. parse_body J rewritten = Some new \<and> map role (messages new) \<noteq> map role (messages original))
      | TooManyBreakpoints n \<Rightarrow> n = count_matches hint_literal rewritten \<and> 4 < n
      | GrewInsteadOfShrank \<Rightarrow> (\<exists>new. parse_body J rewritten = Some new \<and>
          (sum_list (map str_len (msg_spans original)) \<le> sum_list (map str_len (msg_spans new)) \<or>
           (\<exists>i. i < length (msg_spans new) \<and> i < length (msg_spans original) \<and>
              str_len (msg_spans original ! i) < str_len (msg_spans new ! i))))
      | ThinkingMutated \<Rightarrow> (\<exists>span \<in> set (latest_assistant_thinking original). \<not> contains rewritten (utf8 span))
      | EnvelopeKeyDropped \<Rightarrow> (\<exists>env. js_envelope J rewritten = Some env \<and> \<not> set (required_keys original) \<subseteq> fst ` set env)))"
proof -
  have zip: "list_all (\<lambda>(a, b). str_len b \<le> str_len a) (zip xs ys) \<longleftrightarrow>
      (\<forall>i. i < length ys \<and> i < length xs \<longrightarrow> str_len (ys ! i) \<le> str_len (xs ! i))" for xs ys
    by (auto simp: list_all_length)
  show ?thesis
    unfolding validate_def and_then_def check_tool_pairs_def check_roles_def check_hint_cap_def check_shrink_def
      check_thinking_def check_envelope_keys_def top_level_keys_def Let_def zip CACHE_HINT_CAP_def
    by (cases "parse_body J rewritten"; cases "js_envelope J rewritten")
       (auto simp: list_all_iff subset_iff not_le split: if_splits GateError.splits)
qed

text \<open>A library under which every request reads as one short user message.\<close>

definition short_serde :: serde where
  "short_serde = demo_serde\<lparr>js_body := (\<lambda>_. Some \<lparr>rb_model = wb_model demo_body, rb_system = None, rb_tools = None,
       rb_messages = [(RoleUser, [34, 34])], rb_max_tokens = 1\<rparr>),
     js_envelope := (\<lambda>_. Some [(lit ''model'', []), (lit ''max_tokens'', []), (lit ''messages'', [])])\<rparr>"

definition long_body :: WireBody where
  "long_body = demo_body\<lparr>wb_system := None,
     messages := [\<lparr>role = RoleUser, content = MText (lit ''longer'') (lit ''longer'')\<rparr>]\<rparr>"

theorem validate_accepts_exactly_witness:
  "validate short_serde [] long_body = Inr () \<and> validate demo_serde [] long_body = Inl Reparse \<and>
   parse_body demo_serde [] = None"
proof -
  let ?new = "\<lparr>wb_model = wb_model demo_body, wb_system = None, wb_tools = None,
     messages = [\<lparr>role = RoleUser, content = MText [34, 34] [34, 34]\<rparr>], max_tokens = 1\<rparr>"
  have "parse_body short_serde [] = Some ?new"
    by (simp add: parse_body_def short_serde_def MessageContent_deserialize_def trim_start_def is_whitespace_def
        starts_with_def demo_serde_def)
  moreover have "client_uses short_serde ?new = client_results short_serde ?new"
    by (simp add: client_uses_def client_results_def all_blocks_def)
  moreover have "map role (messages ?new) = map role (messages long_body)" by (simp add: long_body_def)
  moreover have "count_matches hint_literal [] \<le> 4" by (simp add: count_matches.simps)
  moreover have "msg_spans ?new = [[34, 34]]" "msg_spans long_body = [lit ''longer'']"
    by (simp_all add: msg_spans_def long_body_def)
  moreover have "latest_assistant_thinking long_body = []" by (simp add: latest_assistant_thinking_def long_body_def)
  moreover have "js_envelope short_serde [] = Some [(lit ''model'', []), (lit ''max_tokens'', []), (lit ''messages'', [])]"
    "set (required_keys long_body) = {lit ''model'', lit ''max_tokens'', lit ''messages''}"
    by (simp_all add: short_serde_def required_keys_def long_body_def demo_body_def)
  ultimately have "validate short_serde [] long_body = Inr ()"
    unfolding validate_accepts_exactly[THEN conjunct1] by (intro exI[of _ ?new]) (simp add: lit_def utf8_width_def)
  moreover have "parse_body demo_serde [] = None" by (simp add: parse_body_def demo_serde_def)
  moreover from this have "validate demo_serde [] long_body = Inl Reparse" by (simp add: validate_def)
  ultimately show ?thesis by simp
qed

end
