(* ===== verification/Refs.thy ===== *)
theory Refs
  imports Core Std_Text
begin

text \<open>
  The addressing side of the reversible store, \<^verbatim>\<open>ccs-refs\<close>: content addresses
  (\<^verbatim>\<open>hash.rs\<close>), records (\<^verbatim>\<open>record.rs\<close>), the dedup gates
  (\<^verbatim>\<open>dedup.rs\<close>) and the wire markers with the scan that finds them again
  (\<^verbatim>\<open>marker.rs\<close>).

  The digest is an argument: \<open>sha_hex\<close> is the lower-case hexadecimal form of the SHA-256 digest.
\<close>

section \<open>Lossy decoding\<close>

text \<open>\<^verbatim>\<open>String::from_utf8_lossy\<close>: the next character and how many bytes it took; a byte
  sequence that is no character gives one replacement character for the bytes tried.\<close>

definition is_cont :: "nat \<Rightarrow> bool" where
  "is_cont b = (128 \<le> b \<and> b \<le> 191)"

definition byte_at :: "nat list \<Rightarrow> nat \<Rightarrow> nat" where
  "byte_at bs i = (if i < length bs then bs ! i else 0)"

definition second_ok :: "nat \<Rightarrow> nat \<Rightarrow> bool" where
  "second_ok b b1 =
     (if b = 224 then 160 \<le> b1 \<and> b1 \<le> 191
      else if b = 237 then 128 \<le> b1 \<and> b1 \<le> 159
      else if b = 240 then 144 \<le> b1 \<and> b1 \<le> 191
      else if b = 244 then 128 \<le> b1 \<and> b1 \<le> 143
      else is_cont b1)"

definition decode_char :: "nat list \<Rightarrow> nat \<times> nat" where
  "decode_char bs = (let b = byte_at bs 0; b1 = byte_at bs 1; b2 = byte_at bs 2; b3 = byte_at bs 3 in
     if b < 128 then (b, 1)
     else if 194 \<le> b \<and> b \<le> 223 then
       (if is_cont b1 then ((b - 192) * 64 + (b1 - 128), 2) else (65533, 1))
     else if 224 \<le> b \<and> b \<le> 239 then
       (if \<not> second_ok b b1 then (65533, 1)
        else if \<not> is_cont b2 then (65533, 2)
        else ((b - 224) * 4096 + (b1 - 128) * 64 + (b2 - 128), 3))
     else if 240 \<le> b \<and> b \<le> 244 then
       (if \<not> second_ok b b1 then (65533, 1)
        else if \<not> is_cont b2 then (65533, 2)
        else if \<not> is_cont b3 then (65533, 3)
        else ((b - 240) * 262144 + (b1 - 128) * 4096 + (b2 - 128) * 64 + (b3 - 128), 4))
     else (65533, 1))"

lemma decode_char_pos: "0 < snd (decode_char bs)"
  by (simp add: decode_char_def Let_def)

function from_utf8_lossy :: "nat list \<Rightarrow> str" where
  "from_utf8_lossy bs = (if bs = [] then [] else
     fst (decode_char bs) # from_utf8_lossy (drop (snd (decode_char bs)) bs))"
  by pat_completeness auto

termination
  by (relation "measure length") (auto simp: decode_char_pos)

declare from_utf8_lossy.simps [simp del]

definition scalar_value :: "nat \<Rightarrow> bool" where
  "scalar_value c = (c < 55296 \<or> (57344 \<le> c \<and> c < 1114112))"

lemma scalar_value_bound: "scalar_value c \<Longrightarrow> c < 1114112"
  by (auto simp: scalar_value_def)

lemma decode_utf8_char:
  assumes "scalar_value c"
  shows "decode_char (utf8_char c @ bs) = (c, utf8_width c)"
proof -
  consider "c < 128" | "128 \<le> c" "c < 2048" | "2048 \<le> c" "c < 65536" | "65536 \<le> c" "c < 1114112"
    using assms by (meson not_less order.strict_trans scalar_value_bound)
  then show ?thesis
  proof cases
    case 1
    then show ?thesis by (simp add: utf8_char_def decode_char_def byte_at_def utf8_width_def)
  next
    case 2
    define q r where "q = c div 64" and "r = c mod 64"
    then have c: "c = q * 64 + r" "r < 64" by simp_all
    then have "2 \<le> q" "q < 32" using 2 by linarith+
    then show ?thesis using 2 c
      by (simp add: utf8_char_def q_def[symmetric] r_def[symmetric] decode_char_def byte_at_def utf8_width_def is_cont_def Let_def)
  next
    case 3
    have d: "c div 4096 < 16" using 3 by (simp add: less_mult_imp_div_less)
    have z: "32 \<le> (c div 64) mod 64" if "c div 4096 = 0"
    proof -
      have "c < 4096" using that by (simp add: div_eq_0_iff)
      then have "(c div 64) mod 64 = c div 64" by (simp add: less_mult_imp_div_less)
      then show ?thesis using div_le_mono[OF 3(1), of 64] by simp
    qed
    have s: "(c div 64) mod 64 < 32" if "c div 4096 = 13"
    proof -
      have "c < 57344" using that 3 by (simp add: div_less_iff_less_mult flip: Suc_le_eq)
      then have "c < 55296" using assms by (simp add: scalar_value_def)
      moreover have "c = 13 * 4096 + c mod 4096" using that by (metis div_mult_mod_eq mult.commute)
      ultimately have "c mod 4096 < 2048" by simp
      moreover have "(c div 64) mod 64 = (c mod 4096) div 64" using mod_mult2_eq[of c 64 64] by simp
      ultimately show ?thesis by (simp add: less_mult_imp_div_less)
    qed
    have "second_ok (224 + c div 4096) (128 + (c div 64) mod 64)"
      using z s d by (auto simp: second_ok_def is_cont_def less_Suc_eq_le[symmetric])
    moreover define p q r where "p = c div 4096" and "q = (c div 64) mod 64" and "r = c mod 64"
    moreover have c: "p * 4096 + q * 64 + r = c"
      unfolding p_def q_def r_def using mod_mult2_eq[of c 64 64] div_mult_mod_eq[of c 4096] by simp
    moreover have "p < 16" "q < 64" "r < 64" using d by (simp_all add: p_def q_def r_def)
    moreover have u: "utf8_char c = [224 + p, 128 + q, 128 + r]" "utf8_width c = 3"
      using 3 by (simp_all add: utf8_char_def p_def q_def r_def utf8_width_def)
    ultimately have ok: "second_ok (224 + p) (128 + q)" "p < 16" "q < 64" "r < 64" by blast+
    show ?thesis unfolding u using ok c by (simp add: decode_char_def byte_at_def is_cont_def Let_def)
  next
    case 4
    have d: "c div 262144 < 5" using 4 by (simp add: less_mult_imp_div_less)
    have z: "16 \<le> (c div 4096) mod 64" if "c div 262144 = 0"
    proof -
      have "c < 262144" using that by (simp add: div_eq_0_iff)
      then have "(c div 4096) mod 64 = c div 4096" by (simp add: less_mult_imp_div_less)
      then show ?thesis using div_le_mono[OF 4(1), of 4096] by simp
    qed
    have s: "(c div 4096) mod 64 < 16" if "c div 262144 = 4"
    proof -
      have "c mod 262144 < 65536" using that 4(2) div_mult_mod_eq[of c 262144] by simp
      moreover have "(c div 4096) mod 64 = (c mod 262144) div 4096" using mod_mult2_eq[of c 4096 64] by simp
      ultimately show ?thesis by (simp add: less_mult_imp_div_less)
    qed
    have "second_ok (240 + c div 262144) (128 + (c div 4096) mod 64)"
      using z s d by (auto simp: second_ok_def is_cont_def less_Suc_eq_le[symmetric])
    moreover define p q r t where "p = c div 262144" and "q = (c div 4096) mod 64" and "r = (c div 64) mod 64"
      and "t = c mod 64"
    moreover have c: "p * 262144 + q * 4096 + r * 64 + t = c"
      unfolding p_def q_def r_def t_def
      using mod_mult2_eq[of c 64 64] mod_mult2_eq[of c 4096 64] div_mult_mod_eq[of c 262144] by simp
    moreover have "p < 5" "q < 64" "r < 64" "t < 64" using d by (simp_all add: p_def q_def r_def t_def)
    moreover have u: "utf8_char c = [240 + p, 128 + q, 128 + r, 128 + t]" "utf8_width c = 4"
      using 4 by (simp_all add: utf8_char_def p_def q_def r_def t_def utf8_width_def)
    ultimately have ok: "second_ok (240 + p) (128 + q)" "p < 5" "q < 64" "r < 64" "t < 64" by blast+
    show ?thesis unfolding u using ok c
      by (simp add: decode_char_def byte_at_def is_cont_def Let_def numeral_3_eq_3)
  qed
qed

lemma from_utf8_lossy_utf8: "\<forall>c \<in> set s. scalar_value c \<Longrightarrow> from_utf8_lossy (utf8 s) = s"
proof (induction s)
  case Nil
  then show ?case by (simp add: utf8_def from_utf8_lossy.simps)
next
  case (Cons c s)
  have "utf8 (c # s) = utf8_char c @ utf8 s" "utf8_char c \<noteq> []" by (simp_all add: utf8_def utf8_char_def)
  then show ?case using Cons decode_utf8_char[of c "utf8 s"]
    by (subst from_utf8_lossy.simps) (simp add: length_utf8_char)
qed

section \<open>Addresses and dedup gates\<close>

text \<open>\<open>None\<close> is the \<^verbatim>\<open>unreachable!\<close> arm.\<close>

definition content_address :: "(nat list \<Rightarrow> str) \<Rightarrow> nat list \<Rightarrow> RefId option" where
  "content_address sha_hex bytes = (case RefId_parse (lit ''sha256:'' @ sha_hex bytes) of
      Inr r \<Rightarrow> Some r | Inl _ \<Rightarrow> None)"

definition hex_digest :: "(nat list \<Rightarrow> str) \<Rightarrow> bool" where
  "hex_digest sha_hex = (\<forall>bytes. length (sha_hex bytes) = 64 \<and> list_all is_lower_hex (sha_hex bytes))"

definition GATE_MIN_CHARS :: nat where "GATE_MIN_CHARS = 1024"

definition dedupe_key :: "(nat list \<Rightarrow> str) \<Rightarrow> nat list \<Rightarrow> RefId option" where
  "dedupe_key sha_hex payload = content_address sha_hex payload"

definition should_dedupe :: "str \<Rightarrow> nat \<Rightarrow> bool \<Rightarrow> bool \<Rightarrow> bool" where
  "should_dedupe r len forced allow_assistant =
     (\<not> forced \<and> GATE_MIN_CHARS \<le> len \<and> (r \<noteq> lit ''assistant'' \<or> allow_assistant))"

definition can_dedupe_from :: "str \<Rightarrow> str \<Rightarrow> bool" where
  "can_dedupe_from prev cur = (prev = cur \<or> (prev = lit ''assistant'' \<and> cur = lit ''user''))"

section \<open>Records\<close>

record RefRecord =
  rec_ref_id :: RefId
  rec_byte_len :: nat
  rec_token_estimate :: TokenCount
  rec_source_uuid :: MessageId
  rec_session_id :: SessionId
  rec_kind :: SegmentKind
  rec_created_at :: f64

record Materialized =
  mat_ref_id :: RefId
  mat_text :: str
  mat_token_estimate :: TokenCount
  mat_access_count :: nat

datatype RetrieveResult = Hit (hit_text: str) (hit_access_count: nat) | Miss

section \<open>Markers\<close>

definition placeholder_prefix :: str where
  "placeholder_prefix = lit ''[cc-squash: squashed segment '' @ [183] @ lit '' ref=''"

definition backref_prefix :: str where
  "backref_prefix = lit ''[same as earlier message '' @ [183] @ lit '' ref=''"

definition tokens_prefix :: str where "tokens_prefix = lit '' '' @ [183] @ lit '' ~''"

definition tokens_suffix :: str where "tokens_suffix = lit '' tokens '' @ [183] @ lit '' ''"

text \<open>The two alternatives of the marker's regular expression, matched at the head of the text: the
  captured digest and the text behind the match.\<close>

definition take_ref :: "str \<Rightarrow> (str \<times> str) option" where
  "take_ref s = (case strip_prefix (lit ''sha256:'') s of
      None \<Rightarrow> None
    | Some r \<Rightarrow>
        if length (take 64 r) = 64 \<and> list_all is_lower_hex (take 64 r)
        then Some (lit ''sha256:'' @ take 64 r, drop 64 r) else None)"

definition take_number :: "str \<Rightarrow> str option" where
  "take_number s = (if takeWhile is_digit s = [] then None else Some (dropWhile is_digit s))"

definition placeholder_at :: "str \<Rightarrow> (str \<times> str) option" where
  "placeholder_at s = Option.bind (strip_prefix placeholder_prefix s) (\<lambda>s1.
     Option.bind (take_ref s1) (\<lambda>(r, s2).
     Option.bind (strip_prefix tokens_prefix s2) (\<lambda>s3.
     Option.bind (take_number s3) (\<lambda>s4.
     Option.bind (strip_prefix tokens_suffix s4) (\<lambda>s5.
     Option.bind (take_number s5) (\<lambda>s6.
     map_option (\<lambda>s7. (r, s7)) (strip_prefix (lit '' bytes]'') s6)))))))"

definition backref_at :: "str \<Rightarrow> (str \<times> str) option" where
  "backref_at s = Option.bind (strip_prefix backref_prefix s) (\<lambda>s1.
     Option.bind (take_ref s1) (\<lambda>(r, s2). map_option (\<lambda>s3. (r, s3)) (strip_prefix (lit '']'') s2)))"

definition ref_marker :: "str \<Rightarrow> (str \<times> str) option" where
  "ref_marker s = (case placeholder_at s of Some m \<Rightarrow> Some m | None \<Rightarrow> backref_at s)"

lemma take_ref_Some: "take_ref s = Some (r, s') \<longleftrightarrow> s = r @ s' \<and> is_ref_shape r"
  by (auto simp: take_ref_def is_ref_shape_iff strip_prefix_Some_iff REF_PREFIX_def list_all_iff split: option.splits if_splits)


lemma strip_prefix_shorter: "strip_prefix p s = Some r \<Longrightarrow> length r = length s - length p \<and> length p \<le> length s"
  by (auto simp: strip_prefix_Some_iff)

text \<open>The texts the expression matches, with the digest it captures.\<close>

definition digits1 :: "str \<Rightarrow> bool" where
  "digits1 n = (n \<noteq> [] \<and> list_all is_digit n)"

definition is_marker :: "str \<Rightarrow> str \<Rightarrow> bool" where
  "is_marker m r = (is_ref_shape r \<and> (m = backref_prefix @ r @ lit '']'' \<or>
     (\<exists>n k. digits1 n \<and> digits1 k \<and>
        m = placeholder_prefix @ r @ tokens_prefix @ n @ tokens_suffix @ k @ lit '' bytes]'')))"

lemma take_number_Some: "take_number s = Some s' \<longleftrightarrow>
    (\<exists>n. digits1 n \<and> s = n @ s' \<and> (s' = [] \<or> \<not> is_digit (hd s')))"
proof
  assume "take_number s = Some s'"
  then show "\<exists>n. digits1 n \<and> s = n @ s' \<and> (s' = [] \<or> \<not> is_digit (hd s'))"
    by (intro exI[of _ "takeWhile is_digit s"])
       (auto simp: take_number_def digits1_def list_all_iff dest: set_takeWhileD hd_dropWhile split: if_splits)
next
  assume "\<exists>n. digits1 n \<and> s = n @ s' \<and> (s' = [] \<or> \<not> is_digit (hd s'))"
  then obtain n where n: "digits1 n" "s = n @ s'" "s' = [] \<or> \<not> is_digit (hd s')" by blast
  then have "takeWhile is_digit s = n" "dropWhile is_digit s = s'"
    by (cases s'; simp add: digits1_def list_all_iff takeWhile_append2 dropWhile_append2)+
  with n show "take_number s = Some s'" by (simp add: take_number_def digits1_def)
qed

lemma take_number_literal:
  "p \<noteq> [] \<Longrightarrow> \<not> is_digit (hd p) \<Longrightarrow> take_number s = Some (p @ s') \<longleftrightarrow> (\<exists>n. digits1 n \<and> s = n @ p @ s')"
  by (cases p) (auto simp: take_number_Some)

lemma marker_literals:
  "tokens_suffix \<noteq> []" "\<not> is_digit (hd tokens_suffix)" "lit '' bytes]'' \<noteq> []" "\<not> is_digit (hd (lit '' bytes]''))"
  by (simp_all add: tokens_suffix_def lit_def is_digit_def)

lemma placeholder_at_Some:
  "placeholder_at s = Some (r, s') \<longleftrightarrow> (\<exists>n k. is_ref_shape r \<and> digits1 n \<and> digits1 k \<and>
     s = placeholder_prefix @ r @ tokens_prefix @ n @ tokens_suffix @ k @ lit '' bytes]'' @ s')"
proof
  assume "placeholder_at s = Some (r, s')"
  then obtain s1 s2 s3 s4 s5 where "s = placeholder_prefix @ s1" "s1 = r @ s2" "is_ref_shape r" "s2 = tokens_prefix @ s3"
    "take_number s3 = Some (tokens_suffix @ s4)" "take_number s4 = Some (lit '' bytes]'' @ s5)" "s5 = s'"
    unfolding placeholder_at_def by (auto simp: bind_eq_Some_conv strip_prefix_Some_iff take_ref_Some)
  then show "\<exists>n k. is_ref_shape r \<and> digits1 n \<and> digits1 k \<and>
      s = placeholder_prefix @ r @ tokens_prefix @ n @ tokens_suffix @ k @ lit '' bytes]'' @ s'"
    unfolding take_number_literal[OF marker_literals(1,2)] take_number_literal[OF marker_literals(3,4)] by auto
next
  assume "\<exists>n k. is_ref_shape r \<and> digits1 n \<and> digits1 k \<and>
      s = placeholder_prefix @ r @ tokens_prefix @ n @ tokens_suffix @ k @ lit '' bytes]'' @ s'"
  then obtain n k where *: "is_ref_shape r" "digits1 n" "digits1 k"
    "s = placeholder_prefix @ r @ tokens_prefix @ n @ tokens_suffix @ k @ lit '' bytes]'' @ s'" by blast
  have "take_ref (r @ x) = Some (r, x)" for x using *(1) by (simp add: take_ref_Some)
  moreover have "take_number (n @ tokens_suffix @ x) = Some (tokens_suffix @ x)" for x
    using *(2) take_number_literal[OF marker_literals(1,2)] by blast
  moreover have "take_number (k @ lit '' bytes]'' @ x) = Some (lit '' bytes]'' @ x)" for x
    using *(3) take_number_literal[OF marker_literals(3,4)] by blast
  ultimately show "placeholder_at s = Some (r, s')" by (simp add: placeholder_at_def *(4))
qed

lemma backref_at_Some: "backref_at s = Some (r, s') \<longleftrightarrow> is_ref_shape r \<and> s = backref_prefix @ r @ lit '']'' @ s'"
  unfolding backref_at_def by (auto simp: bind_eq_Some_conv strip_prefix_Some_iff take_ref_Some)

text \<open>The two alternatives exclude each other, so the match is the marker at the head, if any.\<close>

lemma prefixes_differ: "placeholder_prefix @ a \<noteq> backref_prefix @ b"
  by (simp add: placeholder_prefix_def backref_prefix_def lit_def)

lemma ref_marker_Some: "ref_marker s = Some (r, s') \<longleftrightarrow> (\<exists>m. is_marker m r \<and> s = m @ s')"
proof -
  have "placeholder_at s = None" if b: "backref_at s = Some (r, s')"
  proof (cases "placeholder_at s")
    case (Some p)
    then obtain x where "s = placeholder_prefix @ x" by (cases p) (auto simp: placeholder_at_Some)
    moreover obtain y where "s = backref_prefix @ y" using b by (auto simp: backref_at_Some)
    ultimately have "placeholder_prefix @ x = backref_prefix @ y" by simp
    then show ?thesis using prefixes_differ by metis
  qed
  then have "ref_marker s = Some (r, s') \<longleftrightarrow> placeholder_at s = Some (r, s') \<or> backref_at s = Some (r, s')"
    by (auto simp: ref_marker_def split: option.splits)
  then show ?thesis by (fastforce simp: placeholder_at_Some backref_at_Some is_marker_def)
qed

lemma ref_shape_chars: "is_ref_shape r \<Longrightarrow> 91 \<notin> set r"
  by (fastforce simp: is_ref_shape_iff REF_PREFIX_def lit_def list_all_iff is_lower_hex_def)

lemma digits1_chars: "digits1 n \<Longrightarrow> 91 \<notin> set n"
  by (auto simp: digits1_def list_all_iff is_digit_def)

text \<open>A marker opens with a bracket and holds no other: no marker starts inside another.\<close>

lemma is_marker_bracket: "is_marker m r \<Longrightarrow> \<exists>t. m = 91 # t \<and> 91 \<notin> set t"
  unfolding is_marker_def
  by (auto simp: backref_prefix_def placeholder_prefix_def tokens_prefix_def tokens_suffix_def lit_def
      dest: ref_shape_chars digits1_chars)

lemma ref_marker_shorter: "ref_marker s = Some (r, s') \<Longrightarrow> length s' < length s"
  by (auto simp: ref_marker_Some dest: is_marker_bracket)

function extract_refs :: "str \<Rightarrow> RefId list" where
  "extract_refs s = (if s = [] then [] else case ref_marker s of
      None \<Rightarrow> extract_refs (tl s)
    | Some (r, rest) \<Rightarrow> (case RefId_parse r of Inr i \<Rightarrow> i # extract_refs rest | Inl _ \<Rightarrow> extract_refs rest))"
  by pat_completeness auto

termination
  by (relation "measure length") (auto simp: ref_marker_shorter)

declare extract_refs.simps [simp del]

definition fuse_filename :: "RefId \<Rightarrow> str" where
  "fuse_filename r = map (\<lambda>c. if c = 58 then 45 else c) (ref_str r) @ lit ''.txt''"

definition placeholder_header :: "RefRecord \<Rightarrow> str" where
  "placeholder_header r = placeholder_prefix @ ref_str (rec_ref_id r) @ tokens_prefix @ dec (unat (rec_token_estimate r)) @
     tokens_suffix @ dec (rec_byte_len r) @ lit '' bytes]''"

definition bullet :: str where "bullet = [10, 32, 32, 8226, 32]"

definition fuse_line :: "RefRecord \<Rightarrow> bool \<Rightarrow> str" where
  "fuse_line r fuse_up =
     (if fuse_up then bullet @ lit ''Read(\".cc-squash/refs/'' @ fuse_filename (rec_ref_id r) @ lit ''\")'' else [])"

definition render_placeholder :: "RefRecord \<Rightarrow> str \<Rightarrow> bool \<Rightarrow> str" where
  "render_placeholder r summary fuse_up = placeholder_header r @ [10] @ summary @ [10] @
     lit ''Pull the full original if you need it:'' @ bullet @ lit ''retrieve(\"'' @ ref_str (rec_ref_id r) @ lit ''\")'' @
     fuse_line r fuse_up"

definition render_backref :: "RefId \<Rightarrow> str" where
  "render_backref r = backref_prefix @ ref_str r @ lit '']''"

definition RECOVERY_HINT :: str where
  "RECOVERY_HINT = lit ''original no longer stored '' @ [8212] @
     lit '' if it was a file Read, re-read the file; if it was command output, re-run it.''"

lemma extract_refs_Nil [simp]: "extract_refs [] = []"
  by (simp add: extract_refs.simps)

lemma extract_refs_marker: "is_marker m r \<Longrightarrow> extract_refs (m @ s) = RefId r # extract_refs s"
proof -
  assume m: "is_marker m r"
  then have "ref_marker (m @ s) = Some (r, s)" "m \<noteq> []" using is_marker_bracket by (auto simp: ref_marker_Some)
  moreover have "RefId_parse r = Inr (RefId r)" using m by (simp add: RefId_parse_Inr_iff is_marker_def)
  ultimately show ?thesis by (subst extract_refs.simps) simp
qed

lemma extract_refs_skip: "ref_marker (c # s) = None \<Longrightarrow> extract_refs (c # s) = extract_refs s"
  by (subst extract_refs.simps) simp

lemma extract_refs_plain: "91 \<notin> set t \<Longrightarrow> extract_refs (t @ s) = extract_refs s"
proof (induction t)
  case (Cons c t)
  have "ref_marker (c # t @ s) = None"
    using Cons.prems by (cases "ref_marker (c # t @ s)") (fastforce simp: ref_marker_Some dest: is_marker_bracket)+
  then show ?case using Cons by (simp add: extract_refs_skip)
qed simp

text \<open>Scanning stops at a bracket: what comes before does not depend on what follows.\<close>

lemma extract_refs_split: "extract_refs (a @ 91 # b) = extract_refs a @ extract_refs (91 # b)"
proof (induction "length a" arbitrary: a rule: less_induct)
  case less
  show ?case
  proof (cases a)
    case (Cons c t)
    show ?thesis
    proof (cases "\<exists>m r. is_marker m r \<and> prefix m a")
      case True
      then obtain m r a' where m: "is_marker m r" "a = m @ a'" by (auto simp: prefix_def)
      then have "length a' < length a" by (auto dest: is_marker_bracket)
      then show ?thesis using less m by (simp add: extract_refs_marker)
    next
      case False
      have no: "ref_marker a = None"
        using False by (cases "ref_marker a") (force simp: ref_marker_Some prefix_def)+
      have "ref_marker (a @ 91 # b) = None"
      proof (cases "ref_marker (a @ 91 # b)")
        case (Some p)
        then obtain m r s' where m: "is_marker m r" "a @ 91 # b = m @ s'" by (cases p) (auto simp: ref_marker_Some)
        then obtain t' where t': "m = 91 # t'" "91 \<notin> set t'" using is_marker_bracket by blast
        from m(2) obtain u where "a = m @ u \<or> (a @ u = m \<and> 91 # b = u @ s')" by (auto simp: append_eq_append_conv2)
        then show ?thesis using False m(1) t' Cons by (cases u) (auto simp: prefix_def)
      qed
      then show ?thesis using less Cons no by (simp add: extract_refs_skip)
    qed
  qed simp
qed

lemma extract_refs_around: "is_marker m r \<Longrightarrow> extract_refs (a @ m @ b) = extract_refs a @ RefId r # extract_refs b"
proof -
  assume m: "is_marker m r"
  then obtain t where t: "m = 91 # t" using is_marker_bracket by blast
  show ?thesis using extract_refs_split[of a "t @ b"] extract_refs_marker[OF m, of b] by (simp add: t)
qed

lemma extract_refs_sound: "i \<in> set (extract_refs s) \<Longrightarrow> \<exists>a m b. s = a @ m @ b \<and> is_marker m (ref_str i)"
proof (induction s rule: extract_refs.induct)
  case (1 s)
  show ?case
  proof (cases "ref_marker s")
    case None
    then have s: "s \<noteq> []" "i \<in> set (extract_refs (tl s))" using 1(4) extract_refs.simps[of s] by (auto split: if_splits)
    then obtain a m b where "tl s = a @ m @ b" "is_marker m (ref_str i)" using 1(1)[OF s(1) None s(2)] by blast
    then have "s = (hd s # a) @ m @ b" using s(1) by (cases s) auto
    then show ?thesis using \<open>is_marker m (ref_str i)\<close> by blast
  next
    case (Some p)
    then obtain r rest m where p: "p = (r, rest)" and m: "is_marker m r" "s = m @ rest"
      by (cases p) (auto simp: ref_marker_Some)
    have "i = RefId r \<or> i \<in> set (extract_refs rest)" using 1(4) extract_refs_marker[OF m(1), of rest] m(2) by simp
    then show ?thesis
    proof
      assume "i = RefId r"
      then show ?thesis using m by (metis RefId.sel append_Nil)
    next
      assume i: "i \<in> set (extract_refs rest)"
      have "is_ref_shape r" using m(1) by (simp add: is_marker_def)
      then have "RefId_parse r = Inr (RefId r)" by (simp add: RefId_parse_Inr_iff)
      then obtain a m' b where "rest = a @ m' @ b" "is_marker m' (ref_str i)"
        using 1(3)[OF _ Some p[symmetric] _ i] m(2) is_marker_bracket[OF m(1)] by auto
      then show ?thesis using m(2) by (metis append.assoc)
    qed
  qed
qed

lemma digits1_dec: "digits1 (dec n)"
  by (simp add: digits1_def dec_digits)

lemma placeholder_is_marker: "is_ref_shape (ref_str (rec_ref_id r)) \<Longrightarrow> is_marker (placeholder_header r) (ref_str (rec_ref_id r))"
  unfolding is_marker_def placeholder_header_def using digits1_dec by blast

lemma backref_is_marker: "is_ref_shape (ref_str i) \<Longrightarrow> is_marker (render_backref i) (ref_str i)"
  by (simp add: is_marker_def render_backref_def)

lemma placeholder_tail_plain:
  assumes "is_ref_shape (ref_str (rec_ref_id r))" "91 \<notin> set summary"
  shows "\<exists>t. render_placeholder r summary fuse_up = placeholder_header r @ t \<and> 91 \<notin> set t"
  using ref_shape_chars[OF assms(1)] assms(2)
  by (auto simp: render_placeholder_def fuse_line_def fuse_filename_def bullet_def lit_def)

section \<open>Properties\<close>

text \<open>C29: markers round trip.  A rendered back reference, and a rendered placeholder whose summary
  holds no opening bracket, is found again by the egress scan exactly once, between the refs of the
  text before it and those of the text behind it; and the scan finds nothing else: every ref it
  reports stands in the text as a complete marker of one of the two shapes.\<close>

theorem markers_round_trip:
  assumes "is_ref_shape (ref_str i)" "is_ref_shape (ref_str (rec_ref_id r))"
  shows "extract_refs (a @ render_backref i @ b) = extract_refs a @ i # extract_refs b \<and>
    (91 \<notin> set summary \<longrightarrow>
       extract_refs (a @ render_placeholder r summary fuse_up @ b) = extract_refs a @ rec_ref_id r # extract_refs b) \<and>
    (\<forall>j \<in> set (extract_refs s). \<exists>x m y. s = x @ m @ y \<and> is_marker m (ref_str j))"
proof (intro conjI impI ballI)
  show "extract_refs (a @ render_backref i @ b) = extract_refs a @ i # extract_refs b"
    using extract_refs_around[OF backref_is_marker[OF assms(1)]] by simp
  assume "91 \<notin> set summary"
  then obtain t where t: "render_placeholder r summary fuse_up = placeholder_header r @ t" "91 \<notin> set t"
    using placeholder_tail_plain[OF assms(2)] by blast
  then show "extract_refs (a @ render_placeholder r summary fuse_up @ b) = extract_refs a @ rec_ref_id r # extract_refs b"
    using extract_refs_around[OF placeholder_is_marker[OF assms(2)], of a "t @ b"] by (simp add: extract_refs_plain)
qed (rule extract_refs_sound)

definition demo_ref :: RefId where
  "demo_ref = RefId (REF_PREFIX @ replicate 64 97)"

definition demo_record :: RefRecord where
  "demo_record = \<lparr>rec_ref_id = demo_ref, rec_byte_len = 8210, rec_token_estimate = 2050, rec_source_uuid = MessageId [],
     rec_session_id = SessionId [], rec_kind = ToolPair, rec_created_at = fl 0\<rparr>"

lemma demo_ref_shape: "is_ref_shape (ref_str demo_ref)"
  by (simp add: demo_ref_def is_ref_shape_iff list_all_iff is_lower_hex_def)

theorem markers_round_trip_witness:
  "extract_refs (lit ''noise '' @ render_backref demo_ref @ lit '' more'') = [demo_ref] \<and>
   extract_refs (lit ''ref=sha256:'' @ render_placeholder demo_record (lit ''a summary'') True @ []) = [demo_ref]"
proof -
  have "is_ref_shape (ref_str (rec_ref_id demo_record))" by (simp add: demo_record_def demo_ref_shape)
  note trip = markers_round_trip[OF demo_ref_shape this]
  have plain: "extract_refs t = []" if "91 \<notin> set t" for t using extract_refs_plain[OF that, of "[]"] by simp
  have "extract_refs (lit ''noise '') = []" "extract_refs (lit '' more'') = []" "extract_refs (lit ''ref=sha256:'') = []"
    "91 \<notin> set (lit ''a summary'')"
    by (rule plain, simp add: lit_def)+ (simp add: lit_def)
  then show ?thesis
    using trip[of "lit ''noise ''" "lit '' more''" "lit ''a summary''" True "[]"]
      trip[of "lit ''ref=sha256:''" "[]" "lit ''a summary''" True "[]"] by (simp add: demo_record_def)
qed

end
