(* ===== verification/Store.thy ===== *)
theory Store
  imports Refs "HOL-Library.List_Lexorder"
begin

text \<open>
  The store of \<^verbatim>\<open>ccs-refs\<close>: the search within an original (\<^verbatim>\<open>bm25.rs\<close>) and the
  content-addressed table with its garbage collection (\<^verbatim>\<open>store.rs\<close>).

  The database is the record \<open>Db\<close>: what its schema check reads and the rows of the table
  \<^verbatim>\<open>refs\<close>.  Each SQL statement is the function on the rows it stands for; SQLite stores a NaN
  as NULL, which a \<^verbatim>\<open>REAL NOT NULL\<close> column refuses.  Every operation runs on one
  connection, so a history of the store is a sequence of operations.
\<close>

section \<open>Search within\<close>

text \<open>The library's character tables and its logarithm.\<close>

record text_env =
  is_alphanumeric :: "nat \<Rightarrow> bool"
  to_lowercase :: "str \<Rightarrow> str"
  f64_ln :: "f64 \<Rightarrow> f64"

definition K1 :: f64 where "K1 = fl (12 / 10)"

definition B :: f64 where "B = fl (75 / 100)"

definition DEFAULT_TOP_N :: nat where "DEFAULT_TOP_N = 5"

definition WINDOW_WORDS :: nat where "WINDOW_WORDS = 40"

fun split_on :: "(nat \<Rightarrow> bool) \<Rightarrow> str \<Rightarrow> str list" where
  "split_on P [] = [[]]"
| "split_on P (c # s) = (if P c then [] # split_on P s
     else case split_on P s of [] \<Rightarrow> [[c]] | w # ws \<Rightarrow> (c # w) # ws)"

definition tokenize :: "text_env \<Rightarrow> str \<Rightarrow> str list" where
  "tokenize E text = map (to_lowercase E) (filter (\<lambda>t. t \<noteq> []) (split_on (\<lambda>c. \<not> is_alphanumeric E c) text))"

definition split_whitespace :: "str \<Rightarrow> str list" where
  "split_whitespace s = filter (\<lambda>w. w \<noteq> []) (split_on is_whitespace s)"

fun chunks :: "nat \<Rightarrow> 'a list \<Rightarrow> 'a list list" where
  "chunks n xs = (if xs = [] \<or> n = 0 then [] else take n xs # chunks n (drop n xs))"

declare chunks.simps [simp del]

definition join_with :: "str \<Rightarrow> str list \<Rightarrow> str" where
  "join_with sep ws = (case ws of [] \<Rightarrow> [] | w # rest \<Rightarrow> w @ concat (map (\<lambda>x. sep @ x) rest))"

definition window_words :: "str \<Rightarrow> str list" where
  "window_words doc = (let words = split_whitespace doc in
     if WINDOW_WORDS < length words then map (join_with [32]) (chunks WINDOW_WORDS words) else [doc])"

definition passages :: "str \<Rightarrow> str list" where
  "passages doc = (let ls = filter (\<lambda>l. trim l \<noteq> []) (lines doc) in
     if 1 < length ls then ls else window_words doc)"

definition bm25_term :: "text_env \<Rightarrow> str list \<Rightarrow> str list list \<Rightarrow> f64 \<Rightarrow> f64 \<Rightarrow> str \<Rightarrow> f64" where
  "bm25_term E terms corpus avg_len n q =
     (let len = f64_of_nat (length terms);
          tf = f64_of_nat (length (filter (\<lambda>t. t = q) terms)) in
      if feq tf (fl 0) then fl 0
      else let df = f64_of_nat (length (filter (\<lambda>p. q \<in> set p) corpus));
               idf = f64_ln E (fadd (fdiv (fadd (fsub n df) (fl (1 / 2))) (fadd df (fl (1 / 2)))) (fl 1))
           in fdiv (fmul idf (fmul tf (fadd K1 (fl 1))))
                   (fadd tf (fmul K1 (fadd (fsub (fl 1) B) (fdiv (fmul B len) avg_len)))))"

definition bm25_score :: "text_env \<Rightarrow> str list \<Rightarrow> str list \<Rightarrow> str list list \<Rightarrow> f64 \<Rightarrow> f64 \<Rightarrow> f64" where
  "bm25_score E terms query_terms corpus avg_len n =
     foldl (\<lambda>acc q. fadd acc (bm25_term E terms corpus avg_len n q)) (fl 0) query_terms"

definition hit_le :: "nat \<times> f64 \<Rightarrow> nat \<times> f64 \<Rightarrow> bool" where
  "hit_le a b = (total_le (snd b) (snd a) \<and> (total_le (snd a) (snd b) \<longrightarrow> fst a \<le> fst b))"

definition take_default :: "str list \<Rightarrow> nat \<Rightarrow> str" where
  "take_default ps n = join_with [10] (take n ps)"

definition scored :: "text_env \<Rightarrow> str list list \<Rightarrow> str list \<Rightarrow> (nat \<times> f64) list" where
  "scored E tokenized query_terms =
     (let count = sum_list (map length tokenized);
          avg_len = fdiv (f64_of_nat count) (f64_of_nat (length tokenized));
          n = f64_of_nat (length tokenized) in
      filter (\<lambda>(i, score). flt (fl 0) score)
        (map (\<lambda>(i, terms). (i, bm25_score E terms query_terms tokenized avg_len n)) (enumerate 0 tokenized)))"

definition search_within :: "text_env \<Rightarrow> str \<Rightarrow> str \<Rightarrow> str" where
  "search_within E doc query =
     (let ps = passages doc; query_terms = tokenize E query in
      if query_terms = [] then take_default ps DEFAULT_TOP_N
      else let tokenized = map (tokenize E) ps in
        if sum_list (map length tokenized) = 0 then take_default ps DEFAULT_TOP_N
        else let hits = scored E tokenized query_terms in
          if hits = [] then take_default ps DEFAULT_TOP_N
          else join_with [10] (map (\<lambda>i. ps ! i)
                 (sort (remdups (map fst (take DEFAULT_TOP_N (sort_by hit_le hits)))))))"

section \<open>The table\<close>

datatype RefError = Io | DbError | Schema str

record Row =
  row_ref_id :: RefId
  row_original :: "nat list"
  row_byte_len :: nat
  row_token_estimate :: TokenCount
  row_source_uuid :: str
  row_session_id :: str
  row_kind :: str
  row_created_at :: f64
  row_last_access_at :: f64
  row_access_count :: nat
  row_pinned :: bool

definition SCHEMA_VERSION :: int where "SCHEMA_VERSION = 1"

definition SCHEMA :: str where
  "SCHEMA = lit ''CREATE TABLE refs ('' @ [10] @
     lit ''  ref_id TEXT PRIMARY KEY, original BLOB NOT NULL, byte_len INTEGER NOT NULL,'' @ [10] @
     lit ''  token_estimate INTEGER NOT NULL, source_uuid TEXT NOT NULL, session_id TEXT NOT NULL,'' @ [10] @
     lit ''  kind TEXT NOT NULL, created_at REAL NOT NULL, last_access_at REAL NOT NULL,'' @ [10] @
     lit ''  access_count INTEGER NOT NULL DEFAULT 0, pinned INTEGER NOT NULL DEFAULT 0)''"

record Db =
  db_object_count :: nat
  db_user_version :: int
  db_refs_schema :: "str option"
  db_rows :: "Row list"

definition int_dec :: "int \<Rightarrow> str" where
  "int_dec v = (if v < 0 then 45 # dec (nat (- v)) else dec (nat v))"

definition open_db :: "Db \<Rightarrow> RefError + Db" where
  "open_db db =
     (if db_object_count db = 0 \<and> db_user_version db = 0
      then Inr (db\<lparr>db_object_count := 1, db_user_version := SCHEMA_VERSION, db_refs_schema := Some SCHEMA, db_rows := []\<rparr>)
      else if db_user_version db \<noteq> SCHEMA_VERSION
      then Inl (Schema (lit ''user_version='' @ int_dec (db_user_version db) @ lit '', want '' @ int_dec SCHEMA_VERSION))
      else if db_object_count db \<noteq> 1 \<or> db_refs_schema db \<noteq> Some SCHEMA
      then Inl (Schema (lit ''objects differ from the exact epoch-1 schema''))
      else Inr db)"

definition not_null :: "f64 \<Rightarrow> bool" where
  "not_null x = (x \<noteq> NaN)"

text \<open>\<open>put\<close> gives the record and the rows; the outer \<open>None\<close> is the panic of the content address.\<close>

definition put_record :: "RefId \<Rightarrow> nat list \<Rightarrow> MessageId \<Rightarrow> SessionId \<Rightarrow> SegmentKind \<Rightarrow> f64 \<Rightarrow> RefRecord" where
  "put_record i original src sess kind now =
     \<lparr>rec_ref_id = i, rec_byte_len = length original,
      rec_token_estimate = estimate_chars_proxy (from_utf8_lossy original), rec_source_uuid = src,
      rec_session_id = sess, rec_kind = kind, rec_created_at = now\<rparr>"

definition row_of :: "RefRecord \<Rightarrow> nat list \<Rightarrow> Row" where
  "row_of r original = \<lparr>row_ref_id = rec_ref_id r, row_original = original, row_byte_len = rec_byte_len r,
     row_token_estimate = rec_token_estimate r, row_source_uuid = message_str (rec_source_uuid r),
     row_session_id = session_str (rec_session_id r), row_kind = SegmentKind_wire (rec_kind r),
     row_created_at = rec_created_at r, row_last_access_at = rec_created_at r, row_access_count = 0, row_pinned = False\<rparr>"

definition insert_or_ignore :: "Row \<Rightarrow> Row list \<Rightarrow> RefError + Row list" where
  "insert_or_ignore row rows =
     (if \<not> not_null (row_created_at row) then Inl DbError
      else if row_ref_id row \<in> row_ref_id ` set rows then Inr rows else Inr (rows @ [row]))"

definition put ::
  "(nat list \<Rightarrow> str) \<Rightarrow> nat list \<Rightarrow> MessageId \<Rightarrow> SessionId \<Rightarrow> SegmentKind \<Rightarrow> f64 \<Rightarrow> Row list \<Rightarrow>
   (RefError + RefRecord \<times> Row list) option" where
  "put sha_hex original src sess kind now rows = (case content_address sha_hex original of
      None \<Rightarrow> None
    | Some i \<Rightarrow>
        let r = put_record i original src sess kind now in
        Some (case insert_or_ignore (row_of r original) rows of
                Inl e \<Rightarrow> Inl e | Inr rows' \<Rightarrow> Inr (r, rows')))"

text \<open>\<^verbatim>\<open>UPDATE refs SET access_count = access_count + 1, last_access_at = now WHERE ... RETURNING ...\<close>:
  the rows and the first updated row.\<close>

definition bump :: "f64 \<Rightarrow> Row \<Rightarrow> Row" where
  "bump now row = row\<lparr>row_access_count := row_access_count row + 1, row_last_access_at := now\<rparr>"

definition update_returning :: "(Row \<Rightarrow> bool) \<Rightarrow> f64 \<Rightarrow> Row list \<Rightarrow> RefError + Row option \<times> Row list" where
  "update_returning P now rows =
     (if \<not> not_null now \<and> (\<exists>row \<in> set rows. P row) then Inl DbError
      else Inr (map_option (bump now) (find P rows), map (\<lambda>row. if P row then bump now row else row) rows))"

definition materialize :: "RefId \<Rightarrow> f64 \<Rightarrow> Row list \<Rightarrow> RefError + Materialized option \<times> Row list" where
  "materialize i now rows = (case update_returning (\<lambda>row. row_ref_id row = i) now rows of
      Inl e \<Rightarrow> Inl e
    | Inr (hit, rows') \<Rightarrow>
        Inr (map_option (\<lambda>row. \<lparr>mat_ref_id = i, mat_text = from_utf8_lossy (row_original row),
               mat_token_estimate = row_token_estimate row, mat_access_count = row_access_count row\<rparr>) hit, rows'))"

definition retrieve ::
  "text_env \<Rightarrow> RefId \<Rightarrow> SessionId \<Rightarrow> str option \<Rightarrow> f64 \<Rightarrow> Row list \<Rightarrow> RefError + RetrieveResult \<times> Row list" where
  "retrieve E i sess query now rows =
     (case update_returning (\<lambda>row. row_ref_id row = i \<and> row_session_id row = session_str sess) now rows of
        Inl e \<Rightarrow> Inl e
      | Inr (None, rows') \<Rightarrow> Inr (Miss, rows')
      | Inr (Some row, rows') \<Rightarrow>
          let t = from_utf8_lossy (row_original row) in
          Inr (Hit (case query of Some q \<Rightarrow> search_within E t q | None \<Rightarrow> t) (row_access_count row), rows'))"

section \<open>Garbage collection\<close>

definition gc_candidates :: "Row list \<Rightarrow> Row list" where
  "gc_candidates rows = filter (\<lambda>row. \<not> row_pinned row) rows"

definition live_bytes :: "RefId set \<Rightarrow> Row list \<Rightarrow> nat" where
  "live_bytes reachable rows = sum_list (map row_byte_len (filter (\<lambda>row. row_ref_id row \<notin> reachable) (gc_candidates rows)))"

definition past_grace :: "f64 \<Rightarrow> f64 \<Rightarrow> Row \<Rightarrow> bool" where
  "past_grace grace now row = flt grace (fsub now (row_created_at row))"

definition gc_eligible :: "RefId set \<Rightarrow> f64 \<Rightarrow> f64 \<Rightarrow> Row list \<Rightarrow> Row list" where
  "gc_eligible reachable grace now rows =
     filter (\<lambda>row. row_ref_id row \<notin> reachable \<and> past_grace grace now row) (gc_candidates rows)"

definition lru_le :: "Row \<Rightarrow> Row \<Rightarrow> bool" where
  "lru_le a b = (total_le (row_last_access_at a) (row_last_access_at b) \<and>
     (total_le (row_last_access_at b) (row_last_access_at a) \<longrightarrow> ref_str (row_ref_id a) \<le> ref_str (row_ref_id b)))"

text \<open>The scan over the sorted rows; \<open>None\<close> is the underflow of \<^verbatim>\<open>*remaining -= byte_len\<close>.\<close>

fun gc_scan :: "nat \<Rightarrow> nat \<Rightarrow> Row list \<Rightarrow> RefId list option" where
  "gc_scan max_bytes remaining [] = Some []"
| "gc_scan max_bytes remaining (row # rows) =
     (if max_bytes < remaining
      then if row_byte_len row \<le> remaining
           then map_option ((#) (row_ref_id row)) (gc_scan max_bytes (remaining - row_byte_len row) rows)
           else None
      else Some [])"

definition gc :: "RefId set \<Rightarrow> f64 \<Rightarrow> nat \<Rightarrow> f64 \<Rightarrow> Row list \<Rightarrow> (nat \<times> Row list) option" where
  "gc reachable grace max_bytes now rows =
     map_option (\<lambda>victims. (length victims, filter (\<lambda>row. row_ref_id row \<notin> set victims) rows))
       (gc_scan max_bytes (live_bytes reachable rows) (sort_by lru_le (gc_eligible reachable grace now rows)))"

section \<open>Histories\<close>

datatype StoreOp =
    OpPut "nat list" MessageId SessionId SegmentKind f64
  | OpMaterialize RefId f64
  | OpRetrieve RefId SessionId "str option" f64
  | OpGc "RefId set" f64 nat f64

text \<open>The rows after an operation; one that fails leaves them, and \<open>None\<close> is a panic.\<close>

definition rows_after :: "Row list \<Rightarrow> RefError + 'a \<times> Row list \<Rightarrow> Row list" where
  "rows_after rows res = (case res of Inl _ \<Rightarrow> rows | Inr (_, rows') \<Rightarrow> rows')"

fun store_step :: "text_env \<Rightarrow> (nat list \<Rightarrow> str) \<Rightarrow> StoreOp \<Rightarrow> Row list \<Rightarrow> Row list option" where
  "store_step E sha (OpPut original src sess kind now) rows = map_option (rows_after rows) (put sha original src sess kind now rows)"
| "store_step E sha (OpMaterialize i now) rows = Some (rows_after rows (materialize i now rows))"
| "store_step E sha (OpRetrieve i sess query now) rows = Some (rows_after rows (retrieve E i sess query now rows))"
| "store_step E sha (OpGc reachable grace max_bytes now) rows = map_option snd (gc reachable grace max_bytes now rows)"

fun run_ops :: "('op \<Rightarrow> 's \<Rightarrow> 's option) \<Rightarrow> 'op list \<Rightarrow> 's \<Rightarrow> 's option" where
  "run_ops step [] s = Some s"
| "run_ops step (op # ops) s = Option.bind (step op s) (run_ops step ops)"

text \<open>The interface the recovery path relies on: an entry survives every operation that protects it.\<close>

locale durable_store =
  fixes step :: "'op \<Rightarrow> 's \<Rightarrow> 's option"
    and entry :: "'s \<Rightarrow> 'k \<Rightarrow> 'v option"
    and ok :: "'s \<Rightarrow> bool"
    and protects :: "'op \<Rightarrow> 'k \<Rightarrow> bool"
  assumes step_total: "ok s \<Longrightarrow> \<exists>s'. step op s = Some s' \<and> ok s'"
    and step_keeps: "ok s \<Longrightarrow> step op s = Some s' \<Longrightarrow> protects op k \<Longrightarrow> entry s k = Some v \<Longrightarrow> entry s' k = Some v"
begin

lemma run_total: "ok s \<Longrightarrow> \<exists>s'. run_ops step ops s = Some s' \<and> ok s'"
proof (induction ops arbitrary: s)
  case (Cons op ops)
  then show ?case using step_total[of s op] by fastforce
qed simp

lemma run_keeps:
  "ok s \<Longrightarrow> run_ops step ops s = Some s' \<Longrightarrow> list_all (\<lambda>op. protects op k) ops \<Longrightarrow> entry s k = Some v \<Longrightarrow>
   entry s' k = Some v"
proof (induction ops arbitrary: s)
  case (Cons op ops)
  then obtain s1 where s1: "step op s = Some s1" "run_ops step ops s1 = Some s'" by (auto simp: bind_eq_Some_conv)
  then have "ok s1" using step_total[OF Cons.prems(1), of op] by simp
  then show ?case using Cons s1 step_keeps[OF Cons.prems(1) s1(1)] by simp
qed simp

end

section \<open>The store's invariant\<close>

text \<open>Every row is what its original says, and no two rows share a ref.\<close>

definition row_ok :: "(nat list \<Rightarrow> str) \<Rightarrow> Row \<Rightarrow> bool" where
  "row_ok sha row = (content_address sha (row_original row) = Some (row_ref_id row) \<and>
     row_byte_len row = length (row_original row) \<and>
     row_token_estimate row = estimate_chars_proxy (from_utf8_lossy (row_original row)) \<and>
     not_null (row_created_at row) \<and> not_null (row_last_access_at row))"

definition store_ok :: "(nat list \<Rightarrow> str) \<Rightarrow> Row list \<Rightarrow> bool" where
  "store_ok sha rows = (distinct (map row_ref_id rows) \<and> list_all (row_ok sha) rows)"

definition entry_of :: "Row list \<Rightarrow> RefId \<Rightarrow> nat list option" where
  "entry_of rows i = map_option row_original (find (\<lambda>row. row_ref_id row = i) rows)"

lemma content_address_hex: "hex_digest sha \<Longrightarrow> content_address sha original = Some (RefId (REF_PREFIX @ sha original))"
proof -
  assume "hex_digest sha"
  then have "is_ref_shape (REF_PREFIX @ sha original)" by (auto simp: hex_digest_def is_ref_shape_iff)
  then have "RefId_parse (REF_PREFIX @ sha original) = Inr (RefId (REF_PREFIX @ sha original))"
    by (simp add: RefId_parse_Inr_iff)
  then show ?thesis by (simp add: content_address_def REF_PREFIX_def)
qed

lemma content_address_shape: "content_address sha original = Some i \<Longrightarrow> is_ref_shape (ref_str i)"
  by (auto simp: content_address_def RefId_parse_Inr_iff split: sum.splits)

lemma bump_simps [simp]:
  "row_ref_id (bump now row) = row_ref_id row" "row_original (bump now row) = row_original row"
  "row_byte_len (bump now row) = row_byte_len row" "row_token_estimate (bump now row) = row_token_estimate row"
  "row_created_at (bump now row) = row_created_at row" "row_last_access_at (bump now row) = now"
  "row_session_id (bump now row) = row_session_id row" "row_pinned (bump now row) = row_pinned row"
  "row_access_count (bump now row) = row_access_count row + 1"
  by (simp_all add: bump_def)

lemma update_returning_rows:
  assumes "update_returning P now rows = Inr (hit, rows')"
  shows "map row_ref_id rows' = map row_ref_id rows" "entry_of rows' = entry_of rows" "store_ok sha rows \<Longrightarrow> store_ok sha rows'"
proof -
  define f where "f row = (if P row then bump now row else row)" for row
  have rows': "rows' = map f rows" "(\<forall>row \<in> set rows. \<not> P row) \<or> not_null now"
    using assms by (auto simp: update_returning_def f_def split: if_splits)
  have f: "row_ref_id (f row) = row_ref_id row" "row_original (f row) = row_original row" for row
    by (simp_all add: f_def)
  show ids: "map row_ref_id rows' = map row_ref_id rows" by (simp add: rows' f)
  have "map_option row_original (find (\<lambda>row. row_ref_id row = i) (map f rows)) =
      map_option row_original (find (\<lambda>row. row_ref_id row = i) rows)" for i
    by (induction rows) (auto simp: f)
  then show "entry_of rows' = entry_of rows" by (simp add: entry_of_def rows' fun_eq_iff)
  assume "store_ok sha rows"
  moreover have "row_ok sha (f row)" if "row_ok sha row" "row \<in> set rows" for row
    using that rows'(2) by (auto simp: row_ok_def f_def)
  ultimately show "store_ok sha rows'" unfolding store_ok_def ids by (auto simp: rows' list_all_iff)
qed

lemma materialize_rows:
  "store_ok sha rows \<Longrightarrow> store_ok sha (rows_after rows (materialize i now rows)) \<and>
   entry_of (rows_after rows (materialize i now rows)) = entry_of rows"
  using update_returning_rows by (auto simp: materialize_def rows_after_def split: sum.splits)

lemma retrieve_rows:
  "store_ok sha rows \<Longrightarrow> store_ok sha (rows_after rows (retrieve E i sess query now rows)) \<and>
   entry_of (rows_after rows (retrieve E i sess query now rows)) = entry_of rows"
  using update_returning_rows by (auto simp: retrieve_def rows_after_def Let_def split: sum.splits option.splits)

lemma entry_of_append: "entry_of (rows @ [row]) i =
    (case entry_of rows i of Some x \<Rightarrow> Some x | None \<Rightarrow> if row_ref_id row = i then Some (row_original row) else None)"
  by (auto simp: entry_of_def find_append split: option.splits)

lemma entry_of_None: "entry_of rows i = None \<longleftrightarrow> i \<notin> row_ref_id ` set rows"
  by (auto simp: entry_of_def find_None_iff)

text \<open>A put adds its original under its address unless the address is taken.\<close>

lemma put_rows:
  assumes "store_ok sha rows" "put sha original src sess kind now rows = Some (Inr (r, rows'))"
  shows "store_ok sha rows'" "content_address sha original = Some (rec_ref_id r)"
    "entry_of rows' = (entry_of rows)(rec_ref_id r \<mapsto> (case entry_of rows (rec_ref_id r) of Some x \<Rightarrow> x | None \<Rightarrow> original))"
    "r = put_record (rec_ref_id r) original src sess kind now"
proof -
  obtain i where i: "content_address sha original = Some i" "r = put_record i original src sess kind now"
    "insert_or_ignore (row_of r original) rows = Inr rows'"
    using assms(2) by (auto simp: put_def Let_def split: option.splits sum.splits)
  then show "content_address sha original = Some (rec_ref_id r)" "r = put_record (rec_ref_id r) original src sess kind now"
    by (simp_all add: put_record_def)
  have r: "rec_ref_id r = i" "row_ref_id (row_of r original) = i" "row_original (row_of r original) = original"
    by (simp_all add: i(2) put_record_def row_of_def)
  have new: "rows' = (if i \<in> row_ref_id ` set rows then rows else rows @ [row_of r original])" "not_null now"
    using i(2,3) by (auto simp: insert_or_ignore_def r put_record_def row_of_def split: if_splits)
  have "row_ok sha (row_of r original)" using i(1,2) new(2) by (simp add: row_ok_def row_of_def put_record_def)
  then show "store_ok sha rows'" using assms(1) by (auto simp: new store_ok_def r)
  show "entry_of rows' = (entry_of rows)(rec_ref_id r \<mapsto> (case entry_of rows (rec_ref_id r) of Some x \<Rightarrow> x | None \<Rightarrow> original))"
    using entry_of_None[of rows i]
    by (auto simp: new fun_eq_iff entry_of_append r split: option.splits)
qed

section \<open>Garbage collection, proofs\<close>

lemma total_le_linear: "total_le x y \<or> total_le y x" "total_le x y \<Longrightarrow> total_le y z \<Longrightarrow> total_le x z"
  by (auto simp: total_le_def)

lemma lru_le_total: "lru_le a b \<or> lru_le b a"
  using total_le_linear(1) by (auto simp: lru_le_def)

lemma lru_le_trans: "lru_le a b \<Longrightarrow> lru_le b c \<Longrightarrow> lru_le a c"
  unfolding lru_le_def using total_le_linear(2) by (metis order_trans)

text \<open>The scan evicts a prefix of the sorted rows: the shortest that brings the total under the cap.\<close>

lemma gc_scan_prefix:
  assumes "sum_list (map row_byte_len rows) \<le> remaining"
  shows "\<exists>k \<le> length rows. gc_scan cap remaining rows = Some (map row_ref_id (take k rows)) \<and>
     (k < length rows \<longrightarrow> remaining \<le> cap + sum_list (map row_byte_len (take k rows))) \<and>
     (\<forall>j < k. cap + sum_list (map row_byte_len (take j rows)) < remaining)"
  using assms
proof (induction rows arbitrary: remaining)
  case (Cons row rows)
  show ?case
  proof (cases "cap < remaining")
    case True
    have "sum_list (map row_byte_len rows) \<le> remaining - row_byte_len row" using Cons.prems by simp
    from Cons.IH[OF this] obtain k where k: "k \<le> length rows"
      "gc_scan cap (remaining - row_byte_len row) rows = Some (map row_ref_id (take k rows))"
      "k < length rows \<longrightarrow> remaining - row_byte_len row \<le> cap + sum_list (map row_byte_len (take k rows))"
      "\<forall>j < k. cap + sum_list (map row_byte_len (take j rows)) < remaining - row_byte_len row" by blast
    have "cap + sum_list (map row_byte_len (take j (row # rows))) < remaining" if "j < Suc k" for j
      using that True k(4) by (cases j) auto
    then show ?thesis using True k Cons.prems by (intro exI[of _ "Suc k"]) auto
  next
    case False
    then show ?thesis by (intro exI[of _ 0]) simp
  qed
qed simp

lemma sum_list_filter_le: "sum_list (map f (filter P xs)) \<le> sum_list (map f xs)" for f :: "'a \<Rightarrow> nat"
  by (induction xs) auto

lemma eligible_within_live: "sum_list (map row_byte_len (gc_eligible reach grace now rows)) \<le> live_bytes reach rows"
proof -
  have "gc_eligible reach grace now rows = filter (past_grace grace now) (filter (\<lambda>row. row_ref_id row \<notin> reach) (gc_candidates rows))"
    by (simp add: gc_eligible_def conj_commute)
  then show ?thesis unfolding live_bytes_def by (simp only: sum_list_filter_le)
qed

lemma set_gc_eligible: "set (gc_eligible reach grace now rows) =
    {row \<in> set rows. \<not> row_pinned row \<and> row_ref_id row \<notin> reach \<and> past_grace grace now row}"
  by (auto simp: gc_eligible_def gc_candidates_def)

text \<open>What a collection leaves: the rows that are not among the first \<open>k\<close> eligible ones.\<close>

lemma gc_result:
  fixes reach grace now cap
  assumes ids: "distinct (map row_ref_id rows)"
  defines "vs \<equiv> sort_by lru_le (gc_eligible reach grace now rows)"
  shows "\<exists>k \<le> length vs. gc reach grace cap now rows = Some (k, filter (\<lambda>row. row \<notin> set (take k vs)) rows) \<and>
    (k < length vs \<longrightarrow> live_bytes reach rows \<le> cap + sum_list (map row_byte_len (take k vs))) \<and>
    (\<forall>j < k. cap + sum_list (map row_byte_len (take j vs)) < live_bytes reach rows)"
proof -
  have "sum_list (map row_byte_len vs) \<le> live_bytes reach rows" unfolding vs_def by (simp add: eligible_within_live)
  from gc_scan_prefix[OF this, of cap] obtain k where k: "k \<le> length vs"
    "gc_scan cap (live_bytes reach rows) vs = Some (map row_ref_id (take k vs))"
    "k < length vs \<longrightarrow> live_bytes reach rows \<le> cap + sum_list (map row_byte_len (take k vs))"
    "\<forall>j < k. cap + sum_list (map row_byte_len (take j vs)) < live_bytes reach rows" by blast
  have sub: "set (take k vs) \<subseteq> set rows"
    using set_take_subset[of k vs] by (auto simp: vs_def set_gc_eligible)
  have "row_ref_id row \<notin> row_ref_id ` set (take k vs) \<longleftrightarrow> row \<notin> set (take k vs)" if "row \<in> set rows" for row
    using sub ids that by (auto simp: distinct_map dest: inj_onD)
  then have "filter (\<lambda>row. row_ref_id row \<notin> set (map row_ref_id (take k vs))) rows = filter (\<lambda>row. row \<notin> set (take k vs)) rows"
    by (intro filter_cong) auto
  then have "gc reach grace cap now rows = Some (k, filter (\<lambda>row. row \<notin> set (take k vs)) rows)"
    using k(1,2) by (simp add: gc_def vs_def)
  then show ?thesis using k by blast
qed

lemma distinct_rows: "distinct (map row_ref_id rows) \<Longrightarrow> distinct rows"
  by (simp add: distinct_map)

lemma live_bytes_sum: "distinct rows \<Longrightarrow>
    live_bytes reach rows = sum row_byte_len {row \<in> set rows. \<not> row_pinned row \<and> row_ref_id row \<notin> reach}"
  unfolding live_bytes_def gc_candidates_def
  by (subst sum_list_distinct_conv_sum_set) (auto intro: arg_cong[of _ _ "sum row_byte_len"])

lemma live_bytes_filter:
  assumes "distinct rows" "distinct vs" "set vs \<subseteq> set (gc_eligible reach grace now rows)"
  shows "live_bytes reach (filter (\<lambda>row. row \<notin> set vs) rows) + sum_list (map row_byte_len vs) = live_bytes reach rows"
proof -
  let ?L = "{row \<in> set rows. \<not> row_pinned row \<and> row_ref_id row \<notin> reach}"
  have "set vs \<subseteq> ?L" using assms(3) by (auto simp: set_gc_eligible)
  then have "sum row_byte_len ?L = sum row_byte_len (set vs) + sum row_byte_len (?L - set vs)"
    by (subst sum.subset_diff[of "set vs"]) (simp_all add: add.commute)
  moreover have "live_bytes reach (filter (\<lambda>row. row \<notin> set vs) rows) = sum row_byte_len (?L - set vs)"
    using assms(1) by (subst live_bytes_sum) (auto intro: arg_cong[of _ _ "sum row_byte_len"])
  ultimately show ?thesis using assms(1,2) by (simp add: live_bytes_sum sum_list_distinct_conv_sum_set)
qed

lemma gc_rows:
  assumes "store_ok sha rows" "gc reach grace cap now rows = Some (n, rows')"
  shows "store_ok sha rows'" "i \<in> reach \<Longrightarrow> entry_of rows' i = entry_of rows i"
proof -
  obtain V where V: "rows' = filter (\<lambda>row. row \<notin> V) rows" "V \<subseteq> {row. row_ref_id row \<notin> reach}"
  proof -
    obtain k where "gc reach grace cap now rows =
        Some (k, filter (\<lambda>row. row \<notin> set (take k (sort_by lru_le (gc_eligible reach grace now rows)))) rows)"
      using gc_result[of rows reach grace now cap] assms(1) by (auto simp: store_ok_def)
    then show ?thesis using that assms(2) set_take_subset[of k "sort_by lru_le (gc_eligible reach grace now rows)"]
      by (force simp: set_gc_eligible)
  qed
  show "store_ok sha rows'" using assms(1) by (auto simp: store_ok_def V list_all_iff distinct_map_filter)
  assume "i \<in> reach"
  then have "find (\<lambda>row. row_ref_id row = i) (filter (\<lambda>row. row \<notin> V) rows) = find (\<lambda>row. row_ref_id row = i) rows"
    using V(2) by (induction rows) auto
  then show "entry_of rows' i = entry_of rows i" by (simp add: entry_of_def V)
qed

section \<open>The store is durable\<close>

definition protects :: "StoreOp \<Rightarrow> RefId \<Rightarrow> bool" where
  "protects op i = (case op of OpGc reachable _ _ _ \<Rightarrow> i \<in> reachable | _ \<Rightarrow> True)"

lemma store_step_total:
  assumes "hex_digest sha" "store_ok sha rows"
  shows "\<exists>rows'. store_step E sha op rows = Some rows' \<and> store_ok sha rows'"
proof (cases op)
  case (OpPut original src sess kind now)
  have "put sha original src sess kind now rows \<noteq> None"
    using content_address_hex[OF assms(1)] by (auto simp: put_def Let_def)
  then obtain res where res: "put sha original src sess kind now rows = Some res" by blast
  then have "store_ok sha (rows_after rows res)"
    using put_rows(1)[OF assms(2)] assms(2) by (cases res) (auto simp: rows_after_def)
  then show ?thesis by (simp add: OpPut res)
next
  case (OpGc reach grace cap now)
  then show ?thesis
    using gc_result[of rows reach grace now cap] gc_rows(1)[OF assms(2), of reach grace cap now] assms(2)
    by (fastforce simp: store_ok_def)
qed (use materialize_rows[OF assms(2)] retrieve_rows[OF assms(2)] in simp_all)

lemma store_step_keeps:
  assumes "store_ok sha rows" "store_step E sha op rows = Some rows'" "protects op i" "entry_of rows i = Some v"
  shows "entry_of rows' i = Some v"
proof (cases op)
  case (OpPut original src sess kind now)
  then obtain res where res: "put sha original src sess kind now rows = Some res" "rows' = rows_after rows res"
    using assms(2) by auto
  then show ?thesis
    using put_rows(3)[OF assms(1)] assms(4) by (cases res) (auto simp: rows_after_def)
next
  case (OpGc reach grace cap now)
  then show ?thesis using assms gc_rows(2)[OF assms(1)] by (auto simp: protects_def)
qed (use assms materialize_rows[OF assms(1)] retrieve_rows[OF assms(1)] in auto)

interpretation refs: durable_store "store_step E sha" entry_of "\<lambda>rows. hex_digest sha \<and> store_ok sha rows" protects
  for E sha
  by unfold_locales (use store_step_total store_step_keeps in blast)+

lemma materialize_entry:
  assumes "entry_of rows i = Some original" "not_null now"
  shows "\<exists>mat rows'. materialize i now rows = Inr (Some mat, rows') \<and> mat_text mat = from_utf8_lossy original \<and> mat_ref_id mat = i"
proof -
  obtain row where row: "find (\<lambda>row. row_ref_id row = i) rows = Some row" "row_original row = original"
    using assms(1) by (auto simp: entry_of_def)
  then show ?thesis using assms(2) by (simp add: materialize_def update_returning_def)
qed

text \<open>Removing a prefix of the victims.\<close>

lemma set_drop_distinct: "distinct xs \<Longrightarrow> set (drop k xs) = set xs - set (take k xs)"
  using append_take_drop_id[of k xs] by (metis Diff_cancel Un_Diff Un_empty_left Diff_triv distinct_append inf_commute set_append)

lemma length_without:
  assumes "distinct xs" "distinct ys" "set ys \<subseteq> set xs"
  shows "length (filter (\<lambda>x. x \<notin> set ys) xs) + length ys = length xs"
proof -
  have "set (filter (\<lambda>x. x \<notin> set ys) xs) = set xs - set ys" by auto
  then have "length (filter (\<lambda>x. x \<notin> set ys) xs) = length xs - length ys"
    using assms by (metis List.finite_set card_Diff_subset distinct_card distinct_filter)
  then show ?thesis using assms by (metis List.finite_set card_mono distinct_card le_add_diff_inverse2)
qed

section \<open>Properties\<close>

text \<open>C4: the store loses nothing that is reachable.  From a well-formed table, after an original has
  been put, every sequence of further puts, materializations, retrievals and collections runs
  through, keeps the table well formed, and, as long as each collection is told that the ref is
  reachable, materializing the ref gives the original back, to the character if it was text.
  Assumed is that the digest does not collide with that of this original.\<close>

theorem stored_originals_survive:
  assumes "hex_digest sha" "store_ok sha rows"
    and "put sha original src sess kind now rows = Some (Inr (r, rows1))"
    and "\<forall>other. sha other = sha original \<longrightarrow> other = original"
    and "list_all (\<lambda>op. protects op (rec_ref_id r)) ops" "not_null now'"
  shows "\<exists>rows2 mat rows3. run_ops (store_step E sha) ops rows1 = Some rows2 \<and> store_ok sha rows2 \<and>
     materialize (rec_ref_id r) now' rows2 = Inr (Some mat, rows3) \<and> mat_text mat = from_utf8_lossy original \<and>
     (\<forall>s. list_all scalar_value s \<and> utf8 s = original \<longrightarrow> mat_text mat = s)"
proof -
  note put = put_rows[OF assms(2,3)]
  have "entry_of rows1 (rec_ref_id r) = Some original"
  proof (cases "entry_of rows (rec_ref_id r)")
    case (Some x)
    then obtain row where "row \<in> set rows" "row_ref_id row = rec_ref_id r" "row_original row = x"
      by (auto simp: entry_of_def dest: find_SomeD)
    then have "content_address sha x = content_address sha original"
      using assms(2) put(2) by (auto simp: store_ok_def list_all_iff row_ok_def)
    then have "x = original" using assms(4) by (simp add: content_address_hex[OF assms(1)])
    then show ?thesis by (simp add: put(3) Some)
  qed (simp add: put(3))
  moreover obtain rows2 where rows2: "run_ops (store_step E sha) ops rows1 = Some rows2" "store_ok sha rows2"
    using refs.run_total[of sha rows1 E ops] assms(1) put(1) by blast
  ultimately have "entry_of rows2 (rec_ref_id r) = Some original"
    using refs.run_keeps[of sha rows1 E ops rows2] assms(1,5) put(1) by blast
  from materialize_entry[OF this assms(6)] show ?thesis
    using rows2 from_utf8_lossy_utf8 by (auto simp: list_all_iff)
qed

text \<open>A digest that keeps one text apart from all others, and the table after that text was put.\<close>

definition demo_sha :: "nat list \<Rightarrow> str" where
  "demo_sha bytes = (if bytes = utf8 (lit ''hi'') then replicate 64 97 else replicate 64 98)"

definition demo_env :: text_env where
  "demo_env = \<lparr>is_alphanumeric = (\<lambda>c. 97 \<le> c \<and> c \<le> 122), to_lowercase = (\<lambda>s. s), f64_ln = (\<lambda>x. x)\<rparr>"

definition put_hi :: "str \<Rightarrow> RefRecord" where
  "put_hi s = put_record demo_ref (utf8 (lit ''hi'')) (MessageId []) (SessionId s) ToolPair (fl 0)"

definition rows_hi :: "str \<Rightarrow> Row list" where
  "rows_hi s = [row_of (put_hi s) (utf8 (lit ''hi''))]"

lemma demo_sha_hex: "hex_digest demo_sha"
  by (simp add: hex_digest_def demo_sha_def list_all_iff is_lower_hex_def)

lemma demo_address: "content_address demo_sha (utf8 (lit ''hi'')) = Some demo_ref"
  by (simp add: content_address_hex[OF demo_sha_hex] demo_ref_def demo_sha_def)

lemma fl_0_not_null: "not_null (fl 0)"
  by (simp add: not_null_def fl_def)

lemma put_hi_once: "put demo_sha (utf8 (lit ''hi'')) (MessageId []) (SessionId s) ToolPair (fl 0) [] = Some (Inr (put_hi s, rows_hi s))"
  using fl_0_not_null
  by (simp add: put_def demo_address Let_def insert_or_ignore_def put_hi_def rows_hi_def row_of_def put_record_def)

lemma put_hi_again: "put demo_sha (utf8 (lit ''hi'')) (MessageId []) (SessionId s') ToolPair (fl 0) (rows_hi s) = Some (Inr (put_hi s', rows_hi s))"
  using fl_0_not_null
  by (simp add: put_def demo_address Let_def insert_or_ignore_def put_hi_def rows_hi_def row_of_def put_record_def)

lemma rows_hi_ok: "store_ok demo_sha (rows_hi s)"
  by (rule put_rows(1)[OF _ put_hi_once]) (simp add: store_ok_def)

theorem stored_originals_survive_witness:
  "\<exists>rows2 mat rows3. run_ops (store_step demo_env demo_sha) [OpMaterialize demo_ref (fl 0), OpGc {demo_ref} (fl 0) 0 (fl 9)] (rows_hi []) = Some rows2 \<and>
     materialize demo_ref (fl 0) rows2 = Inr (Some mat, rows3) \<and> mat_text mat = lit ''hi''"
proof -
  have id: "rec_ref_id (put_hi []) = demo_ref" by (simp add: put_hi_def put_record_def)
  have "\<forall>other. demo_sha other = demo_sha (utf8 (lit ''hi'')) \<longrightarrow> other = utf8 (lit ''hi'')"
    by (simp add: demo_sha_def replicate_eq_replicate)
  moreover have "store_ok demo_sha []" by (simp add: store_ok_def)
  moreover have "list_all (\<lambda>op. protects op (rec_ref_id (put_hi []))) [OpMaterialize demo_ref (fl 0), OpGc {demo_ref} (fl 0) 0 (fl 9)]"
    by (simp add: protects_def id)
  moreover have "list_all scalar_value (lit ''hi'')" by (simp add: lit_def scalar_value_def)
  ultimately show ?thesis
    using stored_originals_survive[OF demo_sha_hex _ put_hi_once _ _ fl_0_not_null, of "[]" "[OpMaterialize demo_ref (fl 0), OpGc {demo_ref} (fl 0) 0 (fl 9)]" demo_env]
    unfolding id by blast
qed

text \<open>C30: a collection never deletes a ref that is reachable, pinned or within its grace period, and its
  byte count never underflows.  It deletes least recently used rows first, stops as soon as the
  unpinned unreachable bytes fit the cap, and leaves them above the cap only when nothing eligible is left.\<close>

theorem gc_evicts_oldest_until_fit:
  assumes "store_ok sha rows"
  shows "\<exists>n rows' evicted. gc reach grace cap now rows = Some (n, rows') \<and> length evicted = n \<and>
    rows' = filter (\<lambda>row. row \<notin> set evicted) rows \<and> n + length rows' = length rows \<and>
    set evicted \<subseteq> {row \<in> set rows. \<not> row_pinned row \<and> row_ref_id row \<notin> reach \<and> past_grace grace now row} \<and>
    sorted_wrt lru_le evicted \<and>
    (\<forall>v \<in> set evicted. \<forall>row \<in> set (gc_eligible reach grace now rows'). lru_le v row) \<and>
    live_bytes reach rows' + sum_list (map row_byte_len evicted) = live_bytes reach rows \<and>
    (gc_eligible reach grace now rows' \<noteq> [] \<longrightarrow> live_bytes reach rows' \<le> cap) \<and>
    (evicted \<noteq> [] \<longrightarrow> cap < live_bytes reach rows' + row_byte_len (last evicted))"
proof -
  define vs where "vs = sort_by lru_le (gc_eligible reach grace now rows)"
  have ids: "distinct (map row_ref_id rows)" using assms by (simp add: store_ok_def)
  obtain k where k: "k \<le> length vs" "gc reach grace cap now rows = Some (k, filter (\<lambda>row. row \<notin> set (take k vs)) rows)"
    "k < length vs \<longrightarrow> live_bytes reach rows \<le> cap + sum_list (map row_byte_len (take k vs))"
    "\<forall>j < k. cap + sum_list (map row_byte_len (take j vs)) < live_bytes reach rows"
    using gc_result[OF ids, of reach grace now cap] unfolding vs_def by blast
  define rows' where "rows' = filter (\<lambda>row. row \<notin> set (take k vs)) rows"
  have sorted: "sorted_wrt lru_le vs" unfolding vs_def using lru_le_total lru_le_trans by (rule sorted_sort_by)
  have "distinct vs" using distinct_sort_by[of "\<lambda>x. x" lru_le] distinct_rows[OF ids]
    by (simp add: vs_def gc_eligible_def gc_candidates_def)
  then have d: "distinct (take k vs)" by simp
  have sub: "set (take k vs) \<subseteq> set (gc_eligible reach grace now rows)"
    using set_take_subset[of k vs] by (simp add: vs_def)
  have live: "live_bytes reach rows' + sum_list (map row_byte_len (take k vs)) = live_bytes reach rows"
    unfolding rows'_def using distinct_rows[OF ids] d sub by (rule live_bytes_filter)
  have rest: "set (gc_eligible reach grace now rows') = set (drop k vs)"
    unfolding set_drop_distinct[OF \<open>distinct vs\<close>] by (auto simp: vs_def set_gc_eligible rows'_def)
  have "length rows' + k = length rows"
    using length_without[OF distinct_rows[OF ids] d] sub k(1) by (auto simp: set_gc_eligible rows'_def)
  moreover have "lru_le v row" if "v \<in> set (take k vs)" "row \<in> set (drop k vs)" for v row
    using sorted that by (metis append_take_drop_id sorted_wrt_append)
  moreover have "live_bytes reach rows' \<le> cap" if "gc_eligible reach grace now rows' \<noteq> []"
  proof -
    have "k < length vs" using that rest k(1) by (metis List.set_empty drop_all le_neq_implies_less)
    then show ?thesis using k(3) live by simp
  qed
  moreover have "cap < live_bytes reach rows' + row_byte_len (last (take k vs))" if "take k vs \<noteq> []"
  proof -
    obtain j where j: "k = Suc j" "j < length vs" using \<open>take k vs \<noteq> []\<close> k(1) by (cases k) auto
    then have "take k vs = take j vs @ [vs ! j]" by (simp add: take_Suc_conv_app_nth)
    moreover have "cap + sum_list (map row_byte_len (take j vs)) < live_bytes reach rows" using k(4) j(1) by simp
    ultimately show ?thesis using live by simp
  qed
  ultimately show ?thesis
    using k(1,2) sub live rest sorted_wrt_take[OF sorted, of k]
    by (intro exI[of _ k] exI[of _ rows'] exI[of _ "take k vs"]) (auto simp: rows'_def[symmetric] set_gc_eligible)
qed

theorem gc_evicts_oldest_until_fit_witness:
  "\<exists>n rows'. gc {demo_ref} (fl 0) 0 (fl 9) (rows_hi []) = Some (n, rows') \<and> rows' = rows_hi []"
proof -
  obtain n rows' evicted where gc: "gc {demo_ref} (fl 0) 0 (fl 9) (rows_hi []) = Some (n, rows')"
    "rows' = filter (\<lambda>row. row \<notin> set evicted) (rows_hi [])"
    "set evicted \<subseteq> {row \<in> set (rows_hi []). \<not> row_pinned row \<and> row_ref_id row \<notin> {demo_ref} \<and> past_grace (fl 0) (fl 9) row}"
    using gc_evicts_oldest_until_fit[OF rows_hi_ok, of "{demo_ref}" "fl 0" 0 "fl 9" "[]"] by blast
  then have "evicted = []" by (cases evicted) (auto simp: rows_hi_def row_of_def put_hi_def put_record_def)
  with gc show ?thesis by simp
qed

text \<open>C31: a second session that puts bytes another session has put gets a record in its own name, but its
  retrievals of that ref are misses: the table keeps the first session's row.\<close>

theorem second_session_cannot_retrieve:
  assumes "store_ok sha rows" "entry_of rows (rec_ref_id r1) = None"
    and "put sha original src1 sess1 kind1 now1 rows = Some (Inr (r1, rows1))"
    and "put sha original src2 sess2 kind2 now2 rows1 = Some (Inr (r2, rows2))"
    and "sess1 \<noteq> sess2"
  shows "rec_ref_id r2 = rec_ref_id r1 \<and> rec_session_id r2 = sess2 \<and> rows2 = rows1 \<and>
    retrieve E (rec_ref_id r2) sess2 query now rows2 = Inr (Miss, rows2)"
proof -
  note p1 = put_rows[OF assms(1,3)] and p2 = put_rows[OF put_rows(1)[OF assms(1,3)] assms(4)]
  have id: "rec_ref_id r2 = rec_ref_id r1" using p1(2) p2(2) by simp
  have s2: "rec_session_id r2 = sess2" using p2(4) by (metis put_record_def RefRecord.select_convs(5))
  have r1: "rec_session_id r1 = sess1" using p1(4) by (metis put_record_def RefRecord.select_convs(5))
  have new: "rows1 = rows @ [row_of r1 original]" "rec_ref_id r1 \<notin> row_ref_id ` set rows"
  proof -
    have absent: "rec_ref_id r1 \<notin> row_ref_id ` set rows" using assms(2) by (simp add: entry_of_None)
    then have "insert_or_ignore (row_of r1 original) rows = Inr rows1"
      using assms(3) p1(2,4) by (auto simp: put_def Let_def split: sum.splits)
    then show "rows1 = rows @ [row_of r1 original]" using absent
      by (auto simp: insert_or_ignore_def row_of_def split: if_splits)
  qed (use assms(2) in \<open>simp add: entry_of_None\<close>)
  have same: "rows2 = rows1"
  proof -
    have "insert_or_ignore (row_of r2 original) rows1 = Inr rows2"
      using assms(4) p2(2,4) by (auto simp: put_def Let_def split: sum.splits)
    moreover have "row_ref_id (row_of r2 original) \<in> row_ref_id ` set rows1" by (simp add: new id row_of_def)
    ultimately show ?thesis by (auto simp: insert_or_ignore_def split: if_splits)
  qed
  have none: "\<not> (row_ref_id row = rec_ref_id r1 \<and> row_session_id row = session_str sess2)" if "row \<in> set rows1" for row
    using that new assms(5) r1 by (auto simp: row_of_def SessionId.expand image_iff)
  then have "find (\<lambda>row. row_ref_id row = rec_ref_id r1 \<and> row_session_id row = session_str sess2) rows1 = None"
    by (auto simp: find_None_iff)
  moreover have "map (\<lambda>row. if row_ref_id row = rec_ref_id r1 \<and> row_session_id row = session_str sess2 then bump now row else row) rows1 = rows1"
    using none by (intro map_idI) auto
  ultimately have "retrieve E (rec_ref_id r1) sess2 query now rows1 = Inr (Miss, rows1)"
    using none by (auto simp: retrieve_def update_returning_def)
  then show ?thesis by (simp add: id s2 same)
qed

theorem second_session_cannot_retrieve_witness:
  "put demo_sha (utf8 (lit ''hi'')) (MessageId []) (SessionId [98]) ToolPair (fl 0) (rows_hi [97]) =
     Some (Inr (put_hi [98], rows_hi [97])) \<and> rec_session_id (put_hi [98]) = SessionId [98] \<and>
   retrieve demo_env (rec_ref_id (put_hi [98])) (SessionId [98]) None (fl 0) (rows_hi [97]) = Inr (Miss, rows_hi [97])"
  using second_session_cannot_retrieve[OF _ _ put_hi_once put_hi_again, of "[97]" "[98]" demo_env None "fl 0"] put_hi_again[of "[98]" "[97]"]
  by (simp add: store_ok_def entry_of_def) metis

end
