(* ===== verification/Intercept.thy ===== *)
theory Intercept
  imports Budget_Fallback Deterministic Rewrite Store
begin

text \<open>
  The on-path interceptor, \<^verbatim>\<open>ccs-proxy/src/intercept.rs\<close>, with the staged plan it reads
  (the data of \<^verbatim>\<open>ccs-proxy/src/staging.rs\<close>).

  The libraries the proxy calls are one record \<open>lib\<close>: the JSON readers and printers, the digest, the
  exponential, and the encoders of \<^verbatim>\<open>format_core\<close>.  A hexadecimal digest makes the address of
  some bytes the digest behind its prefix, which is what \<open>address\<close> gives.  \<open>None\<close> is a panic, which
  the guard around the interceptor turns into the original request, as it does a time-out.  Logging
  is left out.  A \<^verbatim>\<open>HashSet\<close> is the list of its elements, a \<^verbatim>\<open>HashMap\<close> a map.
\<close>

section \<open>Data\<close>

record 'v lib =
  lb_serde :: serde
  lb_writer :: writer
  lb_print :: "Value \<Rightarrow> str"
  lb_sha :: "nat list \<Rightarrow> str"
  lb_exp :: "f64 \<Rightarrow> f64"
  lb_decode_ir :: "str \<Rightarrow> 'v option"
  lb_compact_json :: "'v \<Rightarrow> str"
  lb_select_encoding :: "str \<Rightarrow> str option"
  lb_unified_diff :: "str \<Rightarrow> str \<Rightarrow> str"

definition address :: "(nat list \<Rightarrow> str) \<Rightarrow> nat list \<Rightarrow> RefId" where
  "address sha bytes = RefId (REF_PREFIX @ sha bytes)"

lemma address_content_address: "hex_digest sha \<Longrightarrow> content_address sha bytes = Some (address sha bytes)"
  by (simp add: content_address_hex address_def)

record StagedRecode =
  sr_content :: str
  sr_ref_id :: "RefId option"
  sr_marker :: "str option"

record StagedEntry =
  se_rec :: RefRecord
  se_decision :: ContentDecision
  se_recode :: "StagedRecode option"

record StagedPlan =
  by_content :: "RefId \<rightharpoonup> StagedEntry"

record Intercepted =
  ic_bytes :: "nat list"
  ic_predicted_bust :: "Cost option"
  ic_committed :: "RefId list"
  ic_uncommitted :: "RefId list"

record InterceptInputs =
  ii_econ :: ModelEconomics
  ii_cache :: CacheState
  ii_npv_floor :: f64
  ii_policy :: PolicyConfig
  ii_remaining_turns :: f64
  ii_hot_refs :: "RefId list"
  ii_fast_lane :: "RefId list"
  ii_last_message_count :: nat
  ii_window_closed :: bool
  ii_staged :: "StagedPlan option"
  ii_token_scale :: TokenScale
  ii_now :: f64

record LaneEntry =
  le_key :: RefId
  le_fresh :: bool
  le_saved :: nat
  le_rendered :: "RenderedSegment list"

definition MAX_INTERCEPT_BYTES :: nat where "MAX_INTERCEPT_BYTES = 4 * 1024 * 1024"

definition FAST_LANE_MAX_LEAF :: nat where "FAST_LANE_MAX_LEAF = 256 * 1024"

definition FUSE_UP :: bool where "FUSE_UP = False"

definition DROP_PLACEHOLDER :: str where
  "DROP_PLACEHOLDER = lit ''[cc-squash: dropped under budget pressure]''"

definition DEDUPE_ALLOW_ASSISTANT :: bool where "DEDUPE_ALLOW_ASSISTANT = True"

definition FALLBACK_ECON :: ModelEconomics where
  "FALLBACK_ECON = \<lparr>base_input = Fin 0, write_mult = Fin 0, read_mult = Fin 0, min_cache_floor = 0\<rparr>"

definition empty_plan :: BreakpointPlan where
  "empty_plan = \<lparr>positions = []\<rparr>"

section \<open>Rendering\<close>

definition render_proposal_text :: "Strategy \<Rightarrow> str option \<Rightarrow> str option" where
  "render_proposal_text strat marker = (case strat of
      SKeep \<Rightarrow> None
    | SDrop \<Rightarrow> Some DROP_PLACEHOLDER
    | SRecode c r \<Rightarrow> Some (case (r, marker) of (Some _, Some m) \<Rightarrow> c @ [10] @ m | _ \<Rightarrow> c)
    | STruncate _ \<Rightarrow> marker
    | SSummarize _ \<Rightarrow> marker
    | SReversibleRef _ _ \<Rightarrow> marker)"

definition segment_role :: "SegmentKind \<Rightarrow> str" where
  "segment_role k = (case k of AssistantTurn \<Rightarrow> lit ''assistant'' | _ \<Rightarrow> lit ''user'')"

definition backref_allowed :: "str \<Rightarrow> str \<Rightarrow> StagedEntry \<Rightarrow> Segment \<Rightarrow> bool" where
  "backref_allowed prev cur entry seg =
     (should_dedupe cur (rec_byte_len (se_rec entry)) (pinned seg) DEDUPE_ALLOW_ASSISTANT \<and> can_dedupe_from prev cur)"

definition text_value :: "str \<Rightarrow> Value" where
  "text_value t = VObject [(lit ''type'', VString (lit ''text'')), (lit ''text'', VString t)]"

definition placeholder_block_json :: "(Value \<Rightarrow> str) \<Rightarrow> ReplacementKind \<Rightarrow> str \<Rightarrow> str" where
  "placeholder_block_json print k t = (case k of
      RToolResult tid err \<Rightarrow> print (VObject [(lit ''type'', VString (lit ''tool_result'')),
        (lit ''tool_use_id'', VString tid), (lit ''is_error'', VBool err), (lit ''content'', VString t)])
    | TextBlock \<Rightarrow> print (text_value t)
    | StringContent \<Rightarrow> print (VArray [text_value t]))"

definition recode_strategy :: "StagedRecode \<Rightarrow> Strategy" where
  "recode_strategy recode = SRecode (sr_content recode) (sr_ref_id recode)"

definition summary_text :: "StagedEntry \<Rightarrow> str" where
  "summary_text entry = (case summary_content (se_decision entry) of None \<Rightarrow> [] | Some s \<Rightarrow> s)"

definition render_recode_segment :: "'v lib \<Rightarrow> WireBody \<Rightarrow> Segment \<Rightarrow> StagedRecode \<Rightarrow> RenderedSegment list" where
  "render_recode_segment L body seg recode =
     filter_map (\<lambda>t. map_option
        (\<lambda>body_text. \<lparr>rs_target = bt_target t, rs_block_json = placeholder_block_json (lb_print L) (bt_kind t) body_text\<rparr>)
        (render_proposal_text (recode_strategy recode) (sr_marker recode)))
      (squash_targets (lb_serde L) body seg)"

text \<open>The targets of one staged segment; \<open>seen\<close> is \<^verbatim>\<open>first_seen\<close>.\<close>

fun render_reversible_targets ::
  "'v lib \<Rightarrow> Segment \<Rightarrow> StagedEntry \<Rightarrow> RefId \<Rightarrow> BlockTarget list \<Rightarrow> (RefId \<rightharpoonup> str) \<Rightarrow>
   RenderedSegment list \<times> (RefId \<rightharpoonup> str)" where
  "render_reversible_targets L seg entry key [] seen = ([], seen)"
| "render_reversible_targets L seg entry key (t # ts) seen =
     (let r = segment_role (kind seg);
          backref = (case seen key of Some prev \<Rightarrow> backref_allowed prev r entry seg | None \<Rightarrow> False);
          marker = (if backref then render_backref (rec_ref_id (se_rec entry))
                    else render_placeholder (se_rec entry) (summary_text entry) FUSE_UP);
          seen' = (if backref then seen else (case seen key of Some _ \<Rightarrow> seen | None \<Rightarrow> seen(key \<mapsto> r)));
          (rest, seen'') = render_reversible_targets L seg entry key ts seen'
      in case render_proposal_text (SReversibleRef (rec_ref_id (se_rec entry)) (summary_text entry)) (Some marker) of
           None \<Rightarrow> (rest, seen'')
         | Some body_text \<Rightarrow>
             (\<lparr>rs_target = bt_target t, rs_block_json = placeholder_block_json (lb_print L) (bt_kind t) body_text\<rparr> # rest,
              seen''))"

definition render_reversible_segment ::
  "'v lib \<Rightarrow> WireBody \<Rightarrow> Segment \<Rightarrow> StagedEntry \<Rightarrow> (RefId \<rightharpoonup> str) \<Rightarrow> RenderedSegment list \<times> (RefId \<rightharpoonup> str)" where
  "render_reversible_segment L body seg entry seen =
     render_reversible_targets L seg entry (address (lb_sha L) (segment_payload_bytes seg body))
       (squash_targets (lb_serde L) body seg) seen"

type_synonym live_row = "nat \<times> StagedEntry \<times> SquashCandidate"

fun render_rows ::
  "'v lib \<Rightarrow> WireBody \<Rightarrow> Segment list \<Rightarrow> live_row list \<Rightarrow> (RefId \<rightharpoonup> str) \<Rightarrow> RenderedSegment list option" where
  "render_rows L body segments [] seen = Some []"
| "render_rows L body segments ((i, entry, _) # rows) seen = (case nth_opt segments i of
      None \<Rightarrow> None
    | Some seg \<Rightarrow>
        let (rendered, seen') = (case se_recode entry of
               Some recode \<Rightarrow> (render_recode_segment L body seg recode, seen)
             | None \<Rightarrow> render_reversible_segment L body seg entry seen)
        in if rendered = [] then None
           else map_option (\<lambda>rest. rendered @ rest) (render_rows L body segments rows seen'))"

definition render_segments :: "'v lib \<Rightarrow> WireBody \<Rightarrow> Segment list \<Rightarrow> live_row list \<Rightarrow> RenderedSegment list option" where
  "render_segments L body segments live = render_rows L body segments live Map.empty"

section \<open>Splice and commit\<close>

definition identity :: "nat list \<Rightarrow> Intercepted" where
  "identity bytes = \<lparr>ic_bytes = bytes, ic_predicted_bust = None, ic_committed = [], ic_uncommitted = []\<rparr>"

definition splice_and_gate ::
  "'v lib \<Rightarrow> nat list \<Rightarrow> WireBody \<Rightarrow> RenderedSegment list \<Rightarrow> BreakpointPlan \<Rightarrow> nat list option" where
  "splice_and_gate L bytes body segs plan =
     (case splice (lb_serde L) (lb_writer L) bytes body segs plan of
        Inl _ \<Rightarrow> None
      | Inr spliced \<Rightarrow> (case validate (lb_serde L) (sp_bytes spliced) body of
            Inr _ \<Rightarrow> Some (sp_bytes spliced) | Inl _ \<Rightarrow> None))"

definition safe_breakpoints :: "BreakpointPlan \<Rightarrow> RenderedSegment list \<Rightarrow> BreakpointPlan" where
  "safe_breakpoints plan segs =
     \<lparr>positions = filter (\<lambda>i. i \<in> set (map (\<lambda>r. tg_message (rs_target r)) segs)) (positions plan)\<rparr>"

definition target_key :: "RenderedSegment \<Rightarrow> nat \<times> nat option" where
  "target_key r = (tg_message (rs_target r), tg_block (rs_target r))"

definition open_lane :: "RenderedSegment list \<Rightarrow> LaneEntry list \<Rightarrow> LaneEntry list" where
  "open_lane base lane =
     filter (\<lambda>e. list_all (\<lambda>r. target_key r \<notin> set (map target_key base)) (le_rendered e)) lane"

definition finish ::
  "'v lib \<Rightarrow> nat list \<Rightarrow> WireBody \<Rightarrow> RenderedSegment list \<Rightarrow> RefId list \<Rightarrow> LaneEntry list \<Rightarrow> BreakpointPlan \<Rightarrow>
   Cost option \<Rightarrow> Intercepted" where
  "finish L bytes body base uncommit lane plan bust =
     (let lane' = open_lane base lane; segs = base @ concat (map le_rendered lane') in
      if segs = [] then identity bytes
      else case splice_and_gate L bytes body segs plan of
          Some rewritten \<Rightarrow> \<lparr>ic_bytes = rewritten, ic_predicted_bust = bust,
             ic_committed = map le_key (filter le_fresh lane'), ic_uncommitted = uncommit\<rparr>
        | None \<Rightarrow> identity bytes)"

definition apply_batch ::
  "'v lib \<Rightarrow> nat list \<Rightarrow> WireBody \<Rightarrow> Segment list \<Rightarrow> live_row list \<Rightarrow> RefId list \<Rightarrow> BreakpointPlan \<Rightarrow> Cost \<Rightarrow>
   LaneEntry list \<Rightarrow> Intercepted" where
  "apply_batch L bytes body segments live uncommit plan bust lane =
     (case render_segments L body segments live of
        None \<Rightarrow> identity bytes
      | Some segs \<Rightarrow> finish L bytes body segs uncommit lane (safe_breakpoints plan segs) (Some bust))"

section \<open>The fast lane\<close>

definition provably_uncached :: "Segment \<Rightarrow> nat \<Rightarrow> bool" where
  "provably_uncached seg last_message_count =
     (source_uuids seg \<noteq> [] \<and>
      list_all (\<lambda>u. case message_index u of Some m \<Rightarrow> last_message_count \<le> m | None \<Rightarrow> False) (source_uuids seg))"

definition render_fast_lane :: "'v lib \<Rightarrow> WireBody \<Rightarrow> Segment \<Rightarrow> str \<Rightarrow> RenderedSegment list option" where
  "render_fast_lane L body seg cleaned =
     (case those (map (\<lambda>t. Option.bind (render_proposal_text (SRecode cleaned None) None) (\<lambda>body_text.
              let block_json = placeholder_block_json (lb_print L) (bt_kind t) body_text in
              if str_len block_json < bt_original_len t
              then Some \<lparr>rs_target = bt_target t, rs_block_json = block_json\<rparr> else None))
            (squash_targets (lb_serde L) body seg)) of
        None \<Rightarrow> None
      | Some segs \<Rightarrow> if segs = [] then None else Some segs)"

definition fast_lane_entry :: "'v lib \<Rightarrow> WireBody \<Rightarrow> InterceptInputs \<Rightarrow> Segment \<Rightarrow> RefId \<Rightarrow> LaneEntry option" where
  "fast_lane_entry L body inputs seg key =
     (let fresh = (key \<notin> set (ii_fast_lane inputs));
          staged_covers = (case ii_staged inputs of None \<Rightarrow> False | Some p \<Rightarrow> by_content p key \<noteq> None) in
      if fresh \<and> (staged_covers \<or> ii_window_closed inputs \<or> \<not> provably_uncached seg (ii_last_message_count inputs))
      then None
      else Option.bind (fast_lane_leaf (lb_serde L) body seg) (\<lambda>leaf.
        if FAST_LANE_MAX_LEAF < str_len (lf_content leaf) then None
        else Option.bind (fast_lane_clean (lb_decode_ir L) (lb_compact_json L) (lf_content leaf)) (\<lambda>cleaned.
          map_option (\<lambda>segs. \<lparr>le_key = key, le_fresh = fresh,
              le_saved = str_len (lf_content leaf) - str_len cleaned, le_rendered = segs\<rparr>)
            (render_fast_lane L body seg cleaned))))"

definition fast_lane_entries ::
  "'v lib \<Rightarrow> WireBody \<Rightarrow> Segment list \<Rightarrow> RefId list \<Rightarrow> InterceptInputs \<Rightarrow> LaneEntry list" where
  "fast_lane_entries L body segments keys inputs =
     filter_map (\<lambda>(seg, key). fast_lane_entry L body inputs seg key) (zip segments keys)"

section \<open>The continuous path\<close>

definition segment_quality_gain :: "'v lib \<Rightarrow> Segment \<Rightarrow> Segment list \<Rightarrow> InterceptInputs \<Rightarrow> RefId \<Rightarrow> f64" where
  "segment_quality_gain L seg segments inputs r =
     (let score = score_segment (lb_exp L) seg segments WorkingState_default (ii_cache inputs) (ii_econ inputs)
                    (ii_now inputs) (ii_policy inputs);
          score' = (if r \<in> set (ii_hot_refs inputs) then score\<lparr>sc_access_count := fl 1\<rparr> else score)
      in score_quality_gain score' (weights (ii_policy inputs)))"

definition suffix_tokens_of :: "Segment \<Rightarrow> Segment list \<Rightarrow> TokenCount" where
  "suffix_tokens_of seg segments =
     foldl (\<lambda>acc s. acc + token_estimate s) 0 (filter (\<lambda>s. index seg < index s) segments)"

definition candidate_of :: "BlockTarget list \<Rightarrow> Segment \<Rightarrow> Segment list \<Rightarrow> StagedEntry \<Rightarrow> TokenScale \<Rightarrow> f64 \<Rightarrow> int \<Rightarrow> SquashCandidate" where
  "candidate_of targets seg segments entry scale gain replacement_tokens =
     (let removed = foldl (\<lambda>acc t. i64_wrap (acc + (i64_of_u32 (bt_original_tokens t) - replacement_tokens))) 0 targets
      in \<lparr>earliest_offset = byte_offset seg, suffix_tokens = TokenScale_apply scale (suffix_tokens_of seg segments),
          net_removed = TokenScale_apply_signed scale removed, quality_gain = gain,
          ref_id = rec_ref_id (se_rec entry), strategy = SKeep\<rparr>)"

definition live_candidate ::
  "'v lib \<Rightarrow> Segment \<Rightarrow> Segment list \<Rightarrow> WireBody \<Rightarrow> StagedEntry \<Rightarrow> TokenScale \<Rightarrow> f64 \<Rightarrow> SquashCandidate option" where
  "live_candidate L seg segments body entry scale gain =
     (let targets = squash_targets (lb_serde L) body seg in
      if targets = [] then None
      else Some (candidate_of targets seg segments entry scale gain
             (i64_of_u32 (estimate_chars_proxy (render_placeholder (se_rec entry) (summary_text entry) FUSE_UP)))))"

definition recode_candidate ::
  "'v lib \<Rightarrow> Segment \<Rightarrow> Segment list \<Rightarrow> WireBody \<Rightarrow> StagedEntry \<Rightarrow> TokenScale \<Rightarrow> f64 \<Rightarrow> SquashCandidate option" where
  "recode_candidate L seg segments body entry scale gain =
     (let targets = squash_targets (lb_serde L) body seg in
      if targets = [] then None
      else Option.bind (se_recode entry) (\<lambda>recode.
        map_option (\<lambda>replacement. candidate_of targets seg segments entry scale gain (i64_of_u32 (estimate_chars_proxy replacement)))
          (render_proposal_text (recode_strategy recode) (sr_marker recode))))"

definition free_bust_of :: "WireBody \<Rightarrow> CacheState \<Rightarrow> FreeBustTrigger option" where
  "free_bust_of body cache = (if wb_model body \<noteq> cs_model cache then Some TModelSwitch else None)"

definition staged_rows ::
  "'v lib \<Rightarrow> WireBody \<Rightarrow> Segment list \<Rightarrow> RefId list \<Rightarrow> StagedPlan \<Rightarrow> InterceptInputs \<Rightarrow> (StagedSegment \<times> StagedEntry) list" where
  "staged_rows L body segments keys plan inputs =
     filter_map (\<lambda>(seg, key). Option.bind (by_content plan key) (\<lambda>entry.
         if se_recode entry \<noteq> None then None
         else map_option (\<lambda>cand. (\<lparr>st_seg_index = index seg, st_decision = se_decision entry, st_candidate = cand,
                                    st_npv_floor = ii_npv_floor inputs\<rparr>, entry))
           (live_candidate L seg segments body entry (ii_token_scale inputs)
              (segment_quality_gain L seg segments inputs (rec_ref_id (se_rec entry))))))
       (zip segments keys)"

definition recode_rows ::
  "'v lib \<Rightarrow> WireBody \<Rightarrow> Segment list \<Rightarrow> RefId list \<Rightarrow> StagedPlan \<Rightarrow> InterceptInputs \<Rightarrow> live_row list" where
  "recode_rows L body segments keys plan inputs =
     filter_map (\<lambda>(seg, key). Option.bind (by_content plan key) (\<lambda>entry.
         if se_recode entry = None then None
         else Option.bind (recode_candidate L seg segments body entry (ii_token_scale inputs)
                (segment_quality_gain L seg segments inputs (rec_ref_id (se_rec entry)))) (\<lambda>cand.
           if ref_id cand \<in> set (ii_hot_refs inputs) then None else Some (index seg, entry, cand))))
       (zip segments keys)"

definition continuous_ctx :: "WireBody \<Rightarrow> Segment list \<Rightarrow> InterceptInputs \<Rightarrow> StagedSegment list \<Rightarrow> PassCtx" where
  "continuous_ctx body segments inputs staged =
     \<lparr>cx_body = body, cx_segments = segments, cx_working = WorkingState_default, cx_econ = ii_econ inputs,
      cx_cache = ii_cache inputs, cx_knobs = ii_policy inputs,
      cx_staged = \<lparr>present = True, staged_segments = staged, hot_refs = ii_hot_refs inputs\<rparr>,
      cx_remaining_turns = ii_remaining_turns inputs, cx_now = ii_now inputs\<rparr>"

definition merge_live :: "PlanLedger \<Rightarrow> (StagedSegment \<times> StagedEntry) list \<Rightarrow> live_row list \<Rightarrow> live_row list" where
  "merge_live ledger staged recodes =
     sort_by (\<lambda>a b. fst a \<le> fst b)
       (filter_map (\<lambda>p. map_option (\<lambda>(s, entry). (pr_seg_index p, entry, st_candidate s))
            (find (\<lambda>(s, _). st_seg_index s = pr_seg_index p) staged)) (proposals ledger) @ recodes)"

definition continuous_controller :: "InterceptInputs \<Rightarrow> Controller" where
  "continuous_controller inputs = \<lparr>c_econ = ii_econ inputs, c_cache = ii_cache inputs,
     remaining_turns = ii_remaining_turns inputs, c_npv_floor = ii_npv_floor inputs, policy = ii_policy inputs,
     token_scale = ii_token_scale inputs\<rparr>"

definition prompt_state :: "WireBody \<Rightarrow> Segment list \<Rightarrow> CacheState \<Rightarrow> PromptState" where
  "prompt_state body segments cache = \<lparr>ps_segments = segments, window = max_tokens body,
     max_output = max_tokens body, free_bust = free_bust_of body cache\<rparr>"

definition live_batch :: "live_row list \<Rightarrow> SquashBatch" where
  "live_batch live = \<lparr>candidates = map (\<lambda>(_, _, cand). cand) live\<rparr>"

definition decide_live ::
  "'v lib \<Rightarrow> nat list \<Rightarrow> WireBody \<Rightarrow> Segment list \<Rightarrow> live_row list \<Rightarrow> RefId list \<Rightarrow> InterceptInputs \<Rightarrow> LaneEntry list \<Rightarrow>
   Intercepted" where
  "decide_live L bytes body segments live uncommit inputs lane =
     (if live = [] then finish L bytes body [] [] lane empty_plan None
      else case decide (continuous_controller inputs) (prompt_state body segments (ii_cache inputs)) (live_batch live) (ii_now inputs) of
          Flush _ breakpoint_plan predicted_bust _ \<Rightarrow>
            apply_batch L bytes body segments live uncommit breakpoint_plan predicted_bust lane
        | RideFreeBust _ _ \<Rightarrow>
            apply_batch L bytes body segments live uncommit empty_plan \<lparr>dollars = Fin 0, cost_tokens = 0\<rparr> lane
        | Hold _ \<Rightarrow> finish L bytes body [] [] lane empty_plan None)"

definition continuous ::
  "'v lib \<Rightarrow> nat list \<Rightarrow> WireBody \<Rightarrow> Segment list \<Rightarrow> RefId list \<Rightarrow> StagedPlan \<Rightarrow> InterceptInputs \<Rightarrow> LaneEntry list \<Rightarrow>
   Intercepted option" where
  "continuous L bytes body segments keys plan inputs lane =
     (let staged = staged_rows L body segments keys plan inputs;
          recodes = recode_rows L body segments keys plan inputs;
          ctx = continuous_ctx body segments inputs (map fst staged);
          pipeline = on_path (Presets_for_request (lb_exp L) True Nominal (ii_policy inputs)) in
      case run Runner_default pipeline ctx (PlanLedger_sized (length segments)) of
        None \<Rightarrow> None
      | Some ledger \<Rightarrow>
          let live = merge_live ledger staged recodes in
          (case those (map (\<lambda>(i, _, _). nth_opt keys i) live) of
             None \<Rightarrow> None
           | Some live_keys \<Rightarrow>
               let uncommit = filter (\<lambda>k. k \<in> set (ii_fast_lane inputs)) live_keys in
               Some (decide_live L bytes body segments live uncommit inputs lane)))"

section \<open>The fallback path\<close>

definition fallback_cache :: "WireBody \<Rightarrow> CacheState" where
  "fallback_cache body = \<lparr>cached_prefix_tokens = 0, last_request_ts = Fin 0, assumed_ttl_s = fl 3600,
     cs_model = wb_model body, cs_breakpoints = []\<rparr>"

definition fallback_ctx :: "WireBody \<Rightarrow> Segment list \<Rightarrow> PolicyConfig \<Rightarrow> PassCtx" where
  "fallback_ctx body segments knobs =
     \<lparr>cx_body = body, cx_segments = segments, cx_working = WorkingState_default,
      cx_econ = (case economics_for (wb_model body) of Some e \<Rightarrow> e | None \<Rightarrow> FALLBACK_ECON),
      cx_cache = fallback_cache body, cx_knobs = knobs,
      cx_staged = \<lparr>present = False, staged_segments = [], hot_refs = []\<rparr>,
      cx_remaining_turns = Fin 0, cx_now = Fin 0\<rparr>"

definition drop_blocks :: "'v lib \<Rightarrow> WireBody \<Rightarrow> Segment \<Rightarrow> RenderedSegment list" where
  "drop_blocks L body seg =
     filter_map (\<lambda>t. Option.bind (render_proposal_text SDrop None) (\<lambda>body_text.
         let block_json = placeholder_block_json (lb_print L) (bt_kind t) body_text in
         if str_len block_json < bt_original_len t
         then Some \<lparr>rs_target = bt_target t, rs_block_json = block_json\<rparr> else None))
       (squash_targets (lb_serde L) body seg)"

definition fallback_blocks :: "'v lib \<Rightarrow> WireBody \<Rightarrow> Segment list \<Rightarrow> PolicyConfig \<Rightarrow> PlanLedger \<Rightarrow> RenderedSegment list" where
  "fallback_blocks L body segments knobs ledger =
     concat (map (drop_blocks L body)
       (filter (\<lambda>seg. \<not> pinned seg \<and> \<not> is_recency_protected seg segments knobs)
         (filter_map (\<lambda>p. nth_opt segments (pr_seg_index p)) (proposals ledger))))"

definition deterministic_compact ::
  "'v lib \<Rightarrow> nat list \<Rightarrow> WireBody \<Rightarrow> Segment list \<Rightarrow> PolicyConfig \<Rightarrow> LaneEntry list \<Rightarrow> Intercepted option" where
  "deterministic_compact L bytes body segments knobs lane =
     (let just_added = (if segments = [] then 0 else token_estimate (last segments));
          pressure = soft_pressure (max_tokens body) just_added in
      if pressure \<noteq> OverBudget then Some (finish L bytes body [] [] lane empty_plan None)
      else case run Runner_default (Presets_for_request (lb_exp L) False pressure knobs)
                  (fallback_ctx body segments knobs) (PlanLedger_sized (length segments)) of
          None \<Rightarrow> None
        | Some ledger \<Rightarrow>
            Some (finish L bytes body (fallback_blocks L body segments knobs ledger) [] lane empty_plan None))"

section \<open>The interceptor\<close>

definition segment_keys :: "'v lib \<Rightarrow> WireBody \<Rightarrow> Segment list \<Rightarrow> RefId list" where
  "segment_keys L body segments = map (\<lambda>seg. address (lb_sha L) (segment_payload_bytes seg body)) segments"

definition intercept :: "'v lib \<Rightarrow> nat list \<Rightarrow> InterceptInputs \<Rightarrow> Intercepted option" where
  "intercept L bytes inputs =
     (if MAX_INTERCEPT_BYTES < length bytes then Some (identity bytes)
      else case parse_body (lb_serde L) bytes of
          None \<Rightarrow> Some (identity bytes)
        | Some body \<Rightarrow>
            let segments = segment_prompt (lb_serde L) body;
                keys = segment_keys L body segments;
                lane = fast_lane_entries L body segments keys inputs
            in case ii_staged inputs of
                 Some plan \<Rightarrow> continuous L bytes body segments keys plan inputs lane
               | None \<Rightarrow> deterministic_compact L bytes body segments (ii_policy inputs) lane)"

text \<open>What becomes of the blocking task: it returns within the cap, panics, cannot be joined, or overruns.\<close>

datatype 'a Task = Returned 'a | Panicked | JoinError | Elapsed

definition guarded :: "'a Task \<Rightarrow> 'a \<Rightarrow> 'a" where
  "guarded task fallback = (case task of Returned x \<Rightarrow> x | Panicked \<Rightarrow> fallback | JoinError \<Rightarrow> fallback | Elapsed \<Rightarrow> fallback)"

datatype Timing = InTime | NotJoined | Overran

definition task_of :: "Timing \<Rightarrow> 'a option \<Rightarrow> 'a Task" where
  "task_of timing work = (case timing of
      InTime \<Rightarrow> (case work of Some x \<Rightarrow> Returned x | None \<Rightarrow> Panicked)
    | NotJoined \<Rightarrow> JoinError | Overran \<Rightarrow> Elapsed)"

definition run_l2 :: "'v lib \<Rightarrow> Timing \<Rightarrow> nat list \<Rightarrow> InterceptInputs \<Rightarrow> Intercepted" where
  "run_l2 L timing bytes inputs = guarded (task_of timing (intercept L bytes inputs)) (identity bytes)"

section \<open>Where the rewritten blocks come from\<close>

definition from_targets :: "serde \<Rightarrow> WireBody \<Rightarrow> Segment list \<Rightarrow> RenderedSegment \<Rightarrow> bool" where
  "from_targets J body segments r =
     (\<exists>seg \<in> set segments. \<exists>t \<in> set (squash_targets J body seg). rs_target r = bt_target t)"

lemma those_set: "those (map f xs) = Some ys \<Longrightarrow> y \<in> set ys \<Longrightarrow> \<exists>x \<in> set xs. f x = Some y"
proof (induction xs arbitrary: ys)
  case (Cons x xs)
  then obtain z zs where "f x = Some z" "those (map f xs) = Some zs" "ys = z # zs" by (auto split: option.splits)
  then show ?case using Cons by auto
qed simp

lemma fast_lane_entry_Some:
  assumes "fast_lane_entry L body inputs seg key = Some e"
  shows "le_key e = key" "le_fresh e = (key \<notin> set (ii_fast_lane inputs))" "le_rendered e \<noteq> []"
    and "r \<in> set (le_rendered e) \<Longrightarrow> \<exists>t \<in> set (squash_targets (lb_serde L) body seg). rs_target r = bt_target t"
    and "\<exists>leaf. fast_lane_leaf (lb_serde L) body seg = Some leaf"
    and "le_fresh e \<Longrightarrow> \<not> ii_window_closed inputs \<and> provably_uncached seg (ii_last_message_count inputs) \<and>
          (\<forall>p. ii_staged inputs = Some p \<longrightarrow> by_content p key = None)"
proof -
  obtain leaf cleaned segs where leaf: "fast_lane_leaf (lb_serde L) body seg = Some leaf"
    and segs: "render_fast_lane L body seg cleaned = Some segs"
    and e: "e = \<lparr>le_key = key, le_fresh = (key \<notin> set (ii_fast_lane inputs)),
       le_saved = str_len (lf_content leaf) - str_len cleaned, le_rendered = segs\<rparr>"
    and guard: "\<not> (key \<notin> set (ii_fast_lane inputs) \<and> ((case ii_staged inputs of None \<Rightarrow> False | Some p \<Rightarrow> by_content p key \<noteq> None) \<or>
        ii_window_closed inputs \<or> \<not> provably_uncached seg (ii_last_message_count inputs)))"
    using assms by (auto simp: fast_lane_entry_def Let_def bind_eq_Some_conv split: if_splits)
  show "le_key e = key" "le_fresh e = (key \<notin> set (ii_fast_lane inputs))" by (simp_all add: e)
  show "\<exists>leaf. fast_lane_leaf (lb_serde L) body seg = Some leaf" using leaf by blast
  show "le_rendered e \<noteq> []" using segs by (auto simp: e render_fast_lane_def split: option.splits if_splits)
  show "\<exists>t \<in> set (squash_targets (lb_serde L) body seg). rs_target r = bt_target t" if "r \<in> set (le_rendered e)"
  proof -
    have "r \<in> set segs" using that by (simp add: e)
    then show ?thesis using segs
      by (fastforce simp: render_fast_lane_def Let_def bind_eq_Some_conv split: option.splits if_splits dest!: those_set)
  qed
  show "\<not> ii_window_closed inputs \<and> provably_uncached seg (ii_last_message_count inputs) \<and>
      (\<forall>p. ii_staged inputs = Some p \<longrightarrow> by_content p key = None)" if "le_fresh e"
    using guard that by (auto simp: e split: option.splits)
qed

lemma fast_lane_entries_Some:
  assumes "e \<in> set (fast_lane_entries L body segments keys inputs)"
  obtains seg key where "(seg, key) \<in> set (zip segments keys)" "fast_lane_entry L body inputs seg key = Some e"
  using assms by (auto simp: fast_lane_entries_def set_filter_map)

lemma lane_from_targets:
  assumes "e \<in> set (fast_lane_entries L body segments keys inputs)" "r \<in> set (le_rendered e)"
  shows "from_targets (lb_serde L) body segments r"
  using assms(1)
proof (rule fast_lane_entries_Some)
  fix seg key
  assume "(seg, key) \<in> set (zip segments keys)" "fast_lane_entry L body inputs seg key = Some e"
  then show ?thesis using fast_lane_entry_Some(4)[OF _ assms(2)] set_zip_leftD unfolding from_targets_def by metis
qed

lemma render_reversible_targets_from:
  "r \<in> set (fst (render_reversible_targets L seg entry key ts seen)) \<Longrightarrow> \<exists>t \<in> set ts. rs_target r = bt_target t"
proof (induction ts arbitrary: seen)
  case (Cons t ts)
  then show ?case by (auto simp: Let_def split: option.splits prod.splits if_splits) (metis fst_conv)+
qed simp

lemma render_rows_from:
  "render_rows L body segments rows seen = Some segs \<Longrightarrow> r \<in> set segs \<Longrightarrow> from_targets (lb_serde L) body segments r"
proof (induction rows arbitrary: seen segs)
  case (Cons row rows)
  obtain i entry cand where row: "row = (i, entry, cand)" by (cases row)
  obtain seg blocks seen' rest where seg: "nth_opt segments i = Some seg"
    and blocks: "(blocks, seen') = (case se_recode entry of
         Some recode \<Rightarrow> (render_recode_segment L body seg recode, seen)
       | None \<Rightarrow> render_reversible_segment L body seg entry seen)"
    and rest: "render_rows L body segments rows seen' = Some rest" "segs = blocks @ rest"
    using Cons.prems(1) by (auto simp: row split: option.splits prod.splits if_splits)
  have "seg \<in> set segments" using seg by (auto simp: nth_opt_def split: if_splits)
  moreover have "\<exists>t \<in> set (squash_targets (lb_serde L) body seg). rs_target r = bt_target t" if "r \<in> set blocks"
  proof (cases "se_recode entry")
    case None
    then have "blocks = fst (render_reversible_targets L seg entry (address (lb_sha L) (segment_payload_bytes seg body))
        (squash_targets (lb_serde L) body seg) seen)"
      using blocks by (simp add: render_reversible_segment_def) (metis fst_conv)
    then show ?thesis using that render_reversible_targets_from by metis
  next
    case (Some recode)
    then show ?thesis using that blocks by (auto simp: render_recode_segment_def set_filter_map)
  qed
  ultimately show ?case using Cons.IH[OF rest(1)] Cons.prems(2) rest(2) by (auto simp: from_targets_def)
qed simp

lemma fallback_from: "r \<in> set (fallback_blocks L body segments knobs ledger) \<Longrightarrow>
    \<exists>seg \<in> set segments. \<not> pinned seg \<and> \<not> is_recency_protected seg segments knobs \<and>
      (\<exists>t \<in> set (squash_targets (lb_serde L) body seg). rs_target r = bt_target t \<and> str_len (rs_block_json r) < bt_original_len t)"
  by (force simp: fallback_blocks_def drop_blocks_def set_filter_map Let_def bind_eq_Some_conv nth_opt_def split: if_splits)

section \<open>Outcomes\<close>

text \<open>What the interceptor may answer: the request itself, or a splice the gate let through, whose blocks
  come from \<open>base\<close> and from lane entries none of whose targets \<open>base\<close> takes.\<close>

definition spliced_ok :: "'v lib \<Rightarrow> nat list \<Rightarrow> WireBody \<Rightarrow> Segment list \<Rightarrow> LaneEntry list \<Rightarrow> RefId list \<Rightarrow> Intercepted \<Rightarrow> bool" where
  "spliced_ok L bytes body segments lane covered res =
     (\<exists>base plan sp. let lane' = open_lane base lane; segs = base @ concat (map le_rendered lane') in
        (\<forall>r \<in> set base. from_targets (lb_serde L) body segments r) \<and> segs \<noteq> [] \<and>
        splice (lb_serde L) (lb_writer L) bytes body segs plan = Inr sp \<and>
        validate (lb_serde L) (sp_bytes sp) body = Inr () \<and> ic_bytes res = sp_bytes sp \<and>
        ic_committed res = map le_key (filter le_fresh lane') \<and> set (ic_uncommitted res) \<subseteq> set covered)"

lemma splice_and_gate_Some:
  assumes "splice_and_gate L bytes body segs plan = Some rewritten"
  shows "\<exists>sp. splice (lb_serde L) (lb_writer L) bytes body segs plan = Inr sp \<and>
    validate (lb_serde L) (sp_bytes sp) body = Inr () \<and> rewritten = sp_bytes sp"
  using assms by (simp add: splice_and_gate_def split: sum.splits)

lemma finish_outcome:
  assumes "\<forall>r \<in> set base. from_targets (lb_serde L) body segments r" "set uncommit \<subseteq> set covered"
  shows "finish L bytes body base uncommit lane plan bust = identity bytes \<or>
    spliced_ok L bytes body segments lane covered (finish L bytes body base uncommit lane plan bust)"
proof (cases "base @ concat (map le_rendered (open_lane base lane)) = [] \<or>
    splice_and_gate L bytes body (base @ concat (map le_rendered (open_lane base lane))) plan = None")
  case True
  then show ?thesis by (auto simp: finish_def Let_def)
next
  case False
  then obtain rewritten where r: "splice_and_gate L bytes body (base @ concat (map le_rendered (open_lane base lane))) plan = Some rewritten"
    by blast
  then obtain sp where sp: "splice (lb_serde L) (lb_writer L) bytes body (base @ concat (map le_rendered (open_lane base lane))) plan = Inr sp"
    "validate (lb_serde L) (sp_bytes sp) body = Inr ()" "rewritten = sp_bytes sp"
    using splice_and_gate_Some by blast
  have res: "finish L bytes body base uncommit lane plan bust = \<lparr>ic_bytes = rewritten, ic_predicted_bust = bust,
      ic_committed = map le_key (filter le_fresh (open_lane base lane)), ic_uncommitted = uncommit\<rparr>"
    using False r unfolding finish_def Let_def by (simp only: de_Morgan_disj if_False option.case)
  show ?thesis unfolding spliced_ok_def Let_def res using False assms sp
    by (intro disjI2 exI[of _ base] exI[of _ plan] exI[of _ sp]) simp
qed

lemma apply_outcome:
  assumes "set uncommit \<subseteq> set covered"
  shows "apply_batch L bytes body segments live uncommit plan bust lane = identity bytes \<or>
    spliced_ok L bytes body segments lane covered (apply_batch L bytes body segments live uncommit plan bust lane)"
proof (cases "render_segments L body segments live")
  case (Some segs)
  then have "\<forall>r \<in> set segs. from_targets (lb_serde L) body segments r"
    using render_rows_from by (auto simp: render_segments_def)
  then show ?thesis using finish_outcome[OF _ assms] by (simp add: apply_batch_def Some)
qed (simp add: apply_batch_def)

lemma finish_lane_outcome:
  "finish L bytes body [] [] lane plan bust = identity bytes \<or>
   spliced_ok L bytes body segments lane covered (finish L bytes body [] [] lane plan bust)"
  by (rule finish_outcome) simp_all

lemma continuous_outcome:
  assumes "continuous L bytes body segments keys plan inputs lane = Some res"
  shows "res = identity bytes \<or> spliced_ok L bytes body segments lane (ii_fast_lane inputs) res"
proof -
  obtain live live_keys where live: "res = decide_live L bytes body segments live
      (filter (\<lambda>k. k \<in> set (ii_fast_lane inputs)) live_keys) inputs lane"
    using assms by (auto simp: continuous_def Let_def split: option.splits)
  have "set (filter (\<lambda>k. k \<in> set (ii_fast_lane inputs)) live_keys) \<subseteq> set (ii_fast_lane inputs)" by auto
  note applied = apply_outcome[OF this, of L bytes body segments live _ _ lane]
  show ?thesis
    unfolding live decide_live_def
    by (cases "live = []"; cases "decide (continuous_controller inputs) (prompt_state body segments (ii_cache inputs)) (live_batch live) (ii_now inputs)")
       (simp_all add: applied finish_lane_outcome)
qed

lemma compact_outcome:
  assumes "deterministic_compact L bytes body segments knobs lane = Some res"
  shows "res = identity bytes \<or> spliced_ok L bytes body segments lane covered res"
proof -
  have "\<forall>r \<in> set (fallback_blocks L body segments knobs ledger). from_targets (lb_serde L) body segments r" for ledger
    using fallback_from by (fastforce simp: from_targets_def)
  note base = finish_outcome[OF this, of "[]" covered]
  show ?thesis
  proof (cases "soft_pressure (max_tokens body) (if segments = [] then 0 else token_estimate (last segments)) = OverBudget")
    case True
    then obtain ledger where "res = finish L bytes body (fallback_blocks L body segments knobs ledger) [] lane empty_plan None"
      using assms by (auto simp: deterministic_compact_def Let_def simp del: if_split split: option.splits)
    then show ?thesis using base by simp
  next
    case False
    then have "res = finish L bytes body [] [] lane empty_plan None"
      using assms unfolding deterministic_compact_def Let_def by simp
    then show ?thesis using finish_lane_outcome by simp
  qed
qed

text \<open>The interceptor forwards the request, or a request of at most four megabytes in a splice that passed
  the gate.\<close>

lemma run_l2_outcome:
  "run_l2 L timing bytes inputs = identity bytes \<or>
   (timing = InTime \<and> length bytes \<le> MAX_INTERCEPT_BYTES \<and> (\<exists>body. parse_body (lb_serde L) bytes = Some body \<and>
      (let segments = segment_prompt (lb_serde L) body in
       spliced_ok L bytes body segments (fast_lane_entries L body segments (segment_keys L body segments) inputs)
         (ii_fast_lane inputs) (run_l2 L timing bytes inputs))))"
proof (cases "timing = InTime \<and> intercept L bytes inputs \<noteq> None \<and> run_l2 L timing bytes inputs \<noteq> identity bytes")
  case True
  then obtain res where res: "intercept L bytes inputs = Some res" "run_l2 L timing bytes inputs = res" "res \<noteq> identity bytes"
    by (auto simp: run_l2_def guarded_def task_of_def)
  then obtain body where body: "length bytes \<le> MAX_INTERCEPT_BYTES" "parse_body (lb_serde L) bytes = Some body"
    by (auto simp: intercept_def split: if_splits option.splits)
  have "spliced_ok L bytes body (segment_prompt (lb_serde L) body) (fast_lane_entries L body (segment_prompt (lb_serde L) body)
       (segment_keys L body (segment_prompt (lb_serde L) body)) inputs) (ii_fast_lane inputs) res"
  proof (cases "ii_staged inputs")
    case None
    then show ?thesis using res(1,3) body compact_outcome by (fastforce simp: intercept_def Let_def)
  next
    case (Some plan)
    then show ?thesis using res(1,3) body continuous_outcome by (fastforce simp: intercept_def Let_def)
  qed
  then show ?thesis using True body res by (auto simp: Let_def)
next
  case False
  then show ?thesis by (auto simp: run_l2_def guarded_def task_of_def split: Timing.splits option.splits)
qed

section \<open>Fast-lane leaves across turns\<close>

lemma lane_segment:
  assumes "fast_lane_leaf J body seg = Some leaf" "seg \<in> set (segment_prompt J body)"
  shows "kind seg = ToolPair" "\<not> pinned seg" "\<not> is_true_human seg" "seg \<in> set (butlast (segment_prompt J body))"
proof -
  show k: "kind seg = ToolPair" "\<not> pinned seg" "\<not> is_true_human seg"
    using assms(1) by (auto simp: fast_lane_leaf_def raw_recode_leaf_def split: if_splits)
  obtain n where n: "n < length (segment_prompt J body)" "seg = segment_prompt J body ! n"
    using assms(2) by (metis in_set_conv_nth)
  then have "n + 1 < length (segment_prompt J body)" using last_current(2)[OF n(1)] k(2) by fastforce
  then show "seg \<in> set (butlast (segment_prompt J body))"
    unfolding n(2) by (metis One_nat_def add.commute length_butlast less_diff_conv nth_butlast nth_mem plus_1_eq_Suc)
qed

lemma message_index_id: "message_index (message_id k) = Some m \<Longrightarrow> m = k"
proof -
  assume m: "message_index (message_id k) = Some m"
  obtain c r where "dec k = c # r" using dec_nonempty by (cases "dec k") auto
  moreover from this have "c \<noteq> 43" using dec_digits[of k] by (auto simp: is_digit_def)
  ultimately have "(case dec k of [] \<Rightarrow> [] | c # r \<Rightarrow> if c = 43 then r else dec k) = dec k" by simp
  then show "m = k" using m by (auto simp: message_index_def message_id_def parse_usize_def Let_def split: if_splits)
qed

lemma segment_source_bound:
  assumes "seg \<in> set (segment_prompt J body)" "u \<in> set (source_uuids seg)"
  shows "\<exists>k < length (messages body). u = message_id k"
proof -
  obtain n where n: "n < length (segment_prompt J body)" "seg = segment_prompt J body ! n"
    using assms(1) by (metis in_set_conv_nth)
  then have "source_uuids seg = b_source_uuids (all_builds J body ! n)" using segment_prompt_nth[OF n(1)] by (simp add: mk_seg_def Let_def)
  moreover have "n < length (all_builds J body)" using n(1) by (simp add: length_segment_prompt)
  ultimately have "u \<in> set (concat (map b_source_uuids (all_builds J body)))" using assms(2) by force
  then show ?thesis unfolding all_builds_sources by auto
qed

lemma tool_pair_unchanged:
  assumes "seg \<in> set (segment_prompt J body)" "kind seg = ToolPair"
  shows "squash_targets J (body\<lparr>messages := messages body @ extra\<rparr>) seg = squash_targets J body seg"
    and "raw_recode_leaf J (body\<lparr>messages := messages body @ extra\<rparr>) seg = raw_recode_leaf J body seg"
proof -
  let ?b = "body\<lparr>messages := messages body @ extra\<rparr>"
  let ?ms = "filter_map message_index (source_uuids seg)"
  have at: "nth_opt (messages ?b) m = nth_opt (messages body) m" if "m \<in> set ?ms" for m
  proof -
    obtain u where "u \<in> set (source_uuids seg)" "message_index u = Some m" using \<open>m \<in> set ?ms\<close> by (auto simp: set_filter_map)
    then have "m < length (messages body)" using segment_source_bound[OF assms(1)] message_index_id by metis
    then show ?thesis by (simp add: nth_opt_def nth_append)
  qed
  have users: "filter (is_user_message ?b) ?ms = filter (is_user_message body) ?ms"
    using at by (intro filter_cong) (auto simp: is_user_message_def)
  have at': "nth_opt (messages ?b) m = nth_opt (messages body) m" if "m \<in> set (filter (is_user_message body) ?ms)" for m
    using that at by simp
  show "squash_targets J ?b seg = squash_targets J body seg"
    unfolding squash_targets_def users using assms(2) at'
    by (auto intro!: arg_cong[of _ _ concat] simp: tool_result_targets_def)
  have um: "user_messages b seg = filter (is_user_message b) ?ms" for b
    unfolding user_messages_def is_user_message_def[abs_def] message_index_def[abs_def] ..
  have same: "map (\<lambda>m. case nth_opt (messages ?b) m of None \<Rightarrow> [] | Some w \<Rightarrow> blocks (content w)) (filter (is_user_message body) ?ms) =
      map (\<lambda>m. case nth_opt (messages body) m of None \<Rightarrow> [] | Some w \<Rightarrow> blocks (content w)) (filter (is_user_message body) ?ms)"
    using at' by (intro map_cong) simp_all
  have "leaf_strings J ?b seg = leaf_strings J body seg"
    unfolding leaf_strings_def um users using assms(2) at'
    by (auto intro!: arg_cong[of _ _ concat] simp: tool_result_strings_def)
  moreover have "sole_squash_target ?b seg = sole_squash_target body seg"
    by (simp only: sole_squash_target_def um users same)
  ultimately show "raw_recode_leaf J ?b seg = raw_recode_leaf J body seg" by (simp only: raw_recode_leaf_def raw_leaf_def)
qed

text \<open>A committed leaf renders to the same blocks whatever else the session knows.\<close>

lemma fast_lane_entry_again:
  assumes "fast_lane_entry L body inputs seg key = Some e" "seg \<in> set (segment_prompt (lb_serde L) body)"
    "key \<in> set (ii_fast_lane inputs')"
  shows "fast_lane_entry L (body\<lparr>messages := messages body @ extra\<rparr>) inputs' seg key = Some (e\<lparr>le_fresh := False\<rparr>)"
proof -
  obtain leaf where "fast_lane_leaf (lb_serde L) body seg = Some leaf" using fast_lane_entry_Some(5)[OF assms(1)] by blast
  then have k: "kind seg = ToolPair" using lane_segment(1)[OF _ assms(2)] by simp
  note same = tool_pair_unchanged[OF assms(2) k, of extra]
  have "fast_lane_leaf (lb_serde L) (body\<lparr>messages := messages body @ extra\<rparr>) seg = fast_lane_leaf (lb_serde L) body seg"
    "render_fast_lane L (body\<lparr>messages := messages body @ extra\<rparr>) seg cleaned = render_fast_lane L body seg cleaned" for cleaned
    by (simp_all add: fast_lane_leaf_def same render_fast_lane_def)
  then show ?thesis using assms(1,3) unfolding fast_lane_entry_def Let_def
    by (auto simp: bind_eq_Some_conv split: if_splits)
qed

text \<open>A tool pair that is not the last segment is followed by another message.\<close>

lemma pair_followed:
  assumes "Suc n < length (builds J msgs i gen)" "b_source_uuids (builds J msgs i gen ! n) = [message_id k, message_id (k + 1)]"
  shows "k + 2 < length msgs"
proof -
  let ?bs = "builds J msgs i gen"
  have "\<forall>b \<in> set ?bs. b_source_uuids b \<noteq> []"
  proof (induction i gen rule: builds_induct[where J = J and msgs = msgs])
    case (Pair i gen)
    then show ?case by (simp add: builds_cases(5) pair_build_def)
  qed (simp_all add: builds_cases turn_build_def)
  then have ne: "b_source_uuids (?bs ! Suc n) \<noteq> []" using assms(1) by simp
  have split: "?bs = take n ?bs @ ?bs ! n # ?bs ! Suc n # drop (Suc (Suc n)) ?bs"
    using assms(1) by (metis Cons_nth_drop_Suc Suc_lessD append_take_drop_id)
  have "map message_id [i..<length msgs] = concat (map b_source_uuids (take n ?bs @ ?bs ! n # ?bs ! Suc n # drop (Suc (Suc n)) ?bs))"
    unfolding split[symmetric] by (simp only: builds_sources)
  then obtain xs ys where xs: "map message_id [i..<length msgs] = xs @ message_id k # message_id (k + 1) # ys" "ys \<noteq> []"
    using assms(2) ne by (auto simp: neq_Nil_conv)
  from this(1) obtain ks ls where "[i..<length msgs] = ks @ k # (k + 1) # ls" "ys = map message_id ls"
    by (auto simp: map_eq_append_conv map_eq_Cons_conv)
  then have u: "[i..<length msgs] = (ks @ [k]) @ (k + 1) # ls" "ls \<noteq> []" using xs(2) by simp_all
  have "length [i..<length msgs] = length ks + 2 + length ls" using arg_cong[OF u(1), of length] by simp
  then have "length ks + 2 < length msgs - i" using u(2) by (cases ls) auto
  moreover have "[i..<length msgs] ! Suc (length ks) = k + 1" unfolding u(1) by (simp add: nth_append)
  ultimately show ?thesis by simp
qed

lemma unpinned_pair_followed:
  assumes "seg \<in> set (segment_prompt J body)" "kind seg = ToolPair" "\<not> pinned seg"
  shows "\<exists>k. source_uuids seg = [message_id k, message_id (k + 1)] \<and> k + 2 < length (messages body)"
proof -
  obtain n where n: "n < length (segment_prompt J body)" "seg = segment_prompt J body ! n"
    using assms(1) by (metis in_set_conv_nth)
  then have last: "Suc n < length (all_builds J body)"
    using last_current(2)[OF n(1)] assms(3) by (fastforce simp: length_segment_prompt)
  have seg: "source_uuids seg = b_source_uuids (all_builds J body ! n)" "kind seg = b_kind (all_builds J body ! n)"
    using segment_prompt_nth[OF n(1)] n(2) by (simp_all add: mk_seg_def Let_def)
  define pre where "pre = (case wb_tools body of None \<Rightarrow> [] | Some t \<Rightarrow> [prefix_build Tools t]) @
     (case wb_system body of None \<Rightarrow> [] | Some s \<Rightarrow> [prefix_build System s])"
  have all: "all_builds J body = pre @ builds J (messages body) 0 0" by (simp add: all_builds_def pre_def)
  have "\<forall>b \<in> set pre. b_kind b \<noteq> ToolPair" by (auto simp: pre_def prefix_build_def split: option.splits)
  then have "length pre \<le> n" using seg(2) assms(2) by (metis all linorder_not_less nth_append nth_mem)
  then obtain m where m: "n = length pre + m" using le_Suc_ex by blast
  have b: "all_builds J body ! n = builds J (messages body) 0 0 ! m" "Suc m < length (builds J (messages body) 0 0)"
    using last by (simp_all add: all m nth_append)
  then have "build_safe J (messages body) (builds J (messages body) 0 0 ! m)" using builds_safe[OF nth_mem] by simp
  then obtain k where "b_source_uuids (builds J (messages body) 0 0 ! m) = [message_id k, message_id (k + 1)]"
    using seg(2) assms(2) b(1) by (auto simp: build_safe_def)
  then show ?thesis using pair_followed[OF b(2)] seg(1) b(1) by auto
qed

lemma committed_leaf:
  assumes "k \<in> set (ic_committed (run_l2 L timing bytes inputs))"
  shows "k \<notin> set (ii_fast_lane inputs) \<and> \<not> ii_window_closed inputs \<and> (\<forall>p. ii_staged inputs = Some p \<longrightarrow> by_content p k = None) \<and>
      (\<exists>body seg. parse_body (lb_serde L) bytes = Some body \<and> seg \<in> set (segment_prompt (lb_serde L) body) \<and>
         k = address (lb_sha L) (segment_payload_bytes seg body) \<and> kind seg = ToolPair \<and> \<not> pinned seg \<and> \<not> is_true_human seg \<and>
         provably_uncached seg (ii_last_message_count inputs))"
proof -
  have "run_l2 L timing bytes inputs \<noteq> identity bytes" using assms by (auto simp: identity_def)
  then obtain body where body: "parse_body (lb_serde L) bytes = Some body"
    and ok: "spliced_ok L bytes body (segment_prompt (lb_serde L) body) (fast_lane_entries L body (segment_prompt (lb_serde L) body)
        (segment_keys L body (segment_prompt (lb_serde L) body)) inputs) (ii_fast_lane inputs) (run_l2 L timing bytes inputs)"
    using run_l2_outcome[of L timing bytes inputs] by (auto simp: Let_def)
  let ?segs = "segment_prompt (lb_serde L) body"
  let ?lane = "fast_lane_entries L body ?segs (segment_keys L body ?segs) inputs"
  have "set (ic_committed (run_l2 L timing bytes inputs)) \<subseteq> le_key ` {e \<in> set ?lane. le_fresh e}"
    using ok by (auto simp: spliced_ok_def Let_def open_lane_def)
  then obtain e where e: "e \<in> set ?lane" "le_fresh e" "k = le_key e" using assms by blast
  from e(1) obtain seg key where seg: "(seg, key) \<in> set (zip ?segs (segment_keys L body ?segs))"
    "fast_lane_entry L body inputs seg key = Some e" by (rule fast_lane_entries_Some)
  note entry = fast_lane_entry_Some[OF seg(2)]
  have "seg \<in> set ?segs" "key = address (lb_sha L) (segment_payload_bytes seg body)"
    using seg(1) by (auto simp: segment_keys_def set_zip)
  moreover obtain leaf where "fast_lane_leaf (lb_serde L) body seg = Some leaf" using entry(5) by blast
  ultimately show ?thesis using e(2,3) entry(1,2,6) body lane_segment(1,2,3)[of "lb_serde L" body seg leaf] by metis
qed

lemma uncommitted_were_committed: "set (ic_uncommitted (run_l2 L timing bytes inputs)) \<subseteq> set (ii_fast_lane inputs)"
  using run_l2_outcome[of L timing bytes inputs] by (auto simp: identity_def spliced_ok_def Let_def)

section \<open>An example\<close>

text \<open>A request with a tool call whose result is three hundred carriage returns, and a library under which
  the fast lane cleans it.\<close>

definition lane_result :: RawValue where
  "lane_result = 91 # replicate 300 13"

definition lane_raw_body :: "RawValue \<Rightarrow> RawBody" where
  "lane_raw_body result = \<lparr>rb_model = ModelId (lit ''claude-opus-4-8''), rb_system = None, rb_tools = None,
     rb_messages = [(RoleAssistant, [116]), (RoleUser, result), (RoleUser, [34, 34])], rb_max_tokens = 0\<rparr>"

definition lane_body :: "RawValue \<Rightarrow> WireBody" where
  "lane_body result = \<lparr>wb_model = ModelId (lit ''claude-opus-4-8''), wb_system = None, wb_tools = None,
     messages = [\<lparr>role = RoleAssistant, content = MBlocks [BToolUse [116]]\<rparr>,
       \<lparr>role = RoleUser, content = MBlocks [BToolResult result]\<rparr>, \<lparr>role = RoleUser, content = MText [34, 34] []\<rparr>],
     max_tokens = 0\<rparr>"

definition lane_serde :: serde where
  "lane_serde = \<lparr>js_body = (\<lambda>bytes. if bytes = [0] then Some (lane_raw_body lane_result)
        else if bytes = [7] then Some (lane_raw_body [91])
        else if bytes = [2] then Some ((lane_raw_body [91])\<lparr>rb_messages := []\<rparr>) else None),
     js_string = (\<lambda>_. Some []), js_array = (\<lambda>r. Some [r]),
     js_type_tag = (\<lambda>r. Some (Some (if r = [116] then lit ''tool_use'' else lit ''tool_result''))),
     js_id_fields = (\<lambda>r. Some \<lparr>idf_id = Some [], idf_tool_use_id = Some [], idf_name = None\<rparr>),
     js_text_field = Some, js_tool_result = (\<lambda>r. Some \<lparr>trf_is_error = None, trf_content = TRText []\<rparr>),
     js_result_content = (\<lambda>r. Some (RCText (tl r))),
     js_envelope = (\<lambda>_. Some [(lit ''model'', []), (lit ''max_tokens'', []), (lit ''messages'', [])])\<rparr>"

definition lane_writer :: writer where
  "lane_writer = \<lparr>wr_raw_array = (\<lambda>_. Some [[116], lane_result, [34, 34]]),
     wr_object = (\<lambda>_. Some [(lit ''content'', VArray [VNull])]), wr_value = (\<lambda>_. Some VNull), wr_text = (\<lambda>_. Some []),
     wr_raw = Some, wr_messages = (\<lambda>_. Some []), wr_envelope = (\<lambda>_. Some [7])\<rparr>"

definition lane_lib :: "unit lib" where
  "lane_lib = \<lparr>lb_serde = lane_serde, lb_writer = lane_writer, lb_print = (\<lambda>_. [91]), lb_sha = (\<lambda>_. replicate 64 97),
     lb_exp = (\<lambda>x. x), lb_decode_ir = (\<lambda>_. None), lb_compact_json = (\<lambda>_. []), lb_select_encoding = (\<lambda>_. None),
     lb_unified_diff = (\<lambda>_ _. [])\<rparr>"

definition lane_inputs :: "RefId list \<Rightarrow> InterceptInputs" where
  "lane_inputs committed = \<lparr>ii_econ = FALLBACK_ECON, ii_cache = fallback_cache (lane_body lane_result), ii_npv_floor = Fin 0,
     ii_policy = PolicyConfig_default, ii_remaining_turns = Fin 0, ii_hot_refs = [], ii_fast_lane = committed,
     ii_last_message_count = 0, ii_window_closed = False, ii_staged = None, ii_token_scale = TokenScale_default,
     ii_now = Fin 0\<rparr>"

definition lane_pair :: Segment where
  "lane_pair = \<lparr>index = 0, kind = ToolPair, byte_offset = 0, token_estimate = estimate_chars_proxy ([116] @ lane_result),
     generation = 0, pinned = False, is_current = False, is_true_human = False,
     source_uuids = [message_id 0, message_id 1]\<rparr>"

definition lane_tail :: Segment where
  "lane_tail = \<lparr>index = 1, kind = UserTurn, byte_offset = 302, token_estimate = estimate_chars_proxy [],
     generation = 1, pinned = True, is_current = True, is_true_human = True, source_uuids = [message_id 2]\<rparr>"

lemma lane_len: "str_len (replicate 300 13) = 300" "str_len lane_result = 301"
proof -
  show a: "str_len (replicate 300 13) = 300" by (subst str_len_ascii) auto
  show "str_len lane_result = 301" unfolding lane_result_def by (simp add: a utf8_width_def)
qed

lemma lane_parse: "parse_body lane_serde [0] = Some (lane_body lane_result)" "parse_body lane_serde [7] = Some (lane_body [91])"
    "parse_body lane_serde [2] = Some ((lane_body [91])\<lparr>messages := []\<rparr>)"
  by (simp_all add: parse_body_def lane_serde_def lane_raw_body_def lane_body_def MessageContent_deserialize_def
      classify_def lane_result_def trim_start_def is_whitespace_def starts_with_def)

lemma lane_segments: "segment_prompt lane_serde (lane_body lane_result) = [lane_pair, lane_tail]"
  using lane_len
  by (simp add: segment_prompt_def lane_body_def segment_loop.simps paired_user_def Let_def push_def mark_last_def
      is_client_tool_use_def is_tool_result_def tool_use_id_def lane_serde_def lane_pair_def lane_tail_def
      is_true_human_content_def utf8_width_def rendered_def is_string_def)

lemma lane_targets: "squash_targets lane_serde (lane_body lane_result) lane_pair =
    [\<lparr>bt_target = \<lparr>tg_message = 1, tg_block = Some 0\<rparr>, bt_original_len = 301,
      bt_original_tokens = estimate_chars_proxy [], bt_kind = RToolResult [] False\<rparr>]"
  using lane_len
  by (simp add: squash_targets_def lane_pair_def message_index_def message_id_def parse_usize_dec is_user_message_def
      lane_body_def nth_opt_def tool_result_targets_def tool_result_target_def tool_use_id_def lane_serde_def
      MIN_BLOCK_SPAN_def ToolResultContent_rendered_def)

lemma lane_leaf: "\<exists>leaf. fast_lane_leaf lane_serde (lane_body lane_result) lane_pair = Some leaf \<and> lf_content leaf = replicate 300 13"
proof -
  have users: "user_messages (lane_body lane_result) lane_pair = [1]"
    by (simp add: user_messages_def lane_body_def lane_pair_def message_id_def parse_usize_dec nth_opt_def)
  have kind: "kind lane_pair = ToolPair" "\<not> pinned lane_pair" "\<not> is_true_human lane_pair" by (simp_all add: lane_pair_def)
  have "leaf_strings lane_serde (lane_body lane_result) lane_pair = [replicate 300 13]"
    unfolding leaf_strings_def users
    by (simp add: kind tool_result_strings_def lane_body_def nth_opt_def tool_result_text_def lane_serde_def lane_result_def)
  moreover have "sole_squash_target (lane_body lane_result) lane_pair"
    unfolding sole_squash_target_def users using lane_len
    by (simp add: kind lane_body_def nth_opt_def is_tool_result_def MIN_BLOCK_SPAN_def)
  ultimately show ?thesis using lane_len
    by (simp add: fast_lane_leaf_def raw_recode_leaf_def kind raw_leaf_def MIN_RECODE_SPAN_def)
qed

lemma lane_clean: "fast_lane_clean (\<lambda>_. None :: unit option) (\<lambda>_. []) (replicate 300 13) = Some []"
proof -
  have "strip_ansi (replicate n 13) = []" for n by (induction n) simp_all
  moreover have "normalize_ws [] = []"
    by (simp add: normalize_ws_def replace_cr_def ends_with_newline_def trim_newlines_def)
  ultimately show ?thesis using lane_len(1) by (simp add: fast_lane_clean_def minify_json_def)
qed

lemma lane_entry: "\<exists>saved. fast_lane_entry lane_lib (lane_body lane_result) (lane_inputs committed) lane_pair key =
    Some \<lparr>le_key = key, le_fresh = (key \<notin> set committed), le_saved = saved,
      le_rendered = [\<lparr>rs_target = \<lparr>tg_message = 1, tg_block = Some 0\<rparr>, rs_block_json = [91]\<rparr>]\<rparr>"
proof -
  obtain leaf where leaf: "fast_lane_leaf lane_serde (lane_body lane_result) lane_pair = Some leaf"
    "lf_content leaf = replicate 300 13" using lane_leaf by blast
  have "provably_uncached lane_pair 0" by (simp add: provably_uncached_def lane_pair_def message_index_def message_id_def parse_usize_dec)
  moreover have "render_fast_lane lane_lib (lane_body lane_result) lane_pair [] =
      Some [\<lparr>rs_target = \<lparr>tg_message = 1, tg_block = Some 0\<rparr>, rs_block_json = [91]\<rparr>]"
    by (simp add: render_fast_lane_def lane_lib_def lane_targets render_proposal_text_def placeholder_block_json_def utf8_width_def)
  ultimately show ?thesis using leaf lane_len lane_clean
    by (simp add: fast_lane_entry_def lane_lib_def lane_inputs_def Let_def FAST_LANE_MAX_LEAF_def)
qed

definition lane_key :: RefId where
  "lane_key = address (lb_sha lane_lib) (segment_payload_bytes lane_pair (lane_body lane_result))"

definition lane_block :: RenderedSegment where
  "lane_block = \<lparr>rs_target = \<lparr>tg_message = 1, tg_block = Some 0\<rparr>, rs_block_json = [91]\<rparr>"

lemma lane_entries: "\<exists>saved. fast_lane_entries lane_lib (lane_body lane_result) [lane_pair, lane_tail]
    (segment_keys lane_lib (lane_body lane_result) [lane_pair, lane_tail]) (lane_inputs committed) =
    [\<lparr>le_key = lane_key, le_fresh = (lane_key \<notin> set committed), le_saved = saved, le_rendered = [lane_block]\<rparr>]"
proof -
  have "fast_lane_entry lane_lib (lane_body lane_result) (lane_inputs committed) lane_tail key = None" for key
  proof -
    have "fast_lane_leaf J body lane_tail = None" for J body by (simp add: fast_lane_leaf_def lane_tail_def)
    then show ?thesis by (simp add: fast_lane_entry_def Let_def)
  qed
  then show ?thesis using lane_entry[of committed lane_key]
    by (auto simp: fast_lane_entries_def segment_keys_def lane_key_def lane_block_def)
qed

lemma lane_splice: "\<exists>sp. splice lane_serde lane_writer [0] (lane_body lane_result) [lane_block] empty_plan = Inr sp \<and> sp_bytes sp = [7]"
  by (simp add: splice_def lane_serde_def lane_writer_def Let_def wanted_hints_def empty_plan_def cap_cache_hints_to_def
      edit_message_def set_hint_def lane_block_def has_hint_raw_def contains.simps hint_literal_def starts_with_def lit_def
      strip_hint_block_def)

lemma lane_validate: "validate lane_serde [7] (lane_body lane_result) = Inr ()"
proof -
  have "check_tool_pairs lane_serde (lane_body [91]) = Inr ()"
    by (simp add: check_tool_pairs_def client_uses_def client_results_def all_blocks_def lane_body_def
        is_client_tool_use_def is_tool_result_def tool_use_id_def lane_serde_def)
  moreover have "check_roles (lane_body lane_result) (lane_body [91]) = Inr ()" by (simp add: check_roles_def lane_body_def)
  moreover have "check_hint_cap [7] = Inr ()"
    by (simp add: check_hint_cap_def count_matches.simps hint_literal_def lit_def CACHE_HINT_CAP_def)
  moreover have "check_shrink (lane_body lane_result) (lane_body [91]) = Inr ()"
  proof -
    have "msg_spans (lane_body r) = [[116], r, [34, 34]]" for r by (simp add: msg_spans_def lane_body_def)
    then show ?thesis using lane_len by (simp add: check_shrink_def utf8_width_def)
  qed
  moreover have "check_thinking [7] (lane_body lane_result) = Inr ()"
    by (simp add: check_thinking_def latest_assistant_thinking_def lane_body_def is_thinking_def)
  moreover have "check_envelope_keys lane_serde [7] (lane_body lane_result) = Inr ()"
    by (simp add: check_envelope_keys_def top_level_keys_def required_keys_def lane_body_def lane_serde_def)
  ultimately show ?thesis by (simp add: validate_def and_then_def lane_parse(2))
qed

lemma lane_nominal: "soft_pressure (max_tokens (lane_body lane_result)) (token_estimate lane_tail) = Nominal"
proof -
  have zero: "f64_of_u32 0 = Fin 0" "fl 0 = Fin 0" by (simp_all add: f64_of_u32_eq)
  have "token_estimate lane_tail = 0" by (simp add: lane_tail_def estimate_chars_proxy_eq)
  moreover have "\<not> flt (fdiv (fmul x (Fin 0)) (fl 2)) (Fin 0)" for x
    using zero by (cases x; cases "fl 2") (auto simp: fmul_def fdiv_def finf_def)
  ultimately show ?thesis by (simp add: soft_pressure_def lane_body_def zero)
qed

lemma lane_run: "run_l2 lane_lib InTime [0] (lane_inputs committed) =
    \<lparr>ic_bytes = [7], ic_predicted_bust = None, ic_committed = (if lane_key \<in> set committed then [] else [lane_key]), ic_uncommitted = []\<rparr>"
proof -
  have lib: "lb_serde lane_lib = lane_serde" "lb_writer lane_lib = lane_writer" by (simp_all add: lane_lib_def)
  have unstaged: "ii_staged (lane_inputs committed) = None" by (simp add: lane_inputs_def)
  obtain saved where lane: "fast_lane_entries lane_lib (lane_body lane_result) [lane_pair, lane_tail]
    (segment_keys lane_lib (lane_body lane_result) [lane_pair, lane_tail]) (lane_inputs committed) =
    [\<lparr>le_key = lane_key, le_fresh = (lane_key \<notin> set committed), le_saved = saved, le_rendered = [lane_block]\<rparr>]"
    using lane_entries by blast
  have "splice_and_gate lane_lib [0] (lane_body lane_result) [lane_block] empty_plan = Some [7]"
    using lane_splice lane_validate by (auto simp: splice_and_gate_def lib)
  then have "intercept lane_lib [0] (lane_inputs committed) = Some \<lparr>ic_bytes = [7], ic_predicted_bust = None,
      ic_committed = (if lane_key \<in> set committed then [] else [lane_key]), ic_uncommitted = []\<rparr>"
    using lane lane_nominal
    by (simp add: intercept_def MAX_INTERCEPT_BYTES_def lib lane_parse lane_segments Let_def unstaged deterministic_compact_def
        finish_def open_lane_def)
  then show ?thesis by (simp add: run_l2_def task_of_def guarded_def)
qed

section \<open>Properties\<close>

text \<open>C1: the interceptor fails open.  Whatever the libraries return, and whether the task returns,
  panics, cannot be joined or overruns its cap, what is forwarded is the request itself, with no
  predicted bust and no change to the commitments, or, for a request of at most four megabytes that
  parses, a splice of that request which passed the validity gate and every block of which replaces a
  squash target of one of its segments.\<close>

theorem interceptor_fails_open:
  "run_l2 L timing bytes inputs = identity bytes \<or>
   (timing = InTime \<and> length bytes \<le> 4194304 \<and> (\<exists>body segs plan sp.
      parse_body (lb_serde L) bytes = Some body \<and> segs \<noteq> [] \<and>
      (\<forall>r \<in> set segs. \<exists>seg \<in> set (segment_prompt (lb_serde L) body).
         \<exists>t \<in> set (squash_targets (lb_serde L) body seg). rs_target r = bt_target t) \<and>
      splice (lb_serde L) (lb_writer L) bytes body segs plan = Inr sp \<and>
      validate (lb_serde L) (sp_bytes sp) body = Inr () \<and> ic_bytes (run_l2 L timing bytes inputs) = sp_bytes sp))"
  (is "_ \<or> ?spliced")
proof (cases "run_l2 L timing bytes inputs = identity bytes")
  case False
  then obtain body where body: "timing = InTime" "length bytes \<le> MAX_INTERCEPT_BYTES" "parse_body (lb_serde L) bytes = Some body"
    and ok: "spliced_ok L bytes body (segment_prompt (lb_serde L) body) (fast_lane_entries L body (segment_prompt (lb_serde L) body)
        (segment_keys L body (segment_prompt (lb_serde L) body)) inputs) (ii_fast_lane inputs) (run_l2 L timing bytes inputs)"
    using run_l2_outcome[of L timing bytes inputs] by (auto simp: Let_def)
  let ?lane = "fast_lane_entries L body (segment_prompt (lb_serde L) body) (segment_keys L body (segment_prompt (lb_serde L) body)) inputs"
  obtain base plan sp where sp: "\<forall>r \<in> set base. from_targets (lb_serde L) body (segment_prompt (lb_serde L) body) r"
    "base @ concat (map le_rendered (open_lane base ?lane)) \<noteq> []"
    "splice (lb_serde L) (lb_writer L) bytes body (base @ concat (map le_rendered (open_lane base ?lane))) plan = Inr sp"
    "validate (lb_serde L) (sp_bytes sp) body = Inr ()" "ic_bytes (run_l2 L timing bytes inputs) = sp_bytes sp"
    using ok unfolding spliced_ok_def Let_def by blast
  have "\<forall>r \<in> set (base @ concat (map le_rendered (open_lane base ?lane))). from_targets (lb_serde L) body (segment_prompt (lb_serde L) body) r"
    using sp(1) lane_from_targets by (fastforce simp: open_lane_def)
  then have "?spliced" using body sp unfolding from_targets_def MAX_INTERCEPT_BYTES_def
    by (intro conjI exI[of _ body] exI[of _ "base @ concat (map le_rendered (open_lane base ?lane))"] exI[of _ plan] exI[of _ sp]) auto
  then show ?thesis ..
qed simp

theorem interceptor_fails_open_witness:
  "ic_bytes (run_l2 lane_lib InTime [0] (lane_inputs [])) = [7] \<and>
   (\<exists>sp :: Spliced. validate lane_serde (sp_bytes sp) (lane_body lane_result) = Inr () \<and> sp_bytes sp = [7])"
proof -
  have "lb_serde lane_lib = lane_serde" by (simp add: lane_lib_def)
  moreover have "run_l2 lane_lib InTime [0] (lane_inputs []) \<noteq> identity [0]" "ic_bytes (run_l2 lane_lib InTime [0] (lane_inputs [])) = [7]"
    using lane_run[of "[]"] by (simp_all add: identity_def)
  ultimately obtain sp :: Spliced where "validate lane_serde (sp_bytes sp) (lane_body lane_result) = Inr ()" "sp_bytes sp = [7]"
    using interceptor_fails_open[of lane_lib InTime "[0]" "lane_inputs []"] lane_parse(1) by auto
  then show ?thesis using \<open>ic_bytes _ = [7]\<close> by blast
qed

text \<open>Fast-lane commitments change on a splice only.  A key is committed only when it was not, the
  window is open, no staged entry covers it, and it is the content address of an unpinned tool pair
  none of whose messages was part of the last forwarded request; and only keys that were committed are
  given up.\<close>

theorem fast_lane_commits_only_uncached_leaves:
  "set (ic_uncommitted (run_l2 L timing bytes inputs)) \<subseteq> set (ii_fast_lane inputs) \<and>
   (\<forall>k \<in> set (ic_committed (run_l2 L timing bytes inputs)). k \<notin> set (ii_fast_lane inputs) \<and> \<not> ii_window_closed inputs \<and>
      (\<forall>p. ii_staged inputs = Some p \<longrightarrow> by_content p k = None) \<and>
      (\<exists>body seg. parse_body (lb_serde L) bytes = Some body \<and> seg \<in> set (segment_prompt (lb_serde L) body) \<and>
         k = address (lb_sha L) (segment_payload_bytes seg body) \<and> kind seg = ToolPair \<and> \<not> pinned seg \<and> \<not> is_true_human seg \<and>
         provably_uncached seg (ii_last_message_count inputs)))"
proof (rule conjI[OF uncommitted_were_committed], rule ballI)
  fix k
  assume "k \<in> set (ic_committed (run_l2 L timing bytes inputs))"
  then show "k \<notin> set (ii_fast_lane inputs) \<and> \<not> ii_window_closed inputs \<and> (\<forall>p. ii_staged inputs = Some p \<longrightarrow> by_content p k = None) \<and>
      (\<exists>body seg. parse_body (lb_serde L) bytes = Some body \<and> seg \<in> set (segment_prompt (lb_serde L) body) \<and>
         k = address (lb_sha L) (segment_payload_bytes seg body) \<and> kind seg = ToolPair \<and> \<not> pinned seg \<and> \<not> is_true_human seg \<and>
         provably_uncached seg (ii_last_message_count inputs))"
    by (rule committed_leaf)
qed

theorem fast_lane_commits_only_uncached_leaves_witness:
  "ic_committed (run_l2 lane_lib InTime [0] (lane_inputs [])) = [lane_key] \<and>
   (\<exists>seg \<in> set (segment_prompt lane_serde (lane_body lane_result)). provably_uncached seg 0)"
  using fast_lane_commits_only_uncached_leaves[of lane_lib InTime "[0]" "lane_inputs []"] lane_run[of "[]"]
  by (auto simp: lane_lib_def lane_parse lane_inputs_def)

text \<open>C32: a committed leaf keeps its bytes.  Whatever a fast-lane entry of one turn rendered is rendered
  again, block for block, in every later turn in which its key is committed and the conversation has
  only grown, whatever has become of the economics, the window and the staged plan.\<close>

theorem committed_leaves_render_identically:
  fixes body extra
  defines "grown \<equiv> body\<lparr>messages := messages body @ extra\<rparr>"
  assumes "length (messages body @ extra) \<le> 2 ^ 64"
    and "e \<in> set (fast_lane_entries L body (segment_prompt (lb_serde L) body) (segment_keys L body (segment_prompt (lb_serde L) body)) inputs)"
    and "le_key e \<in> set (ii_fast_lane inputs')"
  shows "\<exists>e' \<in> set (fast_lane_entries L grown (segment_prompt (lb_serde L) grown) (segment_keys L grown (segment_prompt (lb_serde L) grown)) inputs').
    le_key e' = le_key e \<and> le_rendered e' = le_rendered e \<and> \<not> le_fresh e'"
proof -
  let ?J = "lb_serde L"
  from assms(3) obtain seg key where seg: "(seg, key) \<in> set (zip (segment_prompt ?J body) (segment_keys L body (segment_prompt ?J body)))"
    "fast_lane_entry L body inputs seg key = Some e" by (rule fast_lane_entries_Some)
  have s: "seg \<in> set (segment_prompt ?J body)" "key = address (lb_sha L) (segment_payload_bytes seg body)"
    using seg(1) by (auto simp: segment_keys_def set_zip)
  obtain leaf where "fast_lane_leaf ?J body seg = Some leaf" using fast_lane_entry_Some(5)[OF seg(2)] by blast
  then have "seg \<in> set (butlast (segment_prompt ?J body))" using lane_segment(4)[OF _ s(1)] by simp
  then have new: "seg \<in> set (segment_prompt ?J grown)"
    unfolding grown_def using segment_prompt_append[of ?J body extra] by auto
  have key: "key = address (lb_sha L) (segment_payload_bytes seg grown)"
    using source_messages_append[OF s(1) assms(2)] s(2) by (simp add: segment_payload_bytes_def grown_def)
  then have "(seg, key) \<in> set (zip (segment_prompt ?J grown) (segment_keys L grown (segment_prompt ?J grown)))"
    using new by (auto simp: segment_keys_def set_zip in_set_conv_nth)
  moreover have "fast_lane_entry L grown inputs' seg key = Some (e\<lparr>le_fresh := False\<rparr>)"
    unfolding grown_def using fast_lane_entry_again[OF seg(2) s(1)] assms(4) fast_lane_entry_Some(1)[OF seg(2)] by simp
  ultimately have "e\<lparr>le_fresh := False\<rparr> \<in> set (fast_lane_entries L grown (segment_prompt ?J grown) (segment_keys L grown (segment_prompt ?J grown)) inputs')"
    by (force simp: fast_lane_entries_def set_filter_map)
  then show ?thesis by (rule bexI[rotated]) simp
qed

theorem committed_leaves_render_identically_witness:
  "\<exists>e' \<in> set (fast_lane_entries lane_lib (lane_body lane_result\<lparr>messages := messages (lane_body lane_result) @ []\<rparr>)
      (segment_prompt lane_serde (lane_body lane_result\<lparr>messages := messages (lane_body lane_result) @ []\<rparr>))
      (segment_keys lane_lib (lane_body lane_result\<lparr>messages := messages (lane_body lane_result) @ []\<rparr>)
        (segment_prompt lane_serde (lane_body lane_result\<lparr>messages := messages (lane_body lane_result) @ []\<rparr>)))
      (lane_inputs [lane_key]\<lparr>ii_window_closed := True\<rparr>)).
     le_key e' = lane_key \<and> le_rendered e' = [lane_block]"
proof -
  obtain saved where e: "\<lparr>le_key = lane_key, le_fresh = True, le_saved = saved, le_rendered = [lane_block]\<rparr> \<in>
      set (fast_lane_entries lane_lib (lane_body lane_result) (segment_prompt lane_serde (lane_body lane_result))
        (segment_keys lane_lib (lane_body lane_result) (segment_prompt lane_serde (lane_body lane_result))) (lane_inputs []))"
    using lane_entries[of "[]"] unfolding lane_segments by auto
  have lib: "lb_serde lane_lib = lane_serde" by (simp add: lane_lib_def)
  have "length (messages (lane_body lane_result) @ []) \<le> 2 ^ 64" by (simp add: lane_body_def)
  from committed_leaves_render_identically[of "lane_body lane_result" "[]" _ lane_lib "lane_inputs []"
      "lane_inputs [lane_key]\<lparr>ii_window_closed := True\<rparr>", unfolded lib, OF this e]
  show ?thesis by (auto simp: lane_inputs_def)
qed

text \<open>C33: the fast lane needs three new messages.  A leaf is committed only if the request has at least
  three messages more than the last one forwarded: a tool pair is two messages, and as the last segment
  it would be pinned.  A turn that appends one assistant message and its tool results commits nothing.\<close>

theorem fresh_lane_needs_three_new_messages:
  assumes "ic_committed (run_l2 L timing bytes inputs) \<noteq> []"
  shows "\<exists>body. parse_body (lb_serde L) bytes = Some body \<and> ii_last_message_count inputs + 3 \<le> length (messages body)"
proof -
  have "run_l2 L timing bytes inputs \<noteq> identity bytes" using assms by (auto simp: identity_def)
  then obtain body where body: "parse_body (lb_serde L) bytes = Some body"
    and ok: "spliced_ok L bytes body (segment_prompt (lb_serde L) body) (fast_lane_entries L body (segment_prompt (lb_serde L) body)
        (segment_keys L body (segment_prompt (lb_serde L) body)) inputs) (ii_fast_lane inputs) (run_l2 L timing bytes inputs)"
    using run_l2_outcome[of L timing bytes inputs] by (auto simp: Let_def)
  obtain e where e: "e \<in> set (fast_lane_entries L body (segment_prompt (lb_serde L) body) (segment_keys L body (segment_prompt (lb_serde L) body)) inputs)"
    "le_fresh e"
    using ok assms by (auto simp: spliced_ok_def Let_def open_lane_def filter_empty_conv)
  from e(1) obtain seg key where seg: "(seg, key) \<in> set (zip (segment_prompt (lb_serde L) body) (segment_keys L body (segment_prompt (lb_serde L) body)))"
    "fast_lane_entry L body inputs seg key = Some e" by (rule fast_lane_entries_Some)
  have s: "seg \<in> set (segment_prompt (lb_serde L) body)" using seg(1) by (rule set_zip_leftD)
  obtain leaf where "fast_lane_leaf (lb_serde L) body seg = Some leaf" using fast_lane_entry_Some(5)[OF seg(2)] by blast
  then obtain k where k: "source_uuids seg = [message_id k, message_id (k + 1)]" "k + 2 < length (messages body)"
    using unpinned_pair_followed[OF s] lane_segment(1,2)[OF _ s] by blast
  have "ii_last_message_count inputs \<le> k"
    using fast_lane_entry_Some(6)[OF seg(2) e(2)] message_index_id[of k]
    by (auto simp: provably_uncached_def k(1) split: option.splits)
  then show ?thesis using body k(2) by auto
qed

theorem fresh_lane_needs_three_new_messages_witness:
  "ii_last_message_count (lane_inputs []) + 3 \<le> length (messages (lane_body lane_result))"
  using fresh_lane_needs_three_new_messages[of lane_lib InTime "[0]" "lane_inputs []"] lane_run[of "[]"]
  by (simp add: lane_lib_def lane_parse)

end
