(* ===== verification/Summarizer.thy ===== *)
theory Summarizer
  imports Rewrite Store Prompts
begin

text \<open>
  The off-path summarizer \<^verbatim>\<open>ccs-summarizer\<close>: the client and its retries
  (\<^verbatim>\<open>client.rs\<close>), the per-segment decision (\<^verbatim>\<open>decision.rs\<close>) and the
  fold of the working state (\<^verbatim>\<open>folder.rs\<close>).

  The upstream is a parameter: what it answers to the \<open>n\<close>-th attempt of a request, and whether the
  time limit of the call runs out first.  The JSON readers of the replies and the printer are
  parameters too (record \<open>agent_json\<close>).
\<close>

section \<open>The client\<close>

definition SUMMARIZER_MODEL :: str where "SUMMARIZER_MODEL = lit ''claude-sonnet-4-6''"

definition MESSAGES_PATH :: str where "MESSAGES_PATH = lit ''v1/messages''"

definition RETRY_BACKOFFS :: "nat list" where "RETRY_BACKOFFS = [2, 8]"

datatype SummarizerError = Request | Status nat | Decode | Timeout

record SessionAuthContext =
  ac_headers :: "(str \<times> str) list"
  ac_upstream :: str

text \<open>A request as it leaves the client; a reply, whose \<open>retry-after\<close> header is its text when it is
  visible ASCII, and whose body may fail to arrive.\<close>

record HttpRequest =
  hq_base :: str
  hq_path :: str
  hq_headers :: "(str \<times> str) list"
  hq_body :: "nat list"

record HttpResponse =
  hr_status :: nat
  hr_retry_after :: "str option"
  hr_body :: "nat list option"

type_synonym upstream = "HttpRequest \<Rightarrow> nat \<Rightarrow> HttpResponse option"

record agent_json =
  aj_print :: "Value \<Rightarrow> str"
  aj_texts :: "nat list \<Rightarrow> str list option"
  aj_decision :: "str \<Rightarrow> ContentDecision option"
  aj_working :: "str \<Rightarrow> WorkingState option"
  aj_working_pretty :: "WorkingState \<Rightarrow> str option"

definition is_rate_limited :: "nat \<Rightarrow> bool" where
  "is_rate_limited status = (status = 429 \<or> status = 529)"

definition retry_after :: "HttpResponse \<Rightarrow> nat option" where
  "retry_after response = Option.bind (hr_retry_after response) parse_usize"

definition extract_text :: "agent_json \<Rightarrow> nat list \<Rightarrow> SummarizerError + str" where
  "extract_text A body = (case aj_texts A body of None \<Rightarrow> Inl Decode | Some texts \<Rightarrow> Inr (concat texts))"

text \<open>\<^verbatim>\<open>error_for_status\<close> refuses the client and server errors, 400 to 599.\<close>

definition finish_response :: "agent_json \<Rightarrow> HttpResponse \<Rightarrow> SummarizerError + str" where
  "finish_response A response =
     (if 400 \<le> hr_status response \<and> hr_status response \<le> 599 then Inl (Status (hr_status response))
      else case hr_body response of None \<Rightarrow> Inl Request | Some bytes \<Rightarrow> extract_text A bytes)"

definition post_once :: "SessionAuthContext \<Rightarrow> nat list \<Rightarrow> HttpRequest" where
  "post_once ctx body =
     \<lparr>hq_base = ac_upstream ctx, hq_path = MESSAGES_PATH,
      hq_headers = ac_headers ctx @ [(lit ''content-type'', lit ''application/json'')], hq_body = body\<rparr>"

text \<open>The attempts from the \<open>n\<close>-th on, with the pauses slept between them.\<close>

fun send_with_retries :: "agent_json \<Rightarrow> (nat \<Rightarrow> HttpResponse option) \<Rightarrow> nat \<Rightarrow> nat list \<Rightarrow> nat list \<times> (SummarizerError + str)" where
  "send_with_retries A post n backoffs = (case post n of
      None \<Rightarrow> ([], Inl Request)
    | Some response \<Rightarrow> (case backoffs of
          [] \<Rightarrow> ([], finish_response A response)
        | backoff # rest \<Rightarrow>
            if is_rate_limited (hr_status response)
            then apfst ((#) (case retry_after response of None \<Rightarrow> backoff | Some s \<Rightarrow> s)) (send_with_retries A post (n + 1) rest)
            else ([], finish_response A response)))"

declare send_with_retries.simps [simp del]

definition request_body :: "agent_json \<Rightarrow> Prompt \<Rightarrow> str \<Rightarrow> u32 \<Rightarrow> nat list" where
  "request_body A system user limit =
     utf8 (aj_print A (VObject [(lit ''model'', VString SUMMARIZER_MODEL),
       (lit ''max_tokens'', VNumber (dec (unat limit))),
       (lit ''system'', VString (prompt_text system)),
       (lit ''messages'', VArray [VObject [(lit ''role'', VString (lit ''user'')), (lit ''content'', VString user)]])]))"

type_synonym client = "Prompt \<Rightarrow> str \<Rightarrow> u32 \<Rightarrow> SummarizerError + str"

definition call :: "agent_json \<Rightarrow> upstream \<Rightarrow> bool \<Rightarrow> SessionAuthContext \<Rightarrow> client" where
  "call A up elapsed ctx system user limit =
     (if elapsed then Inl Timeout
      else snd (send_with_retries A (up (post_once ctx (request_body A system user limit))) 0 RETRY_BACKOFFS))"

section \<open>Decisions\<close>

definition DECISION_MAX_TOKENS :: u32 where "DECISION_MAX_TOKENS = 10240"

datatype AgentError = Call SummarizerError | NoJson | Parse

definition keep :: ContentDecision where
  "keep = \<lparr>choice = Keep, ranges_to_keep = [], summary_content = None\<rparr>"

definition decision_user_message :: "str \<Rightarrow> str list \<Rightarrow> str" where
  "decision_user_message content_text salience_tags =
     lit ''<salience_tags>'' @ join_with (lit '', '') salience_tags @ lit ''</salience_tags>'' @ [10] @
     lit ''<content_to_analyze>'' @ [10] @ content_text @ [10] @ lit ''</content_to_analyze>''"

text \<open>\<^verbatim>\<open>find\<close> and \<^verbatim>\<open>rfind\<close> of a character, as indices into the characters.\<close>

definition find_char :: "nat \<Rightarrow> str \<Rightarrow> nat option" where
  "find_char c s = (if c \<in> set s then Some (length (takeWhile (\<lambda>x. x \<noteq> c) s)) else None)"

definition rfind_char :: "nat \<Rightarrow> str \<Rightarrow> nat option" where
  "rfind_char c s = (if c \<in> set s then Some (length s - 1 - length (takeWhile (\<lambda>x. x \<noteq> c) (rev s))) else None)"

definition extract_json :: "str \<Rightarrow> AgentError + str" where
  "extract_json s = (case (find_char 123 s, rfind_char 125 s) of
      (Some start, Some stop) \<Rightarrow> if start \<le> stop then Inr (take (stop + 1 - start) (drop start s)) else Inl NoJson
    | _ \<Rightarrow> Inl NoJson)"

definition decision_query :: "agent_json \<Rightarrow> client \<Rightarrow> str \<Rightarrow> str list \<Rightarrow> nat \<Rightarrow> PolicyConfig \<Rightarrow> AgentError + ContentDecision" where
  "decision_query A client content_text salience_tags len cfg =
     (case client DECISION_SYSTEM (decision_user_message content_text salience_tags) DECISION_MAX_TOKENS of
        Inl e \<Rightarrow> Inl (Call e)
      | Inr reply \<Rightarrow> (case extract_json reply of
            Inl e \<Rightarrow> Inl e
          | Inr json \<Rightarrow> (case aj_decision A json of
                None \<Rightarrow> Inl Parse
              | Some parsed \<Rightarrow>
                  let decision = normalize parsed
                  in Inr (if pre_gate decision len cfg = Some SKeep then keep else decision))))"

definition decide_content :: "agent_json \<Rightarrow> client \<Rightarrow> str \<Rightarrow> str list \<Rightarrow> PolicyConfig \<Rightarrow> ContentDecision" where
  "decide_content A client content_text salience_tags cfg =
     (let len = length content_text in
      if len < pre_gate_min_chars cfg then keep
      else case decision_query A client content_text salience_tags len cfg of Inr decision \<Rightarrow> decision | Inl _ \<Rightarrow> keep)"

section \<open>The working state\<close>

definition FOLD_MAX_TOKENS :: u32 where "FOLD_MAX_TOKENS = 16384"

definition fold_user_message :: "agent_json \<Rightarrow> WorkingState \<Rightarrow> str \<Rightarrow> str" where
  "fold_user_message A prev new_turns =
     lit ''<previous_working_state>'' @ [10] @ (case aj_working_pretty A prev of None \<Rightarrow> [] | Some s \<Rightarrow> s) @ [10] @
     lit ''</previous_working_state>'' @ [10] @ lit ''<new_turns>'' @ [10] @ new_turns @ [10] @ lit ''</new_turns>''"

definition fold_query :: "agent_json \<Rightarrow> client \<Rightarrow> WorkingState \<Rightarrow> str \<Rightarrow> AgentError + WorkingState" where
  "fold_query A client prev new_turns =
     (case client WORKING_STATE_SYSTEM (fold_user_message A prev new_turns) FOLD_MAX_TOKENS of
        Inl e \<Rightarrow> Inl (Call e)
      | Inr reply \<Rightarrow> (case extract_json reply of
            Inl e \<Rightarrow> Inl e
          | Inr json \<Rightarrow> (case aj_working A json of None \<Rightarrow> Inl Parse | Some state \<Rightarrow> Inr state)))"

definition fold_working :: "agent_json \<Rightarrow> client \<Rightarrow> WorkingState \<Rightarrow> str \<Rightarrow> WorkingState" where
  "fold_working A client prev new_turns = (case fold_query A client prev new_turns of Inr state \<Rightarrow> state | Inl _ \<Rightarrow> prev)"

section \<open>Slicing and retrying\<close>

lemma takeWhile_not_in: "c \<notin> set a \<Longrightarrow> takeWhile (\<lambda>x. x \<noteq> c) a = a"
  by (induction a) auto

lemma find_char_append: "c \<notin> set a \<Longrightarrow> find_char c (a @ c # b) = Some (length a)"
  by (simp add: find_char_def takeWhile_tail takeWhile_not_in)

lemma rfind_char_append: "c \<notin> set b \<Longrightarrow> rfind_char c (a @ c # b) = Some (length a)"
  by (simp add: rfind_char_def takeWhile_tail takeWhile_not_in)

lemma extract_json_between:
  assumes "123 \<notin> set a" "125 \<notin> set c"
  shows "extract_json (a @ [123] @ b @ [125] @ c) = Inr ([123] @ b @ [125])"
proof -
  have "find_char 123 (a @ [123] @ b @ [125] @ c) = Some (length a)"
    using find_char_append[OF assms(1), of "b @ [125] @ c"] by simp
  moreover have "rfind_char 125 (a @ [123] @ b @ [125] @ c) = Some (length a + 1 + length b)"
    using rfind_char_append[OF assms(2), of "a @ [123] @ b"] by simp
  ultimately show ?thesis by (simp add: extract_json_def)
qed

lemma extract_json_Inr:
  assumes "extract_json s = Inr json"
  obtains a b c where "s = a @ json @ c" "json = [123] @ b @ [125]" "123 \<notin> set a" "125 \<notin> set c"
proof -
  obtain start stop where st: "find_char 123 s = Some start" "rfind_char 125 s = Some stop" "start \<le> stop"
    using assms by (auto simp: extract_json_def split: option.splits if_splits)
  have "123 \<in> set s" "125 \<in> set s" using st by (auto simp: find_char_def rfind_char_def split: if_splits)
  then obtain a r where a: "s = a @ 123 # r" "123 \<notin> set a" using split_list_first by metis
  from \<open>125 \<in> set s\<close> obtain l c where c: "s = l @ 125 # c" "125 \<notin> set c" using split_list_last by metis
  have len: "start = length a" "stop = length l" using st find_char_append[OF a(2), of r] rfind_char_append[OF c(2), of l] a(1) c(1) by simp_all
  have "length a \<noteq> length l"
  proof
    assume "length a = length l"
    then show False using a(1) c(1) by (metis append_eq_append_conv list.inject numeral_eq_iff semiring_norm(89,90,92))
  qed
  then have "length a < length l" using st(3) len by simp
  then obtain b where "l = a @ 123 # b"
    using a(1) c(1) by (auto simp: append_eq_append_conv2 Cons_eq_append_conv append_eq_Cons_conv)
  then have s: "s = a @ [123] @ b @ [125] @ c" using c(1) by simp
  then have "json = [123] @ b @ [125]" using assms extract_json_between[OF a(2) c(2), of b] by simp
  then show ?thesis using s a(2) c(2) by (intro that[of a c b]) simp_all
qed

lemma send_with_retries_pauses: "length (fst (send_with_retries A post n backoffs)) \<le> length backoffs"
proof (induction backoffs arbitrary: n)
  case Nil
  then show ?case by (subst send_with_retries.simps) (simp split: option.split)
next
  case (Cons b bs)
  then show ?case by (subst send_with_retries.simps) (simp split: option.split)
qed

lemma decide_content_cases:
  "decide_content A client t tags cfg = keep \<or>
   (pre_gate_min_chars cfg \<le> length t \<and> (\<exists>reply json parsed.
      client DECISION_SYSTEM (decision_user_message t tags) DECISION_MAX_TOKENS = Inr reply \<and>
      extract_json reply = Inr json \<and> aj_decision A json = Some parsed \<and>
      pre_gate (normalize parsed) (length t) cfg \<noteq> Some SKeep \<and> decide_content A client t tags cfg = normalize parsed))"
  by (auto simp: decide_content_def decision_query_def Let_def split: sum.splits option.splits)

lemma normalized_summary:
  assumes "pre_gate (normalize d) n cfg \<noteq> Some SKeep" "choice (normalize d) = Summarize"
  shows "\<exists>s. summary_content (normalize d) = Some s \<and> s \<noteq> [] \<and> length s \<le> n"
  using assms normalize_consistent[of d] by (auto simp: pre_gate_def consistent_def split: if_splits option.splits)

section \<open>Properties\<close>

text \<open>C34: the summarizer fails safe.  A decision is \<open>keep\<close>, or the normalized decision parsed from the
  part of the reply that runs from its first opening to its last closing brace, for a segment the gate
  lets through, and a chosen summary is not empty and not longer than the segment.  A failed call, a
  reply without an object and one that does not parse keep the segment, and keep the working state
  as it was.  A request is attempted three times at most.\<close>

theorem summarizer_fails_safe:
  "consistent (decide_content A client t tags cfg) \<and>
   (decide_content A client t tags cfg \<noteq> keep \<longrightarrow> pre_gate_min_chars cfg \<le> length t \<and>
      (\<exists>a b c parsed. client DECISION_SYSTEM (decision_user_message t tags) 10240 = Inr (a @ [123] @ b @ [125] @ c) \<and>
         123 \<notin> set a \<and> 125 \<notin> set c \<and> aj_decision A ([123] @ b @ [125]) = Some parsed \<and>
         decide_content A client t tags cfg = normalize parsed)) \<and>
   (choice (decide_content A client t tags cfg) = Summarize \<longrightarrow>
      (\<exists>s. summary_content (decide_content A client t tags cfg) = Some s \<and> s \<noteq> [] \<and> length s \<le> length t)) \<and>
   (fold_working A client prev turns \<noteq> prev \<longrightarrow>
      (\<exists>a b c. client WORKING_STATE_SYSTEM (fold_user_message A prev turns) 16384 = Inr (a @ [123] @ b @ [125] @ c) \<and>
         aj_working A ([123] @ b @ [125]) = Some (fold_working A client prev turns))) \<and>
   length (fst (send_with_retries A post 0 RETRY_BACKOFFS)) \<le> 2"
proof (intro conjI impI)
  let ?d = "decide_content A client t tags cfg"
  have keep_ok: "consistent keep" "choice keep \<noteq> Summarize" by (simp_all add: keep_def consistent_def)
  show "consistent ?d" using decide_content_cases[of A client t tags cfg] keep_ok(1) normalize_consistent by metis
  show "length (fst (send_with_retries A post 0 RETRY_BACKOFFS)) \<le> 2"
    using send_with_retries_pauses[of A post 0 RETRY_BACKOFFS] by (simp add: RETRY_BACKOFFS_def)
  show "pre_gate_min_chars cfg \<le> length t" if "?d \<noteq> keep" using decide_content_cases[of A client t tags cfg] that by blast
  show "\<exists>a b c parsed. client DECISION_SYSTEM (decision_user_message t tags) 10240 = Inr (a @ [123] @ b @ [125] @ c) \<and>
         123 \<notin> set a \<and> 125 \<notin> set c \<and> aj_decision A ([123] @ b @ [125]) = Some parsed \<and> ?d = normalize parsed" if d: "?d \<noteq> keep"
  proof -
    obtain reply json parsed where r: "client DECISION_SYSTEM (decision_user_message t tags) DECISION_MAX_TOKENS = Inr reply"
      "extract_json reply = Inr json" "aj_decision A json = Some parsed" "?d = normalize parsed"
      using decide_content_cases[of A client t tags cfg] d by blast
    from r(2) obtain a b c where "reply = a @ json @ c" "json = [123] @ b @ [125]" "123 \<notin> set a" "125 \<notin> set c"
      by (rule extract_json_Inr)
    then show ?thesis using r unfolding DECISION_MAX_TOKENS_def by auto
  qed
  show "\<exists>s. summary_content ?d = Some s \<and> s \<noteq> [] \<and> length s \<le> length t" if "choice ?d = Summarize"
    using decide_content_cases[of A client t tags cfg] normalized_summary keep_ok(2) that by metis
  show "\<exists>a b c. client WORKING_STATE_SYSTEM (fold_user_message A prev turns) 16384 = Inr (a @ [123] @ b @ [125] @ c) \<and>
         aj_working A ([123] @ b @ [125]) = Some (fold_working A client prev turns)" if f: "fold_working A client prev turns \<noteq> prev"
  proof -
    obtain reply json where r: "client WORKING_STATE_SYSTEM (fold_user_message A prev turns) FOLD_MAX_TOKENS = Inr reply"
      "extract_json reply = Inr json" "aj_working A json = Some (fold_working A client prev turns)"
      using f by (auto simp: fold_working_def fold_query_def split: sum.splits option.splits)
    from r(2) obtain a b c where "reply = a @ json @ c" "json = [123] @ b @ [125]" by (rule extract_json_Inr)
    then show ?thesis using r unfolding FOLD_MAX_TOKENS_def by auto
  qed
qed

definition demo_agent :: agent_json where
  "demo_agent = \<lparr>aj_print = \<lambda>_. [], aj_texts = \<lambda>b. Some [b],
     aj_decision = \<lambda>s. if s = lit ''{}'' then Some \<lparr>choice = Compress, ranges_to_keep = [], summary_content = None\<rparr> else None,
     aj_working = \<lambda>_. None, aj_working_pretty = \<lambda>_. None\<rparr>"

text \<open>An upstream that refuses twice and then answers with prose around an object.\<close>

definition demo_upstream :: upstream where
  "demo_upstream q n =
     (if n < 2 then Some \<lparr>hr_status = 429, hr_retry_after = None, hr_body = None\<rparr>
      else Some \<lparr>hr_status = 200, hr_retry_after = None, hr_body = Some (lit ''ok {} done'')\<rparr>)"

definition demo_client :: client where
  "demo_client = call demo_agent demo_upstream False \<lparr>ac_headers = [], ac_upstream = []\<rparr>"

lemma demo_client_reply: "demo_client p u n = Inr (lit ''ok {} done'')"
  by (simp add: demo_client_def call_def RETRY_BACKOFFS_def send_with_retries.simps demo_upstream_def is_rate_limited_def
      finish_response_def extract_text_def demo_agent_def numeral_2_eq_2)

theorem summarizer_fails_safe_witness:
  "choice (decide_content demo_agent demo_client (replicate 300 97) [] PolicyConfig_default) = Compress \<and>
   (\<exists>a b c. demo_client DECISION_SYSTEM (decision_user_message (replicate 300 97) []) 10240 = Inr (a @ [123] @ b @ [125] @ c))"
proof -
  have "extract_json (lit ''ok {} done'') = Inr (lit ''{}'')"
    using extract_json_between[of "lit ''ok ''" "lit '' done''" "[]"] by (simp add: lit_def)
  then have d: "decide_content demo_agent demo_client (replicate 300 97) [] PolicyConfig_default =
      \<lparr>choice = Compress, ranges_to_keep = [], summary_content = None\<rparr>"
    by (simp add: decide_content_def decision_query_def demo_client_reply PolicyConfig_default_def PRE_GATE_MIN_CHARS_def
        demo_agent_def normalize_def pre_gate_def Let_def)
  then have "decide_content demo_agent demo_client (replicate 300 97) [] PolicyConfig_default \<noteq> keep" by (simp add: keep_def)
  moreover note summarizer_fails_safe[of demo_agent demo_client "replicate 300 97" "[]" PolicyConfig_default WorkingState_default "[]" "\<lambda>_. None"]
  ultimately show ?thesis using d by (simp only: ContentDecision.select_convs) blast
qed

end
