(* ===== verification/Session.thy ===== *)
theory Session
  imports Intercept Summarizer
begin

text \<open>
  The knobs of a session (\<^verbatim>\<open>ccs-proxy/src/config.rs\<close>) and its economics state
  (\<^verbatim>\<open>session.rs\<close>): the cache model, the calibration of the token estimates and the
  circuit breaker, folded from every usage observation.

  The breaker is the library's state machine, a parameter: \<open>fs_call F ok t b\<close> is the breaker
  after a call at instant \<open>t\<close> whose closure returns \<open>Ok\<close> or \<open>Err\<close>, and \<open>fs_permitted F t b\<close>
  its answer to \<^verbatim>\<open>is_call_permitted\<close> with the breaker it leaves.
\<close>

section \<open>Configuration\<close>

record EconomicsKnobs =
  ek_npv_floor :: f64
  ek_ttl_auto_s :: f64
  ek_ttl_forced_s :: f64

definition EconomicsKnobs_default :: EconomicsKnobs where
  "EconomicsKnobs_default = \<lparr>ek_npv_floor = npv_floor EconomicsConfig_default,
     ek_ttl_auto_s = ttl_auto_s EconomicsConfig_default, ek_ttl_forced_s = ttl_forced_s EconomicsConfig_default\<rparr>"

definition economics_config :: "EconomicsKnobs \<Rightarrow> EconomicsConfig" where
  "economics_config k = \<lparr>ttl_auto_s = ek_ttl_auto_s k, ttl_forced_s = ek_ttl_forced_s k, npv_floor = ek_npv_floor k\<rparr>"

record PolicyKnobs =
  pk_recency_window_n :: nat
  pk_human_verbatim_max :: nat
  pk_pre_gate_min_chars :: nat
  pk_cache_hint_cap :: nat
  pk_lookback_positions :: nat

definition PolicyKnobs_default :: PolicyKnobs where
  "PolicyKnobs_default = \<lparr>pk_recency_window_n = recency_window_n PolicyConfig_default,
     pk_human_verbatim_max = human_verbatim_max PolicyConfig_default,
     pk_pre_gate_min_chars = pre_gate_min_chars PolicyConfig_default,
     pk_cache_hint_cap = cache_hint_cap PolicyConfig_default,
     pk_lookback_positions = lookback_positions PolicyConfig_default\<rparr>"

definition policy_config :: "PolicyKnobs \<Rightarrow> PolicyConfig" where
  "policy_config k = PolicyConfig_default\<lparr>recency_window_n := pk_recency_window_n k,
     human_verbatim_max := pk_human_verbatim_max k, pre_gate_min_chars := pk_pre_gate_min_chars k,
     cache_hint_cap := pk_cache_hint_cap k, lookback_positions := pk_lookback_positions k\<rparr>"

record RelayConfig =
  rc_economics :: EconomicsKnobs
  rc_policy :: PolicyKnobs

definition RelayConfig_default :: RelayConfig where
  "RelayConfig_default = \<lparr>rc_economics = EconomicsKnobs_default, rc_policy = PolicyKnobs_default\<rparr>"

section \<open>Session state\<close>

definition WARMUP_TURNS :: nat where "WARMUP_TURNS = 2"

definition INITIAL_REMAINING_TURNS :: f64 where "INITIAL_REMAINING_TURNS = fl 4"

definition REMAINING_TURNS_ALPHA :: f64 where "REMAINING_TURNS_ALPHA = fl (3 / 10)"

definition BUST_OVERRUN_FACTOR :: f64 where "BUST_OVERRUN_FACTOR = fl 4"

record 'b failsafe =
  fs_new :: 'b
  fs_call :: "bool \<Rightarrow> nat \<Rightarrow> 'b \<Rightarrow> 'b"
  fs_permitted :: "nat \<Rightarrow> 'b \<Rightarrow> bool \<times> 'b"

record 'b SessionEcon =
  sx_cache :: CacheState
  sx_turn :: nat
  sx_auth :: SessionAuthContext
  sx_working :: WorkingState
  sx_staged :: "StagedPlan option"
  sx_staging :: bool
  sx_intercept_enabled :: bool
  sx_econ :: "ModelEconomics option"
  sx_npv_floor :: f64
  sx_policy :: PolicyConfig
  sx_remaining_turns :: f64
  sx_hot_refs :: "RefId list"
  sx_fast_lane :: "RefId list"
  sx_last_message_count :: nat
  sx_window_closed :: bool
  sx_last_predicted_bust :: "Cost option"
  sx_token_scale :: TokenScale
  sx_last_estimated_prefix :: "TokenCount option"
  sx_breaker :: 'b

definition SessionEcon_new ::
  "'b failsafe \<Rightarrow> CacheState \<Rightarrow> SessionAuthContext \<Rightarrow> f64 \<Rightarrow> PolicyConfig \<Rightarrow> 'b SessionEcon" where
  "SessionEcon_new F cache auth bar knobs =
     \<lparr>sx_cache = cache, sx_turn = 0, sx_auth = auth, sx_working = WorkingState_default, sx_staged = None,
      sx_staging = False, sx_intercept_enabled = True, sx_econ = economics_for (cs_model cache), sx_npv_floor = bar,
      sx_policy = knobs, sx_remaining_turns = INITIAL_REMAINING_TURNS, sx_hot_refs = [], sx_fast_lane = [],
      sx_last_message_count = 0, sx_window_closed = True, sx_last_predicted_bust = None,
      sx_token_scale = TokenScale_default, sx_last_estimated_prefix = None, sx_breaker = fs_new F\<rparr>"

definition calibrate :: "CacheUsage \<Rightarrow> 'b SessionEcon \<Rightarrow> 'b SessionEcon" where
  "calibrate usage s = (case sx_last_estimated_prefix s of
      None \<Rightarrow> s
    | Some estimated \<Rightarrow>
        s\<lparr>sx_last_estimated_prefix := None,
          sx_token_scale := TokenScale_fold (sx_token_scale s)
            (f64_of_u32 (cache_read_input_tokens usage + cache_creation_input_tokens usage + input_tokens usage))
            (f64_of_u32 estimated)\<rparr>)"

definition overran_prediction :: "CacheUsage \<Rightarrow> 'b SessionEcon \<Rightarrow> bool" where
  "overran_prediction usage s = (case sx_last_predicted_bust s of
      None \<Rightarrow> False
    | Some predicted \<Rightarrow> flt (fmul BUST_OVERRUN_FACTOR (f64_of_u32 (cost_tokens predicted)))
                         (f64_of_u32 (cache_creation_input_tokens usage)))"

definition run_breaker :: "'b failsafe \<Rightarrow> nat \<Rightarrow> CacheUsage \<Rightarrow> 'b SessionEcon \<Rightarrow> 'b SessionEcon" where
  "run_breaker F t usage s =
     (let cold = (cache_creation_input_tokens usage = 0 \<and> cache_read_input_tokens usage = 0);
          failed = (WARMUP_TURNS \<le> sx_turn s \<and> (cold \<or> overran_prediction usage s));
          (permitted, breaker) = fs_permitted F t (fs_call F (\<not> failed) t (sx_breaker s))
      in s\<lparr>sx_last_predicted_bust := None, sx_breaker := breaker, sx_intercept_enabled := permitted\<rparr>)"

definition observe :: "'b failsafe \<Rightarrow> nat \<Rightarrow> CacheUsage \<Rightarrow> f64 \<Rightarrow> 'b SessionEcon \<Rightarrow> 'b SessionEcon" where
  "observe F t usage now s =
     (let turn = sx_turn s + 1 in
      run_breaker F t usage (calibrate usage
        (s\<lparr>sx_cache := cache_observe (sx_cache s) usage now, sx_turn := turn,
           sx_remaining_turns := fadd (fmul REMAINING_TURNS_ALPHA (f64_of_nat turn))
             (fmul (fsub (fl 1) REMAINING_TURNS_ALPHA) (sx_remaining_turns s))\<rparr>)))"

section \<open>What an observation does\<close>

lemma observe_keeps [simp]:
  "sx_staged (observe F t usage now s) = sx_staged s" "sx_staging (observe F t usage now s) = sx_staging s"
  "sx_fast_lane (observe F t usage now s) = sx_fast_lane s"
  "sx_last_message_count (observe F t usage now s) = sx_last_message_count s"
  "sx_window_closed (observe F t usage now s) = sx_window_closed s"
  by (simp_all add: observe_def run_breaker_def calibrate_def Let_def split: option.splits prod.splits)

lemma observe_scale: "scale_ok (sx_token_scale s) \<Longrightarrow> scale_ok (sx_token_scale (observe F t usage now s))"
  by (auto simp: observe_def run_breaker_def calibrate_def Let_def intro: TokenScale_fold_ok split: option.splits prod.splits)

text \<open>A breaker that opens on the first failure, as the one configured for a single consecutive failure does.\<close>

definition opens_on_failure :: "'b failsafe \<Rightarrow> bool" where
  "opens_on_failure F = (\<forall>t b. \<not> fst (fs_permitted F t (fs_call F False t b)))"

lemma observe_trips:
  assumes "opens_on_failure F" "1 \<le> sx_turn s" "overran_prediction usage s"
  shows "\<not> sx_intercept_enabled (observe F t usage now s)"
proof -
  let ?s = "calibrate usage (s\<lparr>sx_cache := cache_observe (sx_cache s) usage now, sx_turn := sx_turn s + 1,
           sx_remaining_turns := fadd (fmul REMAINING_TURNS_ALPHA (f64_of_nat (sx_turn s + 1)))
             (fmul (fsub (fl 1) REMAINING_TURNS_ALPHA) (sx_remaining_turns s))\<rparr>)"
  have "WARMUP_TURNS \<le> sx_turn ?s" "overran_prediction usage ?s"
    using assms(2,3) by (auto simp: calibrate_def WARMUP_TURNS_def overran_prediction_def split: option.splits)
  then have "sx_intercept_enabled (run_breaker F t usage ?s) = fst (fs_permitted F t (fs_call F False t (sx_breaker ?s)))"
    by (simp add: run_breaker_def Let_def split: prod.splits)
  then show ?thesis using assms(1) unfolding observe_def Let_def opens_on_failure_def by simp
qed

lemma zero_prediction_overrun:
  assumes "sx_last_predicted_bust s = Some c" "cost_tokens c = 0" "cache_creation_input_tokens usage \<noteq> 0"
  shows "overran_prediction usage s"
proof -
  have "fmul BUST_OVERRUN_FACTOR (Fin 0) = Fin 0"
    by (cases BUST_OVERRUN_FACTOR) (auto simp: fmul_def BUST_OVERRUN_FACTOR_def fl_of_nat[of 4, simplified])
  moreover have "0 < unat (cache_creation_input_tokens usage)" using assms(3) by (simp add: unat_gt_0)
  then have "0 < (of_nat (unat (cache_creation_input_tokens usage)) :: rat)" unfolding of_nat_0_less_iff .
  ultimately show ?thesis using assms(1,2) by (simp add: overran_prediction_def f64_of_u32_eq)
qed

lemma ride_predicts_zero:
  assumes "decide (continuous_controller inputs) (prompt_state body segments (ii_cache inputs)) (live_batch live) (ii_now inputs)
      = RideFreeBust batch trigger"
    and "ic_predicted_bust (decide_live L bytes body segments live uncommit inputs lane) = Some predicted"
  shows "cost_tokens predicted = 0"
  using assms by (auto simp: decide_live_def apply_batch_def finish_def identity_def Let_def split: if_splits option.splits)

section \<open>Properties\<close>

text \<open>C37: riding a free bust trips the breaker.  A batch that rides a cold cache or a model switch is
  spliced with a predicted bust of no tokens, so as soon as the provider reports any cache write for that
  request, which a cold prefix always brings, the observation counts as an overrun and, past the warm-up
  turn, interception is switched off.\<close>

theorem free_bust_trips_breaker:
  assumes "opens_on_failure F"
    and "decide (continuous_controller inputs) (prompt_state body segments (ii_cache inputs)) (live_batch live) (ii_now inputs)
      = RideFreeBust batch trigger"
    and "ic_predicted_bust (decide_live L bytes body segments live uncommit inputs lane) = Some predicted"
    and "sx_last_predicted_bust s = Some predicted" "1 \<le> sx_turn s" "cache_creation_input_tokens usage \<noteq> 0"
  shows "\<not> sx_intercept_enabled (observe F t usage now s)"
  by (rule observe_trips[OF assms(1,5) zero_prediction_overrun[OF assms(4) ride_predicts_zero[OF assms(2,3)] assms(6)]])

text \<open>A breaker that stays open for sixty seconds, and a ride on a cold cache.\<close>

definition demo_breaker :: "nat failsafe" where
  "demo_breaker = \<lparr>fs_new = 0, fs_call = (\<lambda>ok t b. if ok \<or> t < b then b else t + 60), fs_permitted = (\<lambda>t b. (b \<le> t, b))\<rparr>"

definition ride_entry :: StagedEntry where
  "ride_entry = \<lparr>se_rec = demo_record, se_decision = keep,
     se_recode = Some \<lparr>sr_content = [], sr_ref_id = None, sr_marker = None\<rparr>\<rparr>"

definition ride_live :: "live_row list" where
  "ride_live = [(0, ride_entry, \<lparr>earliest_offset = 0, suffix_tokens = 0, net_removed = 0, quality_gain = Fin 0,
     ref_id = demo_ref, strategy = SKeep\<rparr>)]"

definition ride_inputs :: InterceptInputs where
  "ride_inputs = (lane_inputs [])\<lparr>ii_now := fl 3600\<rparr>"

definition ride_session :: "nat SessionEcon" where
  "ride_session = (SessionEcon_new demo_breaker (fallback_cache (lane_body lane_result)) \<lparr>ac_headers = [], ac_upstream = []\<rparr>
     (Fin 0) PolicyConfig_default)\<lparr>sx_turn := 1, sx_last_predicted_bust := Some \<lparr>dollars = Fin 0, cost_tokens = 0\<rparr>\<rparr>"

lemma i64_wrap_u32: "i64_wrap (i64_of_u32 w) = i64_of_u32 w"
  using i64_of_u32_bounds[of w] by (intro i64_wrap_id) auto

lemma ride_decides: "\<exists>batch. decide (continuous_controller ride_inputs)
    (prompt_state (lane_body lane_result) [lane_pair] (ii_cache ride_inputs)) (live_batch ride_live) (ii_now ride_inputs) = RideFreeBust batch TCold"
proof -
  have cold: "is_cold (ii_cache ride_inputs) (ii_now ride_inputs)"
    by (simp add: is_cold_def idle_seconds_def ride_inputs_def lane_inputs_def fallback_cache_def fsub_def fl_of_nat[of 3600, simplified])
  have "batch_total_removed (live_batch ride_live) = 0" by (simp add: batch_total_removed_def live_batch_def ride_live_def)
  then have "\<not> post_squash_below_floor (continuous_controller ride_inputs)
      (prompt_state (lane_body lane_result) [lane_pair] (ii_cache ride_inputs)) (live_batch ride_live)"
    using i64_of_u32_bounds i64_wrap_u32
    by (simp add: post_squash_below_floor_def prompt_state_def continuous_controller_def ride_inputs_def lane_inputs_def
        FALLBACK_ECON_def linorder_not_less) (simp add: i64_of_u32_def)
  then show ?thesis using cold
    by (simp add: decide_def status_of_def Let_def continuous_controller_def live_batch_def ride_live_def)
qed

lemma ride_splices: "ic_predicted_bust (decide_live lane_lib [0] (lane_body lane_result) [lane_pair] ride_live [] ride_inputs [])
    = Some \<lparr>dollars = Fin 0, cost_tokens = 0\<rparr>"
proof -
  have lib: "lb_serde lane_lib = lane_serde" "lb_writer lane_lib = lane_writer" by (simp_all add: lane_lib_def)
  have render: "render_segments lane_lib (lane_body lane_result) [lane_pair] ride_live = Some [lane_block]"
    by (simp add: render_segments_def ride_live_def ride_entry_def nth_opt_def render_recode_segment_def lib lane_targets
        render_proposal_text_def recode_strategy_def placeholder_block_json_def lane_block_def lane_lib_def)
  have plan: "safe_breakpoints empty_plan [lane_block] = empty_plan" by (simp add: safe_breakpoints_def empty_plan_def)
  have "splice_and_gate lane_lib [0] (lane_body lane_result) [lane_block] empty_plan = Some [7]"
    using lane_splice lane_validate by (auto simp: splice_and_gate_def lib)
  moreover obtain batch where "decide (continuous_controller ride_inputs)
      (prompt_state (lane_body lane_result) [lane_pair] (ii_cache ride_inputs)) (live_batch ride_live) (ii_now ride_inputs)
      = RideFreeBust batch TCold" using ride_decides by blast
  ultimately show ?thesis
    using render plan by (simp add: decide_live_def apply_batch_def finish_def open_lane_def ride_live_def)
qed

theorem free_bust_trips_breaker_witness:
  "\<not> sx_intercept_enabled (observe demo_breaker 7 \<lparr>cache_creation_input_tokens = 1000, cache_read_input_tokens = 0,
     input_tokens = 5\<rparr> (fl 3601) ride_session)"
proof -
  have "opens_on_failure demo_breaker" by (simp add: opens_on_failure_def demo_breaker_def)
  moreover obtain batch where "decide (continuous_controller ride_inputs)
      (prompt_state (lane_body lane_result) [lane_pair] (ii_cache ride_inputs)) (live_batch ride_live) (ii_now ride_inputs)
      = RideFreeBust batch TCold" using ride_decides by blast
  ultimately show ?thesis
    by (rule free_bust_trips_breaker[OF _ _ ride_splices]) (simp_all add: ride_session_def)
qed

end
