(* ===== verification/Staging.thy ===== *)
theory Staging
  imports Session
begin

text \<open>
  Off-path staging, \<^verbatim>\<open>ccs-proxy/src/staging.rs\<close>: after a request was forwarded, the next
  turn's plan is computed from it.  Every eligible segment is staged as a deterministic recode when that
  removes enough, and otherwise as the summarizer decides; its original is put into the store first.

  \<open>clients n\<close> is what the summarizer's upstream answers during the \<open>n\<close>-th call, the decision of segment
  \<open>n\<close> being the \<open>n\<close>-th and the fold of the working state the last.  \<open>None\<close> is a panic of the task,
  after which the store keeps what was put before.
\<close>

section \<open>Eligibility and recodes\<close>

definition CONSTRAINT_TAG :: str where "CONSTRAINT_TAG = lit ''CONSTRAINT''"

definition MIN_RECODE_SHRINK_FRAC :: f64 where "MIN_RECODE_SHRINK_FRAC = fl (2 / 10)"

definition off_path_ctx :: "WireBody \<Rightarrow> Segment list \<Rightarrow> WorkingState \<Rightarrow> PolicyConfig \<Rightarrow> f64 \<Rightarrow> PassCtx" where
  "off_path_ctx body segments working knobs now =
     \<lparr>cx_body = body, cx_segments = segments, cx_working = working,
      cx_econ = \<lparr>base_input = Fin 0, write_mult = Fin 0, read_mult = Fin 0, min_cache_floor = 0\<rparr>,
      cx_cache = \<lparr>cached_prefix_tokens = 0, last_request_ts = Fin 0, assumed_ttl_s = fl 3600,
        cs_model = wb_model body, cs_breakpoints = []\<rparr>,
      cx_knobs = knobs, cx_staged = \<lparr>present = False, staged_segments = [], hot_refs = []\<rparr>,
      cx_remaining_turns = Fin 0, cx_now = now\<rparr>"

definition deterministic_recodes :: "'v lib \<Rightarrow> WireBody \<Rightarrow> Segment list \<Rightarrow> PolicyConfig \<Rightarrow> f64 \<Rightarrow> PlanLedger option" where
  "deterministic_recodes L body segments knobs now =
     run Runner_default
       (Presets_deterministic (lb_serde L) (lb_decode_ir L) (lb_compact_json L) (lb_select_encoding L) (lb_unified_diff L) knobs)
       (off_path_ctx body segments WorkingState_default knobs now) (PlanLedger_sized (length segments))"

definition off_path_eligibility :: "'v lib \<Rightarrow> WireBody \<Rightarrow> Segment list \<Rightarrow> WorkingState \<Rightarrow> PolicyConfig \<Rightarrow> f64 \<Rightarrow> PlanLedger option" where
  "off_path_eligibility L body segments working knobs now =
     run Runner_default (Pipeline_of [StagePass SalienceGatePass, StagePass (ScorePass (lb_exp L))])
       (off_path_ctx body segments working knobs now) (PlanLedger_sized (length segments))"

definition prefers_recode :: "Proposal \<Rightarrow> nat list \<Rightarrow> bool" where
  "prefers_recode p payload = (case pr_strategy p of
      SRecode c _ \<Rightarrow> payload \<noteq> [] \<and>
        fle (f64_of_nat (str_len c)) (fmul (fsub (fl 1) MIN_RECODE_SHRINK_FRAC) (f64_of_nat (length payload)))
    | _ \<Rightarrow> False)"

definition recode_marker :: "Proposal \<Rightarrow> RefRecord \<Rightarrow> str" where
  "recode_marker p r = (case pr_strategy p of
      SRecode c _ \<Rightarrow> if c = [] then render_backref (rec_ref_id r) else render_placeholder r [] False
    | _ \<Rightarrow> render_placeholder r [] False)"

definition compress_decision :: ContentDecision where
  "compress_decision = \<lparr>choice = Compress, ranges_to_keep = [], summary_content = None\<rparr>"

definition recode_entry :: "Proposal \<Rightarrow> str \<Rightarrow> RefRecord \<Rightarrow> StagedEntry" where
  "recode_entry p c r =
     \<lparr>se_rec = r, se_decision = compress_decision,
      se_recode = Some (if pr_needs_ref p \<noteq> None
        then \<lparr>sr_content = c, sr_ref_id = Some (rec_ref_id r), sr_marker = Some (recode_marker p r)\<rparr>
        else \<lparr>sr_content = c, sr_ref_id = None, sr_marker = None\<rparr>)\<rparr>"

definition stage_recode ::
  "'v lib \<Rightarrow> Proposal \<Rightarrow> nat list \<Rightarrow> MessageId \<Rightarrow> SessionId \<Rightarrow> SegmentKind \<Rightarrow> f64 \<Rightarrow> Row list \<Rightarrow> (StagedEntry option \<times> Row list) option" where
  "stage_recode L p payload src sess kd now rows = (case pr_strategy p of
      SRecode c _ \<Rightarrow> (case put (lb_sha L) payload src sess kd now rows of
          None \<Rightarrow> None
        | Some (Inl _) \<Rightarrow> Some (None, rows)
        | Some (Inr (r, rows')) \<Rightarrow> Some (Some (recode_entry p c r), rows'))
    | _ \<Rightarrow> Some (None, rows))"

section \<open>The plan\<close>

definition salience_tags :: "Segment \<Rightarrow> WorkingState \<Rightarrow> str list" where
  "salience_tags seg working = (if carries_live_constraint seg working then [CONSTRAINT_TAG] else [])"

definition recent_turns_text :: "Segment list \<Rightarrow> WireBody \<Rightarrow> PolicyConfig \<Rightarrow> str" where
  "recent_turns_text segments body cfg =
     join_with [10] (map (\<lambda>m. rendered (content m))
       (filter_map (nth_opt (messages body))
         (filter_map (\<lambda>u. parse_usize (message_str u))
           (concat (map source_uuids (filter (\<lambda>seg. is_recency_protected seg segments cfg) segments))))))"

definition source_uuid_of :: "Segment \<Rightarrow> MessageId" where
  "source_uuid_of seg = (case source_uuids seg of u # _ \<Rightarrow> u | [] \<Rightarrow> MessageId (dec (index seg)))"

text \<open>What the task holds while it stages.\<close>

record StagingJob =
  jb_body :: WireBody
  jb_segments :: "Segment list"
  jb_working :: WorkingState
  jb_auth :: SessionAuthContext
  jb_policy :: PolicyConfig
  jb_ledger :: PlanLedger
  jb_recodes :: PlanLedger
  jb_session :: SessionId
  jb_now :: f64

definition plan_insert :: "RefId \<Rightarrow> StagedEntry \<Rightarrow> StagedPlan \<Rightarrow> StagedPlan" where
  "plan_insert k e plan = plan\<lparr>by_content := (by_content plan)(k \<mapsto> e)\<rparr>"

definition StagedPlan_default :: StagedPlan where
  "StagedPlan_default = \<lparr>by_content = Map.empty\<rparr>"

type_synonym clients = "SessionAuthContext \<Rightarrow> nat \<Rightarrow> client"

definition decide_segment :: "agent_json \<Rightarrow> clients \<Rightarrow> StagingJob \<Rightarrow> Segment \<Rightarrow> ContentDecision" where
  "decide_segment A clients job seg =
     decide_content A (clients (jb_auth job) (index seg)) (from_utf8_lossy (segment_payload_bytes seg (jb_body job)))
       (salience_tags seg (jb_working job)) (jb_policy job)"

definition stage_segment ::
  "'v lib \<Rightarrow> agent_json \<Rightarrow> clients \<Rightarrow> StagingJob \<Rightarrow> Segment \<Rightarrow> StagedPlan \<Rightarrow> Row list \<Rightarrow> (StagedPlan \<times> Row list) option" where
  "stage_segment L A clients job seg plan rows =
     (if is_gated (jb_ledger job) (index seg) then Some (plan, rows)
      else let payload = segment_payload_bytes seg (jb_body job); src = source_uuid_of seg in
        case (case proposal_for (jb_recodes job) (index seg) of
                Some p \<Rightarrow> if prefers_recode p payload then Some p else None | None \<Rightarrow> None) of
          Some p \<Rightarrow>
            map_option (\<lambda>(entry, rows'). case entry of
                Some e \<Rightarrow> (plan_insert (address (lb_sha L) payload) e plan, rows') | None \<Rightarrow> (plan, rows'))
              (stage_recode L p payload src (jb_session job) (kind seg) (jb_now job) rows)
        | None \<Rightarrow>
            (let decision = decide_segment A clients job seg in
             if choice decision = Keep then Some (plan, rows)
             else case put (lb_sha L) payload src (jb_session job) (kind seg) (jb_now job) rows of
                 None \<Rightarrow> None
               | Some (Inl _) \<Rightarrow> Some (plan, rows)
               | Some (Inr (r, rows')) \<Rightarrow>
                   Some (plan_insert (rec_ref_id r) \<lparr>se_rec = r, se_decision = decision, se_recode = None\<rparr> plan, rows')))"

fun stage_loop ::
  "'v lib \<Rightarrow> agent_json \<Rightarrow> clients \<Rightarrow> StagingJob \<Rightarrow> Segment list \<Rightarrow> StagedPlan \<Rightarrow> Row list \<Rightarrow> StagedPlan option \<times> Row list" where
  "stage_loop L A clients job [] plan rows = (Some plan, rows)"
| "stage_loop L A clients job (seg # segs) plan rows =
     (case stage_segment L A clients job seg plan rows of
        None \<Rightarrow> (None, rows)
      | Some (plan', rows') \<Rightarrow> stage_loop L A clients job segs plan' rows')"

section \<open>The task\<close>

definition clone_inputs :: "'b SessionEcon \<Rightarrow> WorkingState \<times> SessionAuthContext \<times> PolicyConfig" where
  "clone_inputs s = (sx_working s, sx_auth s, sx_policy s)"

definition commit :: "StagedPlan \<Rightarrow> WorkingState \<Rightarrow> 'b SessionEcon \<Rightarrow> 'b SessionEcon" where
  "commit plan working s = s\<lparr>sx_staged := Some plan, sx_working := working\<rparr>"

definition release_guard :: "'b SessionEcon \<Rightarrow> 'b SessionEcon" where
  "release_guard s = s\<lparr>sx_staging := False\<rparr>"

text \<open>The task up to its loop: \<open>None\<close> when it panics or has nothing to stage.\<close>

definition prepare_job ::
  "'v lib \<Rightarrow> nat list \<Rightarrow> SessionId \<Rightarrow> f64 \<Rightarrow> WorkingState \<times> SessionAuthContext \<times> PolicyConfig \<Rightarrow> StagingJob option" where
  "prepare_job L bytes sess now = (\<lambda>(working, auth, knobs).
     Option.bind (parse_body (lb_serde L) bytes) (\<lambda>body.
       let segments = segment_prompt (lb_serde L) body in
       Option.bind (off_path_eligibility L body segments working knobs now) (\<lambda>ledger.
         if list_all (\<lambda>seg. is_gated ledger (index seg)) segments then None
         else map_option (\<lambda>recodes. \<lparr>jb_body = body, jb_segments = segments, jb_working = working, jb_auth = auth,
                jb_policy = knobs, jb_ledger = ledger, jb_recodes = recodes, jb_session = sess, jb_now = now\<rparr>)
              (deterministic_recodes L body segments knobs now))))"

definition fold_job :: "agent_json \<Rightarrow> clients \<Rightarrow> StagingJob \<Rightarrow> WorkingState" where
  "fold_job A clients job =
     fold_working A (clients (jb_auth job) (length (jb_segments job))) (jb_working job)
       (recent_turns_text (jb_segments job) (jb_body job) (jb_policy job))"

text \<open>The whole task on a session nobody else touches meanwhile.\<close>

definition stage_next ::
  "'v lib \<Rightarrow> agent_json \<Rightarrow> clients \<Rightarrow> nat list \<Rightarrow> SessionId \<Rightarrow> f64 \<Rightarrow> 'b SessionEcon \<Rightarrow> Row list \<Rightarrow> 'b SessionEcon \<times> Row list" where
  "stage_next L A clients bytes sess now s rows =
     (case prepare_job L bytes sess now (clone_inputs s) of
        None \<Rightarrow> (release_guard s, rows)
      | Some job \<Rightarrow> (case stage_loop L A clients job (jb_segments job) StagedPlan_default rows of
            (None, rows') \<Rightarrow> (release_guard s, rows')
          | (Some plan, rows') \<Rightarrow> (release_guard (commit plan (fold_job A clients job) s), rows')))"

section \<open>The pipelines do not panic\<close>

lemma eligibility_result:
  assumes "wf_segments segments"
  shows "\<exists>ledger. off_path_eligibility L body segments working knobs now = Some ledger \<and>
    (\<forall>seg \<in> set segments. is_gated ledger (index seg) = (\<not> is_squash_candidate seg working knobs))"
proof -
  let ?ctx = "off_path_ctx body segments working knobs now" and ?l = "PlanLedger_sized (length segments)"
  let ?p = "Pipeline_of [StagePass SalienceGatePass, StagePass (ScorePass (lb_exp L))]"
  have ctx: "cx_segments ?ctx = segments" "cx_working ?ctx = working" "cx_knobs ?ctx = knobs" by (simp_all add: off_path_ctx_def)
  have run: "run Runner_default ?p ?ctx ?l = apply_all ?ctx [SalienceGatePass, ScorePass (lb_exp L)] ?l"
    by (subst run_continue) (auto simp: Pipeline_of_def stage_passes_def pass_defs salience_gate_apply_def score_apply_def)
  obtain l1 where l1: "salience_gate_apply ?ctx ?l = Some (l1, Continue)"
    by (simp add: salience_gate_apply_def)
  note gate = salience_gate_result[OF l1, unfolded ctx, OF _ assms]
  have "provenance ?l = []" "length (table_scores (scores ?l)) = length segments"
    by (simp_all add: PlanLedger_sized_def ScoreTable_sized_def)
  moreover from this have "length (table_scores (scores l1)) = length segments" using gate(2) by simp
  ultimately obtain l2 where l2: "score_apply (lb_exp L) ?ctx l1 = Some (l2, Continue)" "provenance l2 = provenance l1"
    using score_result[of ?ctx l1 "lb_exp L", unfolded ctx, OF assms] by auto
  have "is_gated l2 = is_gated l1" using l2(2) by (simp add: is_gated_def fun_eq_iff)
  moreover have "off_path_eligibility L body segments working knobs now = Some l2"
    unfolding off_path_eligibility_def run using l1 l2(1) by (simp add: pass_defs)
  ultimately show ?thesis
    using gate(4)[OF \<open>provenance ?l = []\<close>] wf_segments_nth[OF assms] by (auto simp: in_set_conv_nth)
qed

lemma deterministic_recodes_total:
  assumes "wf_segments segments"
  shows "\<exists>recodes. deterministic_recodes L body segments knobs now = Some recodes"
proof -
  let ?ctx = "off_path_ctx body segments WorkingState_default knobs now"
  have "recode_inv (lb_serde L) (inline_rewrite (lb_decode_ir L) (lb_compact_json L)) ?ctx (PlanLedger_sized (length segments))"
    using assms by (simp add: recode_inv_def ledger_ok_def PlanLedger_sized_def proposal_for_def off_path_ctx_def wf_segments_def)
  then show ?thesis unfolding deterministic_recodes_def using chain.run_keeps deterministic_passes by blast
qed

section \<open>What is staged is stored\<close>

text \<open>Every entry of a plan is filed under the ref of its record, which is the address of an eligible
  segment's payload, and the store has bytes with that address.\<close>

definition plan_ok :: "'v lib \<Rightarrow> StagingJob \<Rightarrow> StagedPlan \<Rightarrow> Row list \<Rightarrow> bool" where
  "plan_ok L job plan rows = (\<forall>k e. by_content plan k = Some e \<longrightarrow>
     rec_ref_id (se_rec e) = k \<and> choice (se_decision e) \<noteq> Keep \<and> k \<in> dom (entry_of rows) \<and>
     (\<exists>seg \<in> set (jb_segments job). \<not> is_gated (jb_ledger job) (index seg) \<and>
        k = address (lb_sha L) (segment_payload_bytes seg (jb_body job))))"

lemma put_total:
  assumes "hex_digest sha"
  shows "put sha original src sess kd now rows = Some (Inl DbError) \<or>
    (\<exists>r rows'. put sha original src sess kd now rows = Some (Inr (r, rows')) \<and> rec_ref_id r = address sha original)"
  using content_address_hex[OF assms]
  by (auto simp: put_def Let_def address_def put_record_def insert_or_ignore_def split: sum.splits)

lemma stored_address:
  assumes "store_ok sha rows" "k \<in> dom (entry_of rows)"
  shows "\<exists>original. entry_of rows k = Some original \<and> content_address sha original = Some k"
proof -
  obtain row where row: "find (\<lambda>row. row_ref_id row = k) rows = Some row" using assms(2) by (auto simp: entry_of_def)
  then have "content_address sha (row_original row) = Some k"
    using find_SomeD[OF row] assms(1) by (auto simp: store_ok_def list_all_iff row_ok_def)
  then show ?thesis using row by (simp add: entry_of_def)
qed

lemma plan_ok_put:
  assumes "plan_ok L job plan rows" "store_ok (lb_sha L) rows"
    and "put (lb_sha L) (segment_payload_bytes seg (jb_body job)) src sess kd now rows = Some (Inr (r, rows'))"
    and "hex_digest (lb_sha L)" "seg \<in> set (jb_segments job)" "\<not> is_gated (jb_ledger job) (index seg)"
    and "se_rec e = r" "choice (se_decision e) \<noteq> Keep"
  shows "plan_ok L job (plan_insert (rec_ref_id r) e plan) rows' \<and> store_ok (lb_sha L) rows' \<and>
    rec_ref_id r = address (lb_sha L) (segment_payload_bytes seg (jb_body job))"
proof -
  note put = put_rows[OF assms(2,3)]
  have "rec_ref_id r = address (lb_sha L) (segment_payload_bytes seg (jb_body job))"
    using put(2) content_address_hex[OF assms(4)] by (simp add: address_def)
  then show ?thesis using assms(1,5-8) put(1) by (auto simp: plan_ok_def plan_insert_def put(3))
qed

lemma stage_segment_ok:
  assumes "hex_digest (lb_sha L)" "store_ok (lb_sha L) rows" "plan_ok L job plan rows" "seg \<in> set (jb_segments job)"
  shows "\<exists>plan' rows'. stage_segment L A clients job seg plan rows = Some (plan', rows') \<and>
    plan_ok L job plan' rows' \<and> store_ok (lb_sha L) rows'"
proof (cases "is_gated (jb_ledger job) (index seg)")
  case True
  then show ?thesis using assms by (simp add: stage_segment_def)
next
  case False
  let ?payload = "segment_payload_bytes seg (jb_body job)"
  let ?put = "put (lb_sha L) ?payload (source_uuid_of seg) (jb_session job) (kind seg) (jb_now job) rows"
  have keep: "choice compress_decision \<noteq> Keep" by (simp add: compress_decision_def)
  consider (err) "?put = Some (Inl DbError)"
    | (ok) r rows' where "?put = Some (Inr (r, rows'))" "rec_ref_id r = address (lb_sha L) ?payload"
    using put_total[OF assms(1)] by metis
  then show ?thesis
  proof cases
    case err
    then show ?thesis using assms(2,3) False
      by (auto simp: stage_segment_def stage_recode_def Let_def split: option.splits Strategy.splits)
  next
    case ok
    have ins: "plan_ok L job (plan_insert (rec_ref_id r) e plan) rows' \<and> store_ok (lb_sha L) rows'"
      if "se_rec e = r" "choice (se_decision e) \<noteq> Keep" for e
      using plan_ok_put[OF assms(3,2) ok(1) assms(1,4) False that] by blast
    have recode: "se_rec (recode_entry p c r) = r" "choice (se_decision (recode_entry p c r)) \<noteq> Keep" for p c
      using keep by (simp_all add: recode_entry_def)
    show ?thesis using assms(2,3) False ok ins[OF recode] ins
      by (auto simp: stage_segment_def stage_recode_def Let_def split: option.splits Strategy.splits)
  qed
qed

lemma stage_loop_ok:
  assumes "hex_digest (lb_sha L)" "store_ok (lb_sha L) rows" "plan_ok L job plan rows" "set segs \<subseteq> set (jb_segments job)"
  shows "\<exists>plan' rows'. stage_loop L A clients job segs plan rows = (Some plan', rows') \<and>
    plan_ok L job plan' rows' \<and> store_ok (lb_sha L) rows'"
  using assms(2-4)
proof (induction segs arbitrary: plan rows)
  case (Cons seg segs)
  then show ?case using stage_segment_ok[OF assms(1) Cons.prems(1,2), of seg A clients] by fastforce
qed simp

lemma prepare_job_result:
  "prepare_job L bytes sess now (clone_inputs s) = None \<and>
     (\<forall>body. parse_body (lb_serde L) bytes = Some body \<longrightarrow>
        \<not> (\<exists>seg \<in> set (segment_prompt (lb_serde L) body). is_squash_candidate seg (sx_working s) (sx_policy s))) \<or>
   (\<exists>job. prepare_job L bytes sess now (clone_inputs s) = Some job \<and> parse_body (lb_serde L) bytes = Some (jb_body job) \<and>
      jb_segments job = segment_prompt (lb_serde L) (jb_body job) \<and>
      (\<exists>seg \<in> set (jb_segments job). is_squash_candidate seg (sx_working s) (sx_policy s)) \<and>
      (\<forall>seg \<in> set (jb_segments job). is_gated (jb_ledger job) (index seg) = (\<not> is_squash_candidate seg (sx_working s) (sx_policy s))))"
proof (cases "parse_body (lb_serde L) bytes")
  case None
  then show ?thesis by (simp add: prepare_job_def clone_inputs_def)
next
  case (Some body)
  let ?segs = "segment_prompt (lb_serde L) body"
  obtain ledger where ledger: "off_path_eligibility L body ?segs (sx_working s) (sx_policy s) now = Some ledger"
    "\<forall>seg \<in> set ?segs. is_gated ledger (index seg) = (\<not> is_squash_candidate seg (sx_working s) (sx_policy s))"
    using eligibility_result[OF segment_prompt_wf] by blast
  obtain recodes where "deterministic_recodes L body ?segs (sx_policy s) now = Some recodes"
    using deterministic_recodes_total[OF segment_prompt_wf] by blast
  then show ?thesis using ledger Some by (auto simp: prepare_job_def clone_inputs_def Let_def list_all_iff)
qed

text \<open>What an entry of such a plan tells.\<close>

lemma plan_ok_entry:
  assumes "plan_ok L job plan rows" "store_ok (lb_sha L) rows" "by_content plan k = Some e"
  shows "rec_ref_id (se_rec e) = k \<and> choice (se_decision e) \<noteq> Keep \<and>
    (\<exists>seg \<in> set (jb_segments job). \<not> is_gated (jb_ledger job) (index seg) \<and>
       k = address (lb_sha L) (segment_payload_bytes seg (jb_body job))) \<and>
    (\<exists>original. entry_of rows k = Some original \<and> content_address (lb_sha L) original = Some k)"
proof -
  obtain seg where seg: "seg \<in> set (jb_segments job)" "\<not> is_gated (jb_ledger job) (index seg)"
    "k = address (lb_sha L) (segment_payload_bytes seg (jb_body job))"
    and e: "rec_ref_id (se_rec e) = k" "choice (se_decision e) \<noteq> Keep" "k \<in> dom (entry_of rows)"
    using assms(1,3) unfolding plan_ok_def by blast
  then show ?thesis using stored_address[OF assms(2) e(3)] by blast
qed

section \<open>Properties\<close>

text \<open>C38: what is staged can be fetched back.  With a hexadecimal digest and a well-formed store the
  task never panics, always releases the session's guard and keeps the store well formed.  When the
  request has an eligible segment a plan is committed, and each of its entries is filed under the content
  address of the payload of such a segment, carries the record of that ref, decides something other than
  keeping it, and finds bytes with that address in the store; otherwise the session keeps its plan.\<close>

theorem staged_plans_are_stored:
  assumes "hex_digest (lb_sha L)" "store_ok (lb_sha L) rows"
    and "stage_next L A clients bytes sess now s rows = (s', rows')"
  shows "\<not> sx_staging s' \<and> store_ok (lb_sha L) rows' \<and>
    (if \<exists>body. parse_body (lb_serde L) bytes = Some body \<and>
          (\<exists>seg \<in> set (segment_prompt (lb_serde L) body). is_squash_candidate seg (sx_working s) (sx_policy s))
     then \<exists>body plan. parse_body (lb_serde L) bytes = Some body \<and> sx_staged s' = Some plan \<and>
       (\<forall>k e. by_content plan k = Some e \<longrightarrow> rec_ref_id (se_rec e) = k \<and> choice (se_decision e) \<noteq> Keep \<and>
          (\<exists>seg \<in> set (segment_prompt (lb_serde L) body). is_squash_candidate seg (sx_working s) (sx_policy s) \<and>
             k = address (lb_sha L) (segment_payload_bytes seg body)) \<and>
          (\<exists>original. entry_of rows' k = Some original \<and> content_address (lb_sha L) original = Some k))
     else s' = release_guard s \<and> rows' = rows)"
proof (cases "prepare_job L bytes sess now (clone_inputs s)")
  case None
  then have "s' = release_guard s" "rows' = rows" using assms(3) by (simp_all add: stage_next_def)
  moreover have "\<not> (\<exists>body. parse_body (lb_serde L) bytes = Some body \<and>
      (\<exists>seg \<in> set (segment_prompt (lb_serde L) body). is_squash_candidate seg (sx_working s) (sx_policy s)))"
    using prepare_job_result[of L bytes sess now s] None by auto
  ultimately show ?thesis using assms(2) by (subst if_not_P) (simp_all add: release_guard_def)
next
  case (Some job)
  then have job: "parse_body (lb_serde L) bytes = Some (jb_body job)" "jb_segments job = segment_prompt (lb_serde L) (jb_body job)"
    "\<exists>seg \<in> set (jb_segments job). is_squash_candidate seg (sx_working s) (sx_policy s)"
    "\<forall>seg \<in> set (jb_segments job). is_gated (jb_ledger job) (index seg) = (\<not> is_squash_candidate seg (sx_working s) (sx_policy s))"
    using prepare_job_result[of L bytes sess now s] by auto
  have "plan_ok L job StagedPlan_default rows" by (simp add: plan_ok_def StagedPlan_default_def)
  then obtain plan rows1 where loop: "stage_loop L A clients job (jb_segments job) StagedPlan_default rows = (Some plan, rows1)"
    "plan_ok L job plan rows1" "store_ok (lb_sha L) rows1"
    using stage_loop_ok[OF assms(1,2)] by blast
  then have s': "s' = release_guard (commit plan (fold_job A clients job) s)" "rows' = rows1"
    using assms(3) Some by (simp_all add: stage_next_def)
  have "\<forall>k e. by_content plan k = Some e \<longrightarrow> rec_ref_id (se_rec e) = k \<and> choice (se_decision e) \<noteq> Keep \<and>
      (\<exists>seg \<in> set (segment_prompt (lb_serde L) (jb_body job)). is_squash_candidate seg (sx_working s) (sx_policy s) \<and>
         k = address (lb_sha L) (segment_payload_bytes seg (jb_body job))) \<and>
      (\<exists>original. entry_of rows' k = Some original \<and> content_address (lb_sha L) original = Some k)"
    using plan_ok_entry[OF loop(2,3)] job(4) unfolding job(2) s'(2) by blast
  moreover have "sx_staged s' = Some plan" "\<not> sx_staging s'" by (simp_all add: s'(1) release_guard_def commit_def)
  moreover have "\<exists>body. parse_body (lb_serde L) bytes = Some body \<and>
      (\<exists>seg \<in> set (segment_prompt (lb_serde L) body). is_squash_candidate seg (sx_working s) (sx_policy s))"
    using job(1-3) by auto
  ultimately show ?thesis using loop(3) job(1) s'(2) by (subst if_P) blast+
qed

text \<open>The request of the interceptor's example, with an upstream that is down: nothing is decided, and an
  empty plan is committed.\<close>

definition staging_session :: "nat SessionEcon" where
  "staging_session = ride_session\<lparr>sx_staging := True\<rparr>"

theorem staged_plans_are_stored_witness:
  "\<exists>s' rows' plan. stage_next lane_lib demo_agent (\<lambda>_ _ _ _ _. Inl Timeout) [0] (SessionId []) (Fin 0) staging_session [] = (s', rows') \<and>
     \<not> sx_staging s' \<and> sx_staged s' = Some plan"
proof -
  obtain s' rows' where s': "stage_next lane_lib demo_agent (\<lambda>_ _ _ _ _. Inl Timeout) [0] (SessionId []) (Fin 0) staging_session [] = (s', rows')"
    by (metis surj_pair)
  have sha: "hex_digest (lb_sha lane_lib)" by (simp add: hex_digest_def lane_lib_def is_lower_hex_def list_all_iff)
  have "lane_pair \<in> set (segment_prompt lane_serde (lane_body lane_result))" by (simp add: lane_segments)
  moreover have "is_squash_candidate lane_pair (sx_working staging_session) (sx_policy staging_session)"
    by (simp add: is_squash_candidate_def is_pinned_def lane_pair_def staging_session_def ride_session_def SessionEcon_new_def
        carries_live_constraint_def WorkingState_default_def)
  ultimately have "\<exists>body. parse_body (lb_serde lane_lib) [0] = Some body \<and> (\<exists>seg \<in> set (segment_prompt (lb_serde lane_lib) body).
      is_squash_candidate seg (sx_working staging_session) (sx_policy staging_session))"
    using lane_parse(1) by (auto simp: lane_lib_def)
  then show ?thesis
    using staged_plans_are_stored[OF sha _ s'] s' by (auto simp: store_ok_def)
qed

end
