(* ===== verification/Usage_Tap.thy ===== *)
theory Usage_Tap
  imports Store Economics
begin

text \<open>
  The cache-usage tap, \<^verbatim>\<open>ccs-proxy/src/usage_tap.rs\<close>: a scanner fed with every chunk of the
  response stream, which looks for the first \<^verbatim>\<open>message_start\<close> event and sends the usage it
  carries, once.  The JSON reader of that event's data is the parameter \<open>parse\<close>.
\<close>

section \<open>The scanner\<close>

record Observed =
  ob_usage :: CacheUsage
  ob_model :: ModelId

record Scanner =
  tp_buf :: "nat list"
  tp_sent :: "Observed list"
  tp_done :: bool

definition SCAN_CAP :: nat where "SCAN_CAP = 64 * 1024"

definition TARGET_EVENT :: "nat list" where "TARGET_EVENT = lit ''message_start''"

definition parse_field :: "nat list \<Rightarrow> nat list \<Rightarrow> nat list option" where
  "parse_field line field =
     map_option (\<lambda>rest. case strip_prefix [32] rest of Some r \<Rightarrow> r | None \<Rightarrow> rest) (strip_prefix field line)"

fun scan_lines :: "(nat list \<Rightarrow> Observed option) \<Rightarrow> nat list option \<Rightarrow> nat list list \<Rightarrow> Observed option" where
  "scan_lines parse ev [] = None"
| "scan_lines parse ev (raw # rest) =
     (let line = strip_cr raw in
      case parse_field line (lit ''event:'') of
        Some name \<Rightarrow> scan_lines parse (Some name) rest
      | None \<Rightarrow> (case parse_field line (lit ''data:'') of
            None \<Rightarrow> scan_lines parse ev rest
          | Some data \<Rightarrow>
              if ev = Some TARGET_EVENT
              then (case parse data of Some observed \<Rightarrow> Some observed | None \<Rightarrow> scan_lines parse ev rest)
              else scan_lines parse ev rest))"

definition scan :: "(nat list \<Rightarrow> Observed option) \<Rightarrow> nat list \<Rightarrow> Observed option" where
  "scan parse buf = scan_lines parse None (split_on (\<lambda>b. b = 10) buf)"

definition Scanner_new :: Scanner where
  "Scanner_new = \<lparr>tp_buf = [], tp_sent = [], tp_done = False\<rparr>"

definition finish_scan :: "Scanner \<Rightarrow> Scanner" where
  "finish_scan s = s\<lparr>tp_done := True, tp_buf := []\<rparr>"

definition feed :: "(nat list \<Rightarrow> Observed option) \<Rightarrow> nat list \<Rightarrow> Scanner \<Rightarrow> Scanner" where
  "feed parse chunk s =
     (if tp_done s then s
      else let s' = s\<lparr>tp_buf := tp_buf s @ chunk\<rparr> in
           case scan parse (tp_buf s') of
             Some observed \<Rightarrow> finish_scan (s'\<lparr>tp_sent := tp_sent s' @ [observed]\<rparr>)
           | None \<Rightarrow> if SCAN_CAP \<le> length (tp_buf s') then finish_scan s' else s')"

text \<open>The adapter over a stream of chunks and transport errors: the items it yields and the scanner it leaves.\<close>

fun tap :: "(nat list \<Rightarrow> Observed option) \<Rightarrow> ('e + nat list) list \<Rightarrow> Scanner \<Rightarrow> ('e + nat list) list \<times> Scanner" where
  "tap parse [] s = ([], s)"
| "tap parse (item # items) s =
     (let s' = (case item of Inr chunk \<Rightarrow> feed parse chunk s | Inl _ \<Rightarrow> s);
          (rest, s'') = tap parse items s'
      in (item # rest, s''))"

section \<open>Lines\<close>

lemma scan_lines_other_event:
  "ev \<noteq> Some TARGET_EVENT \<Longrightarrow> scan_lines parse ev [l] = None"
  by (simp add: Let_def split: option.splits)

definition scan_from :: "(nat list \<Rightarrow> Observed option) \<Rightarrow> nat list option \<Rightarrow> nat list \<Rightarrow> Observed option" where
  "scan_from parse ev s = scan_lines parse ev (split_on (\<lambda>b. b = 10) s)"

lemma split_on_line: "10 \<notin> set l \<Longrightarrow> split_on (\<lambda>b. b = (10::nat)) (l @ 10 # s) = l # split_on (\<lambda>b. b = 10) s"
  by (induction l) simp_all

lemma split_on_last: "10 \<notin> set l \<Longrightarrow> split_on (\<lambda>b. b = (10::nat)) l = [l]"
  by (induction l) simp_all

text \<open>A line that is not the start of the wanted event.\<close>

definition other_line :: "nat list \<Rightarrow> bool" where
  "other_line l = (10 \<notin> set l \<and> parse_field (strip_cr l) (lit ''event:'') \<noteq> Some TARGET_EVENT)"

lemma scan_from_other:
  assumes "other_line l" "ev \<noteq> Some TARGET_EVENT"
  shows "\<exists>ev'. ev' \<noteq> Some TARGET_EVENT \<and> scan_from parse ev (l @ 10 # s) = scan_from parse ev' s"
  using assms by (auto simp: scan_from_def other_line_def split_on_line Let_def split: option.splits)

lemma scan_from_last: "10 \<notin> set l \<Longrightarrow> ev \<noteq> Some TARGET_EVENT \<Longrightarrow> scan_from parse ev l = None"
  by (simp add: scan_from_def split_on_last scan_lines_other_event del: scan_lines.simps)

text \<open>The event line, and a data line cut short.\<close>

definition event_line :: "nat list" where "event_line = lit ''event: message_start''"

definition data_line :: "nat list \<Rightarrow> nat list" where "data_line json = lit ''data: '' @ json"

lemma literals [simp]:
  "lit ''event:'' = [101, 118, 101, 110, 116, 58]" "lit ''data:'' = [100, 97, 116, 97, 58]"
  "lit ''data: '' = [100, 97, 116, 97, 58, 32]"
  by (simp_all add: lit_def)

lemma scan_from_event: "scan_from parse ev (event_line @ 10 # s) = scan_from parse (Some TARGET_EVENT) s"
proof -
  have "10 \<notin> set event_line" "strip_cr event_line = event_line"
    "parse_field event_line (lit ''event:'') = Some TARGET_EVENT"
    by (simp_all add: event_line_def TARGET_EVENT_def strip_cr_def parse_field_def lit_def)
  then show ?thesis by (simp add: scan_from_def split_on_line Let_def del: literals)
qed

definition wire_json :: "nat list \<Rightarrow> bool" where
  "wire_json json = (json \<noteq> [] \<and> 10 \<notin> set json \<and> 13 \<notin> set json)"

lemma data_fields:
  "parse_field (data_line json) (lit ''event:'') = None" "parse_field (data_line json) (lit ''data:'') = Some json"
  by (simp_all add: data_line_def parse_field_def)

lemma scan_from_data:
  assumes "wire_json json" "parse json = Some observed" "tail = [] \<or> hd tail = 10"
  shows "scan_from parse (Some TARGET_EVENT) (data_line json @ tail) = Some observed"
proof -
  have l: "10 \<notin> set (data_line json)" "strip_cr (data_line json) = data_line json"
    using assms(1) by (auto simp: data_line_def wire_json_def intro!: strip_cr_id)
  have "\<exists>rest. split_on (\<lambda>b. b = 10) (data_line json @ tail) = data_line json # rest"
    using assms(3) l(1) by (cases tail) (auto simp: split_on_line split_on_last)
  then show ?thesis using l(2) data_fields[of json] assms(2) by (auto simp: scan_from_def simp del: literals)
qed

lemma scan_from_cut_data:
  assumes "wire_json json" "\<And>p. strict_prefix p json \<Longrightarrow> parse p = None" "strict_prefix p (data_line json)"
  shows "scan_from parse (Some TARGET_EVENT) p = None"
proof -
  obtain r where r: "data_line json = p @ r" "r \<noteq> []" using assms(3) by (auto simp: strict_prefix_def prefix_def)
  have p: "10 \<notin> set p" "strip_cr p = p"
  proof -
    have "set p \<subseteq> set (data_line json)" using r(1) by auto
    then show "10 \<notin> set p" "strip_cr p = p"
      using assms(1) by (auto simp: data_line_def wire_json_def intro!: strip_cr_id)
  qed
  have "parse_field p (lit ''event:'') = None"
    using r(1) by (cases p) (auto simp: data_line_def parse_field_def)
  moreover have "parse data = None" if d: "parse_field p (lit ''data:'') = Some data" for data
  proof -
    obtain q where q: "p = [100, 97, 116, 97, 58] @ q"
      using d by (auto simp: parse_field_def strip_prefix_Some_iff simp del: strip_prefix.simps)
    then have "32 # json = q @ r" using r(1) by (simp add: data_line_def)
    then have "q = [] \<or> (\<exists>q'. q = 32 # q' \<and> json = q' @ r)" by (cases q) auto
    then have "data = [] \<or> json = data @ r" using d by (auto simp: q parse_field_def)
    then have "strict_prefix data json" using r(2) assms(1) by (auto simp: strict_prefix_def wire_json_def)
    then show ?thesis by (rule assms(2))
  qed
  ultimately show ?thesis using p by (simp add: scan_from_def split_on_last Let_def del: literals split: option.splits)
qed

section \<open>Finding the event\<close>

text \<open>The stream up to the end of the wanted data, and its proper prefixes.\<close>

definition wanted :: "nat list list \<Rightarrow> nat list \<Rightarrow> nat list" where
  "wanted before json = unlines before @ event_line @ 10 # data_line json"

lemma scan_from_wanted:
  assumes "list_all other_line before" "ev \<noteq> Some TARGET_EVENT" "wire_json json" "parse json = Some observed"
    "tail = [] \<or> hd tail = 10"
  shows "scan_from parse ev (wanted before json @ tail) = Some observed"
  using assms(1,2)
proof (induction before arbitrary: ev)
  case Nil
  then show ?case using scan_from_event[of parse ev "data_line json @ tail"] scan_from_data[of json parse observed tail] assms
    by (simp add: wanted_def)
next
  case (Cons l before)
  obtain ev' where "ev' \<noteq> Some TARGET_EVENT"
    "scan_from parse ev (l @ 10 # wanted before json @ tail) = scan_from parse ev' (wanted before json @ tail)"
    using scan_from_other[of l ev parse] Cons.prems by auto
  then show ?case using Cons.IH[of ev'] Cons.prems(1) by (simp add: wanted_def)
qed

lemma prefix_line_cases:
  assumes "prefix p (l @ 10 # s)"
  shows "prefix p l \<or> (\<exists>q. p = l @ 10 # q \<and> prefix q s)"
  using assms by (auto simp: prefix_append prefix_Cons)

lemma scan_from_cut:
  assumes "list_all other_line before" "ev \<noteq> Some TARGET_EVENT" "wire_json json"
    "\<And>p. strict_prefix p json \<Longrightarrow> parse p = None" "strict_prefix p (wanted before json)"
  shows "scan_from parse ev p = None"
  using assms(1,2,5)
proof (induction before arbitrary: ev p)
  case Nil
  then have "prefix p (event_line @ 10 # data_line json)" "p \<noteq> event_line @ 10 # data_line json"
    by (auto simp: wanted_def strict_prefix_def)
  then consider "prefix p event_line" | q where "p = event_line @ 10 # q" "strict_prefix q (data_line json)"
    using prefix_line_cases[of p event_line "data_line json"] by (auto simp: strict_prefix_def)
  then show ?case
  proof cases
    case 1
    then have "10 \<notin> set p" using set_mono_prefix by (force simp: event_line_def lit_def)
    then show ?thesis using scan_from_last Nil.prems(2) by blast
  next
    case 2
    then show ?thesis using scan_from_event scan_from_cut_data[OF assms(3,4)] by simp
  qed
next
  case (Cons l before)
  then have "prefix p (l @ 10 # wanted before json)" "p \<noteq> l @ 10 # wanted before json"
    by (auto simp: wanted_def strict_prefix_def)
  then consider "prefix p l" | q where "p = l @ 10 # q" "strict_prefix q (wanted before json)"
    using prefix_line_cases[of p l "wanted before json"] by (auto simp: strict_prefix_def)
  then show ?case
  proof cases
    case 1
    then have "10 \<notin> set p" using set_mono_prefix Cons.prems(1) by (auto simp: other_line_def)
    then show ?thesis using scan_from_last Cons.prems(2) by blast
  next
    case 2
    obtain ev' where "ev' \<noteq> Some TARGET_EVENT" "scan_from parse ev (l @ 10 # q) = scan_from parse ev' q"
      using scan_from_other[of l ev parse q] Cons.prems by auto
    then show ?thesis using Cons.IH[of ev' q] Cons.prems(1) 2 by simp
  qed
qed

section \<open>Feeding chunks\<close>

lemma feed_done: "tp_done s \<Longrightarrow> feed parse c s = s"
  by (simp add: feed_def)

lemma fold_feed_done: "tp_done s \<Longrightarrow> fold (feed parse) cs s = s"
  by (induction cs) (simp_all add: feed_done)

lemma scan_eq: "scan parse b = scan_from parse None b"
  by (simp add: scan_def scan_from_def)

text \<open>Until the data is complete the scanner waits, and then it has sent it and is done.\<close>

lemma feeds_find:
  assumes wf: "list_all other_line before" "wire_json json" "\<And>p. strict_prefix p json \<Longrightarrow> parse p = None"
    "parse json = Some observed" "length (wanted before json) \<le> SCAN_CAP"
    and "\<not> tp_done s" "tp_sent s = []" "strict_prefix (tp_buf s) (wanted before json)"
    and "tp_buf s @ concat cs = wanted before json @ 10 # rest"
  shows "fold (feed parse) cs s = \<lparr>tp_buf = [], tp_sent = [observed], tp_done = True\<rparr>"
  using assms(6-9)
proof (induction cs arbitrary: s)
  case Nil
  then show ?case by (auto simp: strict_prefix_def prefix_def)
next
  case (Cons c cs)
  let ?b = "tp_buf s @ c" and ?W = "wanted before json"
  have b: "?b @ concat cs = ?W @ 10 # rest" using Cons.prems(4) by simp
  show ?case
  proof (cases "strict_prefix ?b ?W")
    case True
    then have "scan parse ?b = None" using scan_from_cut[OF wf(1) _ wf(2,3)] by (simp add: scan_eq)
    moreover have "length ?b < SCAN_CAP" using prefix_length_less[OF True] wf(5) by simp
    ultimately have f: "feed parse c s = s\<lparr>tp_buf := ?b\<rparr>" using Cons.prems(1) by (simp add: feed_def Let_def)
    show ?thesis using Cons.IH[of "s\<lparr>tp_buf := ?b\<rparr>"] Cons.prems True b by (simp add: f)
  next
    case False
    have "prefix ?b (?W @ 10 # rest)" using b prefixI by metis
    then have "\<exists>tail. ?b = ?W @ tail \<and> prefix tail (10 # rest)"
      using False by (auto simp: prefix_append strict_prefix_def)
    then obtain tail where tail: "?b = ?W @ tail" "tail = [] \<or> hd tail = 10" by (auto simp: prefix_Cons)
    then have "scan parse ?b = Some observed"
      using scan_from_wanted[of before None json parse observed tail] wf(1,2,4) by (simp add: scan_eq)
    then have "feed parse c s = finish_scan (s\<lparr>tp_buf := ?b, tp_sent := [observed]\<rparr>)"
      using Cons.prems(1,2) by (simp add: feed_def Let_def)
    then show ?thesis by (simp add: fold_feed_done finish_scan_def)
  qed
qed

definition chunks_of :: "('e + nat list) list \<Rightarrow> nat list list" where
  "chunks_of items = filter_map (\<lambda>item. case item of Inr c \<Rightarrow> Some c | Inl _ \<Rightarrow> None) items"

lemma tap_eq: "tap parse items s = (items, fold (feed parse) (chunks_of items) s)"
  by (induction items arbitrary: s) (auto simp: chunks_of_def split: sum.splits)

definition scanner_ok :: "Scanner \<Rightarrow> bool" where
  "scanner_ok s = (length (tp_buf s) < SCAN_CAP \<and> length (tp_sent s) \<le> 1 \<and> (tp_sent s \<noteq> [] \<longrightarrow> tp_done s))"

lemma feed_ok: "scanner_ok s \<Longrightarrow> scanner_ok (feed parse c s)"
  by (auto simp: scanner_ok_def feed_def finish_scan_def SCAN_CAP_def Let_def split: option.splits)

lemma fold_feed_ok: "scanner_ok s \<Longrightarrow> scanner_ok (fold (feed parse) cs s)"
  by (induction cs arbitrary: s) (simp_all add: feed_ok)

section \<open>Properties\<close>

text \<open>The tap never changes the stream it reads, whatever arrives, errors included; it sends at most
  one observation, and between chunks it holds less than 64 KiB.\<close>

theorem tap_is_transparent:
  "fst (tap parse items Scanner_new) = items \<and>
   length (tp_sent (snd (tap parse items Scanner_new))) \<le> 1 \<and> length (tp_buf (snd (tap parse items Scanner_new))) < 65536"
  using fold_feed_ok[of Scanner_new parse "chunks_of items"]
  by (simp add: tap_eq scanner_ok_def Scanner_new_def SCAN_CAP_def)

text \<open>C35: the usage is always observed.  However the network cuts the response into chunks, when its
  \<^verbatim>\<open>message_start\<close> event ends within the first 64 KiB, no line before it starts such an
  event, and the JSON reader refuses the proper prefixes of its data as incomplete, the tap sends exactly
  the observation read from that data.\<close>

theorem tap_observes_message_start:
  assumes "list_all other_line before" "wire_json json"
    and "\<And>p. strict_prefix p json \<Longrightarrow> parse p = None" "parse json = Some observed"
    and "length (unlines before @ lit ''event: message_start'' @ [10] @ lit ''data: '' @ json) \<le> 65536"
    and "concat (chunks_of items) = unlines before @ lit ''event: message_start'' @ [10] @ lit ''data: '' @ json @ [10] @ rest"
  shows "tap parse items Scanner_new = (items, \<lparr>tp_buf = [], tp_sent = [observed], tp_done = True\<rparr>)"
proof -
  have "strict_prefix [] (wanted before json)" by (simp add: wanted_def data_line_def strict_prefix_def)
  then show ?thesis
    using feeds_find[of before json parse observed Scanner_new "chunks_of items" rest] assms
    by (simp add: tap_eq Scanner_new_def wanted_def event_line_def data_line_def SCAN_CAP_def del: literals)
qed

definition demo_parse :: "nat list \<Rightarrow> Observed option" where
  "demo_parse s = (if s = lit ''{}'' then Some \<lparr>ob_usage = \<lparr>cache_creation_input_tokens = 1, cache_read_input_tokens = 2,
     input_tokens = 3\<rparr>, ob_model = ModelId []\<rparr> else None)"

theorem tap_observes_message_start_witness:
  "ob_usage (hd (tp_sent (snd (tap demo_parse [Inr (lit '': ping''), Inl (), Inr ([10] @ lit ''event: message_sta''),
      Inr (lit ''rt'' @ [10] @ lit ''data: {''), Inr (lit ''}'' @ [10])] Scanner_new))))
     = \<lparr>cache_creation_input_tokens = 1, cache_read_input_tokens = 2, input_tokens = 3\<rparr>"
proof -
  have "parse_field (strip_cr (lit '': ping'')) (lit ''event:'') = None" by (simp add: lit_def strip_cr_def parse_field_def)
  moreover have "10 \<notin> set (lit '': ping'')" by (simp add: lit_def)
  ultimately have o: "list_all other_line [lit '': ping'']" by (simp add: other_line_def)
  have j: "wire_json (lit ''{}'')" "demo_parse (lit ''{}'') = Some \<lparr>ob_usage = \<lparr>cache_creation_input_tokens = 1,
      cache_read_input_tokens = 2, input_tokens = 3\<rparr>, ob_model = ModelId []\<rparr>"
    by (simp_all add: wire_json_def lit_def demo_parse_def)
  have c: "demo_parse p = None" if "strict_prefix p (lit ''{}'')" for p
    using that by (auto simp: demo_parse_def)
  show ?thesis
    by (subst tap_observes_message_start[where before = "[lit '': ping'']" and json = "lit ''{}''" and parse = demo_parse and rest = "[]", OF o j(1) c j(2)])
       (simp_all add: chunks_of_def lit_def)
qed

end
