(* ===== verification/Synth.thy ===== *)
theory Synth
  imports Usage_Tap Rewrite
begin

text \<open>
  The local answer to a compaction request: its detection (\<^verbatim>\<open>ccs-proxy/src/synth/detect.rs\<close>),
  the event stream that carries the summary (\<^verbatim>\<open>synth/sse.rs\<close>) and the choice between them
  and forwarding (\<^verbatim>\<open>synth/mod.rs\<close>).  The JSON reader and the compact printer of values are
  parameters; an object is the list of its entries, as in \<open>Rewrite\<close>.
\<close>

section \<open>Searching bytes\<close>

text \<open>\<^verbatim>\<open>memmem::find\<close>, and the number of matches \<^verbatim>\<open>find_iter\<close> gives, which do
  not overlap.\<close>

fun contains :: "nat list \<Rightarrow> nat list \<Rightarrow> bool" where
  "contains needle [] = (needle = [])"
| "contains needle (b # hay) = (starts_with (b # hay) needle \<or> contains needle hay)"

function find_count :: "nat list \<Rightarrow> nat list \<Rightarrow> nat" where
  "find_count needle hay =
     (if needle = [] \<or> hay = [] then 0
      else case strip_prefix needle hay of
          Some rest \<Rightarrow> Suc (find_count needle rest)
        | None \<Rightarrow> find_count needle (tl hay))"
  by pat_completeness auto
termination
  by (relation "measure (\<lambda>(_, hay). length hay)") (auto simp: strip_prefix_Some_iff)

declare find_count.simps [simp del]

lemma contains_iff: "contains needle hay \<longleftrightarrow> (\<exists>a b. hay = a @ needle @ b)"
proof (induction needle hay rule: contains.induct)
  case (2 needle b hay)
  have "(\<exists>a r. b # hay = a @ needle @ r) \<longleftrightarrow> (\<exists>r. b # hay = needle @ r) \<or> (\<exists>a r. hay = a @ needle @ r)"
    by (metis append_Cons append_Nil list.sel(3) neq_Nil_conv tl_append2)
  then show ?case using 2 by (simp add: starts_with_iff)
qed auto

section \<open>JSON values\<close>

fun vget :: "str \<Rightarrow> Value \<Rightarrow> Value option" where
  "vget key (VObject entries) = map_of entries key"
| "vget key _ = None"

fun as_str :: "Value \<Rightarrow> str option" where
  "as_str (VString s) = Some s"
| "as_str _ = None"

fun as_array :: "Value \<Rightarrow> Value list option" where
  "as_array (VArray vs) = Some vs"
| "as_array _ = None"

fun as_object :: "Value \<Rightarrow> (str \<times> Value) list option" where
  "as_object (VObject entries) = Some entries"
| "as_object _ = None"

fun as_u64 :: "Value \<Rightarrow> nat option" where
  "as_u64 (VNumber n) = (if n \<noteq> [] \<and> list_all is_digit n \<and> digits_value n < 2 ^ 64 then Some (digits_value n) else None)"
| "as_u64 _ = None"

section \<open>Detection\<close>

record value_json =
  vj_value :: "nat list \<Rightarrow> Value option"
  vj_print :: "Value \<Rightarrow> str"

definition COMPACT_MARKER :: "nat list" where
  "COMPACT_MARKER = lit ''CRITICAL: Respond with TEXT ONLY. Do NOT call any tools.''"

definition MAX_TOKENS_CEILING :: nat where "MAX_TOKENS_CEILING = 20000"

definition RECAP_TURNS :: nat where "RECAP_TURNS = 6"

record BriefInputs =
  bi_model :: str
  bi_working :: WorkingState
  bi_recap :: "str list"

definition message_text :: "Value \<Rightarrow> str option" where
  "message_text message = (case vget (lit ''content'') message of
      Some (VString s) \<Rightarrow> Some s
    | Some (VArray bs) \<Rightarrow>
        (let t = join_with [10] (filter_map (\<lambda>b. Option.bind (vget (lit ''text'') b) as_str)
               (filter (\<lambda>b. Option.bind (vget (lit ''type'') b) as_str = Some (lit ''text'')) bs))
         in if t = [] then None else Some t)
    | _ \<Rightarrow> None)"

definition is_user :: "Value \<Rightarrow> bool" where
  "is_user message = (Option.bind (vget (lit ''role'') message) as_str = Some (lit ''user''))"

definition object_messages :: "(str \<times> Value) list \<Rightarrow> Value list option" where
  "object_messages obj = Option.bind (map_of obj (lit ''messages'')) as_array"

definition recap_turns :: "(str \<times> Value) list \<Rightarrow> str list" where
  "recap_turns obj =
     (let users = filter_map message_text (filter is_user (case object_messages obj of None \<Rightarrow> [] | Some ms \<Rightarrow> ms))
      in rev (take RECAP_TURNS (drop 1 (rev users))))"

definition message_contains_marker :: "value_json \<Rightarrow> Value \<Rightarrow> bool" where
  "message_contains_marker V message = contains COMPACT_MARKER (utf8 (vj_print V message))"

definition last_user_contains_marker :: "value_json \<Rightarrow> (str \<times> Value) list \<Rightarrow> bool" where
  "last_user_contains_marker V obj = (case Option.bind (object_messages obj) (\<lambda>ms. find is_user (rev ms)) of
      None \<Rightarrow> False | Some message \<Rightarrow> message_contains_marker V message)"

definition marker_count :: "nat list \<Rightarrow> nat" where
  "marker_count body = find_count COMPACT_MARKER body"

definition detect :: "value_json \<Rightarrow> nat list \<Rightarrow> BriefInputs option" where
  "detect V body =
     (if \<not> contains COMPACT_MARKER body then None
      else Option.bind (vj_value V body) (\<lambda>root. Option.bind (as_object root) (\<lambda>obj.
        case (marker_count body, Option.bind (map_of obj (lit ''max_tokens'')) as_u64,
              map_of obj (lit ''tool_choice'') \<noteq> None, last_user_contains_marker V obj) of
          (n, Some limit, False, True) \<Rightarrow>
            if n = 2 \<and> limit \<le> MAX_TOKENS_CEILING
            then Some \<lparr>bi_model = (case Option.bind (map_of obj (lit ''model'')) as_str of None \<Rightarrow> lit ''claude'' | Some m \<Rightarrow> m),
                       bi_working = WorkingState_default, bi_recap = recap_turns obj\<rparr>
            else None
        | _ \<Rightarrow> None)))"

datatype SynthDecision = Synthesize BriefInputs | Forward

definition decide_request :: "value_json \<Rightarrow> nat list \<Rightarrow> SynthDecision" where
  "decide_request V body = (case detect V body of Some inputs \<Rightarrow> Synthesize inputs | None \<Rightarrow> Forward)"

section \<open>The summary\<close>

definition INPUT_TOKENS_FLOOR :: nat where "INPUT_TOKENS_FLOOR = 256"

definition estimate_tokens :: "str \<Rightarrow> nat" where
  "estimate_tokens s = str_len s div 4 + 1"

definition recap_tokens :: "BriefInputs \<Rightarrow> nat" where
  "recap_tokens inputs = sum_list (map estimate_tokens (bi_recap inputs))"

definition first_line :: "str \<Rightarrow> str" where
  "first_line s = trim (case lines s of [] \<Rightarrow> s | l # _ \<Rightarrow> l)"

definition join_or_none :: "str list \<Rightarrow> str" where
  "join_or_none items = (if items = [] then lit ''(none)'' else join_with (lit '', '') items)"

definition brief_section :: "str \<Rightarrow> str list \<Rightarrow> str \<Rightarrow> str" where
  "brief_section heading ls none =
     (if ls = [] then heading @ [10] @ none @ [10] else heading @ [10] @ join_with [10] ls @ [10])"

definition live_constraints :: "Constraint list \<Rightarrow> str" where
  "live_constraints cs = brief_section (lit ''## Live Constraints (verbatim)'')
     (map (\<lambda>c. lit ''- '' @ con_text c) (filter (\<lambda>c. con_superseded_by c = None) cs)) (lit ''- (none recorded)'')"

definition dash :: str where "dash = [32, 8212, 32]"

definition decisions_section :: "Decision list \<Rightarrow> str" where
  "decisions_section ds = brief_section (lit ''## Decisions'')
     (map (\<lambda>d. lit ''- '' @ dec_text d @ dash @ dec_rationale d @ dash @ lit ''['' @
             (if dec_planned d then lit ''planned'' else lit ''implemented'') @ lit '']'')
        (filter (\<lambda>d. dec_superseded_by d = None) ds)) (lit ''- (none recorded)'')"

definition in_flight_section :: "InFlightWork option \<Rightarrow> str" where
  "in_flight_section work = (case work of
      Some w \<Rightarrow> brief_section (lit ''## In-Flight Work'')
        [lit ''- Current task: '' @ ifw_task w,
         lit ''- Last safe point: '' @ ifw_last_safe_point w,
         lit ''- Open files: '' @ join_or_none (ifw_open_files w),
         lit ''- Re-read paths: '' @ join_or_none (ifw_skill_paths w)] []
    | None \<Rightarrow> brief_section (lit ''## In-Flight Work'') [] (lit ''- (no task in flight)''))"

definition narrative :: "BriefInputs \<Rightarrow> str" where
  "narrative inputs = brief_section (lit ''## Narrative'')
     (case in_flight (bi_working inputs) of
        Some w \<Rightarrow> [lit ''- Work continues on: '' @ ifw_task w @ lit '' (resuming from '' @ ifw_last_safe_point w @ lit '').'']
      | None \<Rightarrow>
          if bi_recap inputs = []
          then [lit ''- Compaction of a '' @ bi_model inputs @
                lit '' session with no extracted working state yet; no constraints, decisions, or in-flight task recorded.'']
          else map (\<lambda>turn. lit ''- '' @ first_line turn) (bi_recap inputs))
     (lit ''- (no narrative)'')"

definition build_summary :: "BriefInputs \<Rightarrow> str" where
  "build_summary inputs =
     lit ''<summary>'' @ [10] @ live_constraints (constraints (bi_working inputs)) @ [10] @
     decisions_section (decisions (bi_working inputs)) @ [10] @ in_flight_section (in_flight (bi_working inputs)) @ [10] @
     narrative inputs @ [10] @ lit ''</summary>''"

section \<open>The event stream\<close>

definition frame :: "(Value \<Rightarrow> str) \<Rightarrow> str \<Rightarrow> Value \<Rightarrow> nat list" where
  "frame print event data = utf8 (lit ''event: '' @ event @ [10] @ lit ''data: '' @ print data @ [10, 10])"

definition vnat :: "nat \<Rightarrow> Value" where "vnat n = VNumber (dec n)"

definition start_value :: "BriefInputs \<Rightarrow> Value" where
  "start_value inputs = VObject [(lit ''type'', VString (lit ''message_start'')),
     (lit ''message'', VObject [(lit ''id'', VString (lit ''msg_ccs_synth'')), (lit ''type'', VString (lit ''message'')),
        (lit ''role'', VString (lit ''assistant'')), (lit ''model'', VString (bi_model inputs)), (lit ''content'', VArray []),
        (lit ''stop_reason'', VNull), (lit ''stop_sequence'', VNull),
        (lit ''usage'', VObject [(lit ''input_tokens'', vnat (INPUT_TOKENS_FLOOR + recap_tokens inputs)),
           (lit ''output_tokens'', vnat 0)])])]"

definition delta_value :: "str \<Rightarrow> Value" where
  "delta_value summary = VObject [(lit ''type'', VString (lit ''content_block_delta'')), (lit ''index'', vnat 0),
     (lit ''delta'', VObject [(lit ''type'', VString (lit ''text_delta'')), (lit ''text'', VString summary)])]"

definition usage_value :: "nat \<Rightarrow> Value" where
  "usage_value output = VObject [(lit ''type'', VString (lit ''message_delta'')),
     (lit ''delta'', VObject [(lit ''stop_reason'', VString (lit ''end_turn'')), (lit ''stop_sequence'', VNull)]),
     (lit ''usage'', VObject [(lit ''output_tokens'', vnat output)])]"

definition synth_values :: "BriefInputs \<Rightarrow> (str \<times> Value) list" where
  "synth_values inputs = (let summary = build_summary inputs in
     [(lit ''message_start'', start_value inputs),
      (lit ''content_block_start'', VObject [(lit ''type'', VString (lit ''content_block_start'')), (lit ''index'', vnat 0),
         (lit ''content_block'', VObject [(lit ''type'', VString (lit ''text'')), (lit ''text'', VString [])])]),
      (lit ''content_block_delta'', delta_value summary),
      (lit ''content_block_stop'', VObject [(lit ''type'', VString (lit ''content_block_stop'')), (lit ''index'', vnat 0)]),
      (lit ''message_delta'', usage_value (estimate_tokens summary)),
      (lit ''message_stop'', VObject [(lit ''type'', VString (lit ''message_stop''))])])"

definition synth_events :: "(Value \<Rightarrow> str) \<Rightarrow> BriefInputs \<Rightarrow> nat list list" where
  "synth_events print inputs = map (\<lambda>(event, data). frame print event data) (synth_values inputs)"

record Response =
  rp_status :: nat
  rp_headers :: "(str \<times> str) list"
  rp_body :: "nat list"

definition synth_response :: "(Value \<Rightarrow> str) \<Rightarrow> BriefInputs \<Rightarrow> Response" where
  "synth_response print inputs =
     \<lparr>rp_status = 200,
      rp_headers = [(lit ''content-type'', lit ''text/event-stream''), (lit ''cache-control'', lit ''no-cache'')],
      rp_body = concat (synth_events print inputs)\<rparr>"

section \<open>Reading the stream back\<close>

text \<open>An event-stream reader: fields set the event and extend the data, an empty line dispatches.\<close>

fun sse_read :: "nat list \<Rightarrow> nat list option \<Rightarrow> nat list list \<Rightarrow> (nat list \<times> nat list) list" where
  "sse_read ev data [] = []"
| "sse_read ev data (raw # rest) =
     (let line = strip_cr raw in
      if line = [] then (case data of None \<Rightarrow> sse_read [] None rest | Some d \<Rightarrow> (ev, d) # sse_read [] None rest)
      else case parse_field line (lit ''event:'') of
          Some name \<Rightarrow> sse_read name data rest
        | None \<Rightarrow> (case parse_field line (lit ''data:'') of
              Some d \<Rightarrow> sse_read ev (Some (case data of None \<Rightarrow> d | Some d0 \<Rightarrow> d0 @ 10 # d)) rest
            | None \<Rightarrow> sse_read ev data rest))"

definition sse_events :: "nat list \<Rightarrow> (nat list \<times> nat list) list" where
  "sse_events stream = sse_read [] None (split_on (\<lambda>b. b = 10) stream)"

lemma utf8_simps [simp]: "utf8 [] = []" "utf8 (s @ t) = utf8 s @ utf8 t" "utf8 (c # s) = utf8_char c @ utf8 s"
  by (simp_all add: utf8_def)

lemma utf8_line: "line_ok s \<Longrightarrow> line_ok (utf8 s)"
proof (induction s)
  case (Cons c s)
  have "x \<in> set (utf8_char c) \<Longrightarrow> x = c \<or> 128 \<le> x" for x by (auto simp: utf8_char_def split: if_splits)
  then show ?case using Cons by (force simp: line_ok_def)
qed simp

definition event_name :: "nat list \<Rightarrow> bool" where
  "event_name e = list_all (\<lambda>c. 32 < c \<and> c < 128) e"

lemma event_name_line: "event_name e \<Longrightarrow> line_ok e \<and> utf8 e = e"
  by (auto simp: event_name_def line_ok_def list_all_iff intro!: utf8_ascii)

lemma sse_events_frame:
  assumes "event_name e" "line_ok (print v)"
  shows "sse_events (frame print e v @ s) = (e, utf8 (print v)) # sse_events s"
proof -
  let ?E = "[101, 118, 101, 110, 116, 58, 32] @ e" and ?D = "data_line (utf8 (print v))"
  have u: "utf8 (lit ''event: '') = [101, 118, 101, 110, 116, 58, 32]" "utf8 (lit ''data: '') = lit ''data: ''"
    by (simp_all add: lit_def utf8_char_def)
  have f: "frame print e v @ s = ?E @ 10 # ?D @ 10 # [] @ 10 # s"
    using event_name_line[OF assms(1)] u by (simp add: frame_def data_line_def utf8_char_def del: literals)
  have ok: "10 \<notin> set ?E" "13 \<notin> set ?E" "10 \<notin> set ?D" "13 \<notin> set ?D"
    using event_name_line[OF assms(1)] utf8_line[OF assms(2)] by (auto simp: line_ok_def data_line_def)
  have "parse_field ?E (lit ''event:'') = Some e" by (simp add: parse_field_def)
  moreover have "?E \<noteq> []" "?D \<noteq> []" by (simp_all add: data_line_def)
  moreover have "split_on (\<lambda>b. b = 10) (frame print e v @ s) = ?E # ?D # [] # split_on (\<lambda>b. b = 10) s"
    unfolding f by (subst split_on_line[OF ok(1)], subst split_on_line[OF ok(3)], subst split_on_line) simp_all
  moreover have "strip_cr ?E = ?E" "strip_cr ?D = ?D" "strip_cr [] = []"
    using ok by (auto intro!: strip_cr_id)
  ultimately show ?thesis
    unfolding sse_events_def by (simp only: sse_read.simps Let_def data_fields if_False if_True option.case refl)
qed

lemma sse_events_frames:
  "(\<And>e v. (e, v) \<in> set evs \<Longrightarrow> event_name e \<and> line_ok (print v)) \<Longrightarrow>
   sse_events (concat (map (\<lambda>(e, v). frame print e v) evs)) = map (\<lambda>(e, v). (e, utf8 (print v))) evs"
proof (induction evs)
  case Nil
  then show ?case by (simp add: sse_events_def strip_cr_def)
next
  case (Cons p evs)
  obtain e v where p: "p = (e, v)" by (cases p)
  have "event_name e" "line_ok (print v)" using Cons.prems[of e v] by (simp_all add: p)
  moreover have "sse_events (concat (map (\<lambda>(e, v). frame print e v) evs)) = map (\<lambda>(e, v). (e, utf8 (print v))) evs"
    by (rule Cons.IH) (use Cons.prems in auto)
  ultimately show ?case by (simp add: p sse_events_frame)
qed

lemma synth_values_names: "(e, v) \<in> set (synth_values inputs) \<Longrightarrow> event_name e"
  by (auto simp: synth_values_def Let_def event_name_def lit_def)

lemma join_with_member:
  assumes "x \<in> set xs"
  shows "\<exists>a b. join_with sep xs = a @ x @ b"
proof -
  obtain ys zs where xs: "xs = ys @ x # zs" using assms by (auto simp: in_set_conv_decomp)
  show ?thesis
  proof (cases ys)
    case Nil
    then show ?thesis using append_Nil[of "x @ concat (map (\<lambda>y. sep @ y) zs)"] by (auto simp: xs join_with_def)
  next
    case (Cons w ws)
    have "join_with sep xs = (w @ concat (map (\<lambda>y. sep @ y) ws) @ sep) @ x @ concat (map (\<lambda>y. sep @ y) zs)"
      by (simp add: xs Cons join_with_def)
    then show ?thesis by blast
  qed
qed

lemma section_member: "x \<in> set ls \<Longrightarrow> \<exists>a b. brief_section heading ls none = a @ x @ b"
  using join_with_member[of x ls "[10]"] by (auto simp: brief_section_def) (metis append.assoc append_Cons)

lemma summary_lines:
  assumes "x \<in> set [live_constraints (constraints (bi_working inputs)), decisions_section (decisions (bi_working inputs)),
      in_flight_section (in_flight (bi_working inputs)), narrative inputs]" "\<exists>a b. x = a @ y @ b"
  shows "\<exists>a b. build_summary inputs = a @ y @ b"
  using assms by (auto simp: build_summary_def) (metis append.assoc append_Cons)+

text \<open>What the summary states, section by section.\<close>

lemma summary_contains:
  assumes "y \<in> set ls" "brief_section heading ls none \<in> set [live_constraints (constraints (bi_working inputs)),
      decisions_section (decisions (bi_working inputs)), in_flight_section (in_flight (bi_working inputs)), narrative inputs]"
    "y = a @ x @ b"
  shows "contains x (build_summary inputs)"
proof -
  obtain c d where "build_summary inputs = c @ y @ d" using summary_lines[OF assms(2) section_member[OF assms(1)]] by blast
  then have "build_summary inputs = (c @ a) @ x @ (b @ d)" by (simp add: assms(3))
  then show ?thesis unfolding contains_iff by blast
qed

lemma states_constraints: "\<forall>c \<in> set (constraints (bi_working inputs)). con_superseded_by c = None \<longrightarrow>
    contains (lit ''- '' @ con_text c) (build_summary inputs)"
  by (intro ballI impI, rule summary_contains[where a = "[]" and b = "[]"])
     (auto simp: live_constraints_def intro: image_eqI)

lemma states_decisions: "\<forall>d \<in> set (decisions (bi_working inputs)). dec_superseded_by d = None \<longrightarrow>
    contains (lit ''- '' @ dec_text d @ dash @ dec_rationale d @ dash @ lit ''['' @
      (if dec_planned d then lit ''planned'' else lit ''implemented'') @ lit '']'') (build_summary inputs)"
proof (intro ballI impI)
  fix d
  let ?line = "\<lambda>d. lit ''- '' @ dec_text d @ dash @ dec_rationale d @ dash @ lit ''['' @
      (if dec_planned d then lit ''planned'' else lit ''implemented'') @ lit '']''"
  assume "d \<in> set (decisions (bi_working inputs))" "dec_superseded_by d = None"
  then have "?line d \<in> set (map ?line (filter (\<lambda>d. dec_superseded_by d = None) (decisions (bi_working inputs))))"
    unfolding set_map set_filter by (intro imageI) simp
  then show "contains (?line d) (build_summary inputs)"
    by (rule summary_contains[where a = "[]" and b = "[]"]) (auto simp: decisions_section_def)
qed

lemma states_work: "case in_flight (bi_working inputs) of
    Some w \<Rightarrow> contains (lit ''- Current task: '' @ ifw_task w) (build_summary inputs) \<and>
      contains (lit ''- Last safe point: '' @ ifw_last_safe_point w) (build_summary inputs) \<and>
      (\<forall>path \<in> set (ifw_open_files w) \<union> set (ifw_skill_paths w). contains path (build_summary inputs))
  | None \<Rightarrow> (\<forall>turn \<in> set (bi_recap inputs). contains (lit ''- '' @ first_line turn) (build_summary inputs))"
proof (cases "in_flight (bi_working inputs)")
  case None
  have "contains (lit ''- '' @ first_line turn) (build_summary inputs)" if "turn \<in> set (bi_recap inputs)" for turn
    by (rule summary_contains[where a = "[]" and b = "[]" and heading = "lit ''## Narrative''"
          and ls = "map (\<lambda>turn. lit ''- '' @ first_line turn) (bi_recap inputs)" and none = "lit ''- (no narrative)''"])
       (use that None in \<open>auto simp: narrative_def\<close>)
  then show ?thesis by (simp add: None)
next
  case (Some w)
  let ?ls = "[lit ''- Current task: '' @ ifw_task w, lit ''- Last safe point: '' @ ifw_last_safe_point w,
    lit ''- Open files: '' @ join_or_none (ifw_open_files w), lit ''- Re-read paths: '' @ join_or_none (ifw_skill_paths w)]"
  have line: "contains x (build_summary inputs)" if "y \<in> set ?ls" "y = a @ x @ b" for x y a b
    by (rule summary_contains[OF that(1) _ that(2), where heading = "lit ''## In-Flight Work''" and none = "[]"])
       (simp add: in_flight_section_def Some)
  have path: "\<exists>a b. pre @ join_or_none xs = a @ x @ b" if "x \<in> set xs" for pre x and xs :: "str list"
    using join_with_member[OF that, of "lit '', ''"] that by (auto simp: join_or_none_def) (metis append.assoc)
  have "contains x (build_summary inputs)" if "x \<in> set (ifw_open_files w) \<union> set (ifw_skill_paths w)" for x
    using that path[of x "ifw_open_files w" "lit ''- Open files: ''"] path[of x "ifw_skill_paths w" "lit ''- Re-read paths: ''"]
      line[of "lit ''- Open files: '' @ join_or_none (ifw_open_files w)"] line[of "lit ''- Re-read paths: '' @ join_or_none (ifw_skill_paths w)"]
    by auto
  moreover have "contains (lit ''- Current task: '' @ ifw_task w) (build_summary inputs)"
    "contains (lit ''- Last safe point: '' @ ifw_last_safe_point w) (build_summary inputs)"
    using line[of _ "[]" _ "[]"] by auto
  ultimately show ?thesis by (simp add: Some)
qed

section \<open>Properties\<close>

text \<open>C36: the synthesized answer is a well-formed event stream.  When the compact printer writes no line
  break, reading the body back gives exactly the six events of a streamed message in their order, each
  with its JSON data.  The text delta carries a summary that states every live constraint verbatim, every live
  decision with its rationale and whether it is planned, and then either, with a task in flight, the task, its last
  safe point and each of its open files and paths, or, with none, the first line of every recapped turn (the rest
  of a recapped turn is not in the summary).  The usage claims at least 256 input tokens and one output token.\<close>

theorem synth_stream_round_trips:
  assumes "\<And>v. line_ok (print v)"
  shows "sse_events (rp_body (synth_response print inputs)) = map (\<lambda>(e, v). (e, utf8 (print v))) (synth_values inputs) \<and>
    map fst (synth_values inputs) = [lit ''message_start'', lit ''content_block_start'', lit ''content_block_delta'',
      lit ''content_block_stop'', lit ''message_delta'', lit ''message_stop''] \<and>
    (\<exists>summary. synth_values inputs ! 2 = (lit ''content_block_delta'', delta_value summary) \<and>
       (\<forall>c \<in> set (constraints (bi_working inputs)). con_superseded_by c = None \<longrightarrow> contains (lit ''- '' @ con_text c) summary) \<and>
       (\<forall>d \<in> set (decisions (bi_working inputs)). dec_superseded_by d = None \<longrightarrow>
          contains (lit ''- '' @ dec_text d @ dash @ dec_rationale d @ dash @ lit ''['' @
            (if dec_planned d then lit ''planned'' else lit ''implemented'') @ lit '']'') summary) \<and>
       (case in_flight (bi_working inputs) of
          Some w \<Rightarrow> contains (lit ''- Current task: '' @ ifw_task w) summary \<and>
            contains (lit ''- Last safe point: '' @ ifw_last_safe_point w) summary \<and>
            (\<forall>path \<in> set (ifw_open_files w) \<union> set (ifw_skill_paths w). contains path summary)
        | None \<Rightarrow> (\<forall>turn \<in> set (bi_recap inputs). contains (lit ''- '' @ first_line turn) summary)) \<and>
       (\<exists>n \<ge> 1. synth_values inputs ! 4 = (lit ''message_delta'', usage_value n))) \<and>
    (\<exists>n \<ge> 256. Option.bind (Option.bind (vget (lit ''message'') (snd (synth_values inputs ! 0))) (vget (lit ''usage'')))
        (vget (lit ''input_tokens'')) = Some (vnat n))"
proof (intro conjI)
  show "sse_events (rp_body (synth_response print inputs)) = map (\<lambda>(e, v). (e, utf8 (print v))) (synth_values inputs)"
    using sse_events_frames[of "synth_values inputs" print] synth_values_names assms
    by (simp add: synth_response_def synth_events_def)
  show "map fst (synth_values inputs) = [lit ''message_start'', lit ''content_block_start'', lit ''content_block_delta'',
      lit ''content_block_stop'', lit ''message_delta'', lit ''message_stop'']"
    by (simp add: synth_values_def Let_def)
  show "\<exists>summary. synth_values inputs ! 2 = (lit ''content_block_delta'', delta_value summary) \<and>
       (\<forall>c \<in> set (constraints (bi_working inputs)). con_superseded_by c = None \<longrightarrow> contains (lit ''- '' @ con_text c) summary) \<and>
       (\<forall>d \<in> set (decisions (bi_working inputs)). dec_superseded_by d = None \<longrightarrow>
          contains (lit ''- '' @ dec_text d @ dash @ dec_rationale d @ dash @ lit ''['' @
            (if dec_planned d then lit ''planned'' else lit ''implemented'') @ lit '']'') summary) \<and>
       (case in_flight (bi_working inputs) of
          Some w \<Rightarrow> contains (lit ''- Current task: '' @ ifw_task w) summary \<and>
            contains (lit ''- Last safe point: '' @ ifw_last_safe_point w) summary \<and>
            (\<forall>path \<in> set (ifw_open_files w) \<union> set (ifw_skill_paths w). contains path summary)
        | None \<Rightarrow> (\<forall>turn \<in> set (bi_recap inputs). contains (lit ''- '' @ first_line turn) summary)) \<and>
       (\<exists>n \<ge> 1. synth_values inputs ! 4 = (lit ''message_delta'', usage_value n))"
    by (intro exI[of _ "build_summary inputs"] conjI exI[of _ "estimate_tokens (build_summary inputs)"]
        states_constraints states_decisions states_work)
       (simp_all add: synth_values_def Let_def estimate_tokens_def)
  show "\<exists>n \<ge> 256. Option.bind (Option.bind (vget (lit ''message'') (snd (synth_values inputs ! 0))) (vget (lit ''usage'')))
        (vget (lit ''input_tokens'')) = Some (vnat n)"
    by (rule exI[of _ "256 + recap_tokens inputs"]) (simp add: synth_values_def Let_def start_value_def INPUT_TOKENS_FLOOR_def)
qed

definition brief_demo :: BriefInputs where
  "brief_demo = \<lparr>bi_model = [], bi_working = WorkingState_default\<lparr>constraints :=
     [\<lparr>con_text = lit ''no db'', con_source_message = MessageId [], con_superseded_by = None\<rparr>]\<rparr>, bi_recap = [lit ''hello'']\<rparr>"

theorem synth_stream_round_trips_witness:
  "map fst (sse_events (rp_body (synth_response (\<lambda>_. lit ''{}'') brief_demo))) =
     [lit ''message_start'', lit ''content_block_start'', lit ''content_block_delta'',
      lit ''content_block_stop'', lit ''message_delta'', lit ''message_stop''] \<and>
   (\<exists>summary. synth_values brief_demo ! 2 = (lit ''content_block_delta'', delta_value summary) \<and> contains (lit ''- no db'') summary)"
proof -
  have p: "line_ok (lit ''{}'')" by (simp add: line_ok_def lit_def)
  note rt = synth_stream_round_trips[of "\<lambda>_. lit ''{}''" brief_demo, OF p]
  obtain summary where "synth_values brief_demo ! 2 = (lit ''content_block_delta'', delta_value summary)"
    "\<forall>c \<in> set (constraints (bi_working brief_demo)). con_superseded_by c = None \<longrightarrow> contains (lit ''- '' @ con_text c) summary"
    using rt by blast
  then have "synth_values brief_demo ! 2 = (lit ''content_block_delta'', delta_value summary) \<and> contains (lit ''- no db'') summary"
    using lit_append[of "''- ''" "''no db''"] by (simp add: brief_demo_def)
  moreover have "map fst (map (\<lambda>(e, v). (e, utf8 (lit ''{}''))) vs) = map fst vs" for vs :: "(str \<times> Value) list"
    by (induction vs) auto
  ultimately show ?thesis using rt by auto
qed

end
