(* ===== verification/Relay.thy ===== *)
theory Relay
  imports Staging Synth
begin

text \<open>
  The inbound side of the proxy, operation by operation: the shared state (\<^verbatim>\<open>app.rs\<close>), the
  per-session routes (\<^verbatim>\<open>demux.rs\<close>), header hygiene (\<^verbatim>\<open>headers.rs\<close>), what the
  relay reads from and writes to a session (\<^verbatim>\<open>relay.rs\<close>), the control frames
  (\<^verbatim>\<open>seam.rs\<close>) and the retrieval tool (\<^verbatim>\<open>mcp.rs\<close>), all under
  \<^verbatim>\<open>ccs-proxy/src\<close>.

  A session's \<^verbatim>\<open>Arc<Mutex<SessionEcon>>\<close> outlives its registration, so it is a cell of a
  heap and the registration holds its address.  A lock that a panic has poisoned gives nothing, and
  every operation leaves such a cell alone.  The \<^verbatim>\<open>DashMap\<close> of sessions is a list of
  entries with distinct tokens.
\<close>

section \<open>Shared state\<close>

record SessionCtx =
  ctx_config :: RelayConfig
  ctx_session_id :: SessionId
  ctx_econ :: "nat option"

record 'b AppState =
  as_upstream :: str
  as_sessions :: "(str \<times> SessionCtx) list"
  as_kill :: bool
  as_shadow :: bool
  as_store :: "Row list"
  as_cells :: "nat \<rightharpoonup> 'b SessionEcon"
  as_next :: nat
  as_poisoned :: "nat list"

definition AppState_new :: "str \<Rightarrow> Row list \<Rightarrow> 'b AppState" where
  "AppState_new upstream rows = \<lparr>as_upstream = upstream, as_sessions = [], as_kill = False, as_shadow = False,
     as_store = rows, as_cells = Map.empty, as_next = 0, as_poisoned = []\<rparr>"

definition lock :: "nat \<Rightarrow> 'b AppState \<Rightarrow> 'b SessionEcon option" where
  "lock a st = (if a \<in> set (as_poisoned st) then None else as_cells st a)"

definition update_cell :: "nat \<Rightarrow> ('b SessionEcon \<Rightarrow> 'b SessionEcon) \<Rightarrow> 'b AppState \<Rightarrow> 'b AppState" where
  "update_cell a f st = (case lock a st of None \<Rightarrow> st | Some s \<Rightarrow> st\<lparr>as_cells := (as_cells st)(a \<mapsto> f s)\<rparr>)"

definition session_ctx :: "'b AppState \<Rightarrow> str \<Rightarrow> SessionCtx option" where
  "session_ctx st token = map_of (as_sessions st) token"

definition session_cell :: "'b AppState \<Rightarrow> str option \<Rightarrow> nat option" where
  "session_cell st token = Option.bind (Option.bind token (session_ctx st)) ctx_econ"

section \<open>Requests\<close>

record HttpReq =
  rq_method :: str
  rq_uri :: str
  rq_headers :: "(str \<times> str) list"
  rq_body :: "nat list option"

definition MAX_BODY :: nat where "MAX_BODY = 16 * 1024 * 1024"

text \<open>The buffered body: \<open>None\<close> when it could not be read or is over the ceiling.\<close>

definition to_bytes :: "HttpReq \<Rightarrow> nat list option" where
  "to_bytes req = (case rq_body req of None \<Rightarrow> None | Some b \<Rightarrow> if MAX_BODY < length b then None else Some b)"

definition STRIP :: "str list" where
  "STRIP = [lit ''connection'', lit ''proxy-connection'', lit ''keep-alive'', lit ''transfer-encoding'', lit ''te'',
     lit ''trailer'', lit ''upgrade'', lit ''host'', lit ''content-length'']"

definition sanitize :: "(str \<times> str) list \<Rightarrow> (str \<times> str) list" where
  "sanitize headers = filter (\<lambda>(name, _). name \<notin> set STRIP) headers"

text \<open>The forward (\<^verbatim>\<open>forward.rs\<close>): the head of the request that goes upstream, and what
  comes back from the upstream's reply, \<open>Inl\<close> a failed send - the response, or a bad gateway, and the
  usage that the tap observed when the forward has a sink for it.\<close>

record Upstream =
  up_status :: nat
  up_headers :: "(str \<times> str) list"
  up_stream :: "(unit + nat list) list"

definition upstream_head :: "HttpReq \<Rightarrow> HttpReq" where
  "upstream_head req = req\<lparr>rq_headers := sanitize (rq_headers req)\<rparr>"

definition relay_response :: "(nat list \<Rightarrow> Observed option) \<Rightarrow> bool \<Rightarrow> Upstream \<Rightarrow> Upstream \<times> Observed option" where
  "relay_response parse sink upstream =
     (let (items, scanner) = (if sink then tap parse (up_stream upstream) Scanner_new else (up_stream upstream, Scanner_new))
      in (upstream\<lparr>up_headers := sanitize (up_headers upstream), up_stream := items\<rparr>,
          case tp_sent scanner of [] \<Rightarrow> None | observed # _ \<Rightarrow> Some observed))"

definition forward :: "(nat list \<Rightarrow> Observed option) \<Rightarrow> bool \<Rightarrow> unit + Upstream \<Rightarrow> Upstream option \<times> Observed option" where
  "forward parse sink reply = (case reply of
      Inl _ \<Rightarrow> (None, None)
    | Inr upstream \<Rightarrow> (let (response, observed) = relay_response parse sink upstream in (Some response, observed)))"

text \<open>The stream passes through the tap unchanged, so the answer does not depend on the sink.\<close>

lemma forward_response: "fst (forward parse sink reply) =
    (case reply of Inl _ \<Rightarrow> None | Inr up \<Rightarrow> Some (up\<lparr>up_headers := sanitize (up_headers up)\<rparr>))"
  by (auto simp: forward_def relay_response_def tap_eq split: sum.splits)

definition AUTH_HEADERS :: "str list" where
  "AUTH_HEADERS = [lit ''authorization'', lit ''x-api-key'', lit ''anthropic-version'', lit ''anthropic-beta'']"

definition capture_auth :: "'b AppState \<Rightarrow> (str \<times> str) list \<Rightarrow> SessionAuthContext" where
  "capture_auth st headers =
     \<lparr>ac_headers = filter (\<lambda>(name, _). name \<in> set AUTH_HEADERS) headers, ac_upstream = as_upstream st\<rparr>"

datatype Inspect = InspectYes "str option" | InspectNo

definition split_once :: "nat \<Rightarrow> str \<Rightarrow> (str \<times> str) option" where
  "split_once c s = (if c \<in> set s then Some (takeWhile (\<lambda>x. x \<noteq> c) s, tl (dropWhile (\<lambda>x. x \<noteq> c) s)) else None)"

definition inspect_for :: "'b AppState \<Rightarrow> str \<Rightarrow> str \<Rightarrow> str \<Rightarrow> Inspect" where
  "inspect_for st method inner token =
     (if method = lit ''POST'' \<and> inner = lit ''/v1/messages'' \<and> session_ctx st token \<noteq> None
      then InspectYes (Some token) else InspectNo)"

definition inner_path_and_query :: "str \<Rightarrow> str \<Rightarrow> str option" where
  "inner_path_and_query path_and_query pre = map_option (\<lambda>rest.
     if rest = [] then lit ''/'' else if starts_with rest (lit ''?'') then lit ''/'' @ rest else rest)
     (strip_prefix pre path_and_query)"

definition strip_session_prefix :: "(str \<Rightarrow> str option) \<Rightarrow> str \<Rightarrow> HttpReq \<Rightarrow> HttpReq" where
  "strip_session_prefix parse_uri token req =
     (case Option.bind (inner_path_and_query (rq_uri req) (lit ''/s/'' @ token)) parse_uri of
        Some uri \<Rightarrow> req\<lparr>rq_uri := uri\<rparr> | None \<Rightarrow> req)"

text \<open>The handler of \<^verbatim>\<open>/s/*rest\<close>: how the request is inspected, and the request that goes on.\<close>

definition session_route :: "(str \<Rightarrow> str option) \<Rightarrow> 'b AppState \<Rightarrow> str \<Rightarrow> HttpReq \<Rightarrow> Inspect \<times> HttpReq" where
  "session_route parse_uri st rest req =
     (let (token, inner) = (case split_once 47 rest of Some (token, inner) \<Rightarrow> (token, lit ''/'' @ inner) | None \<Rightarrow> (rest, lit ''/''))
      in (inspect_for st (rq_method req) inner token, strip_session_prefix parse_uri token req))"

text \<open>The router (\<^verbatim>\<open>app.rs\<close>): the path of a request selects its handler.  A catch-all does not match
  an empty rest; its match is percent-decoded (\<open>decode\<close>), and refused as a bad request when the decoded
  bytes are no text; \<^verbatim>\<open>post\<close> refuses every other method.\<close>

datatype Route = Handled Inspect HttpReq | Refused nat

definition request_path :: "str \<Rightarrow> str" where
  "request_path uri = takeWhile (\<lambda>c. c \<noteq> 63) uri"

definition router :: "(str \<Rightarrow> str option) \<Rightarrow> (str \<Rightarrow> str option) \<Rightarrow> 'b AppState \<Rightarrow> HttpReq \<Rightarrow> Route" where
  "router decode parse_uri st req =
     (let path = request_path (rq_uri req) in
      case strip_prefix (lit ''/s/'') path of
        Some (c # rest) \<Rightarrow> (case decode (c # rest) of
            None \<Rightarrow> Refused 400
          | Some rest' \<Rightarrow> (let (inspect, req') = session_route parse_uri st rest' req in Handled inspect req'))
      | _ \<Rightarrow>
          if path = lit ''/v1/messages''
          then (if rq_method req = lit ''POST'' then Handled (InspectYes None) req else Refused 405)
          else Handled InspectNo req)"

section \<open>The relay's reads and writes\<close>

definition close_window :: "'b SessionEcon \<Rightarrow> 'b SessionEcon" where
  "close_window s = s\<lparr>sx_window_closed := True\<rparr>"

definition intercept_inputs :: "f64 \<Rightarrow> 'b SessionEcon \<Rightarrow> (InterceptInputs \<times> 'b SessionEcon) option" where
  "intercept_inputs now s = (case (sx_intercept_enabled s, sx_econ s) of
      (True, Some model_econ) \<Rightarrow>
        Some (\<lparr>ii_econ = model_econ, ii_cache = sx_cache s, ii_npv_floor = sx_npv_floor s, ii_policy = sx_policy s,
               ii_remaining_turns = sx_remaining_turns s, ii_hot_refs = sx_hot_refs s, ii_fast_lane = sx_fast_lane s,
               ii_last_message_count = sx_last_message_count s, ii_window_closed = sx_window_closed s,
               ii_staged = sx_staged s, ii_token_scale = sx_token_scale s, ii_now = now\<rparr>,
              s\<lparr>sx_staged := None\<rparr>)
    | _ \<Rightarrow> None)"

definition stash_predicted_bust :: "Cost option \<Rightarrow> 'b SessionEcon \<Rightarrow> 'b SessionEcon" where
  "stash_predicted_bust predicted s = (case predicted of None \<Rightarrow> s | Some c \<Rightarrow> s\<lparr>sx_last_predicted_bust := Some c\<rparr>)"

text \<open>\<^verbatim>\<open>extend\<close> and \<^verbatim>\<open>remove\<close> on a hash set kept as a list.\<close>

definition set_extend :: "'a list \<Rightarrow> 'a list \<Rightarrow> 'a list" where
  "set_extend xs new = fold (\<lambda>x acc. if x \<in> set acc then acc else acc @ [x]) new xs"

definition commit_fast_lane :: "RefId list \<Rightarrow> RefId list \<Rightarrow> 'b SessionEcon \<Rightarrow> 'b SessionEcon" where
  "commit_fast_lane committed uncommitted s =
     (if committed = [] \<and> uncommitted = [] then s
      else s\<lparr>sx_fast_lane := filter (\<lambda>k. k \<notin> set uncommitted) (set_extend (sx_fast_lane s) committed)\<rparr>)"

definition stash_egress_snapshot :: "serde \<Rightarrow> nat list \<Rightarrow> 'b SessionEcon \<Rightarrow> 'b SessionEcon" where
  "stash_egress_snapshot J body s = (case parse_body J body of
      None \<Rightarrow> s\<lparr>sx_last_estimated_prefix := Some 0\<rparr>
    | Some w \<Rightarrow>
        s\<lparr>sx_last_estimated_prefix := Some (foldl (\<lambda>acc seg. acc + token_estimate seg) 0 (segment_prompt J w)),
          sx_last_message_count := max (sx_last_message_count s) (length (messages w)),
          sx_window_closed := False\<rparr>)"

definition claim_staging :: "nat \<Rightarrow> 'b AppState \<Rightarrow> bool \<times> 'b AppState" where
  "claim_staging a st = (case lock a st of
      None \<Rightarrow> (False, st)
    | Some s \<Rightarrow> if sx_staging s then (False, st) else (True, update_cell a (\<lambda>s. s\<lparr>sx_staging := True\<rparr>) st))"

definition working_snapshot :: "'b AppState \<Rightarrow> str option \<Rightarrow> WorkingState" where
  "working_snapshot st token = (case Option.bind (session_cell st token) (\<lambda>a. lock a st) of
      None \<Rightarrow> WorkingState_default | Some s \<Rightarrow> sx_working s)"

definition body_model :: "serde \<Rightarrow> nat list \<Rightarrow> ModelId option" where
  "body_model J body = map_option wb_model (parse_body J body)"

definition replace_ctx :: "str \<Rightarrow> SessionCtx \<Rightarrow> 'b AppState \<Rightarrow> 'b AppState" where
  "replace_ctx token ctx st =
     st\<lparr>as_sessions := (token, ctx) # filter (\<lambda>(t, _). t \<noteq> token) (as_sessions st)\<rparr>"

definition init_econ ::
  "'b failsafe \<Rightarrow> serde \<Rightarrow> f64 \<Rightarrow> str \<Rightarrow> SessionCtx \<Rightarrow> (str \<times> str) list \<Rightarrow> nat list \<Rightarrow> 'b AppState \<Rightarrow> nat \<times> 'b AppState" where
  "init_econ F J now token ctx headers body st =
     (let a = as_next st;
          s = SessionEcon_new F
            \<lparr>cached_prefix_tokens = 0, last_request_ts = now, assumed_ttl_s = ek_ttl_auto_s (rc_economics (ctx_config ctx)),
             cs_model = (case body_model J body of None \<Rightarrow> ModelId (lit ''unknown'') | Some m \<Rightarrow> m), cs_breakpoints = []\<rparr>
            (capture_auth st headers) (ek_npv_floor (rc_economics (ctx_config ctx))) (policy_config (rc_policy (ctx_config ctx)))
      in (a, (replace_ctx token (ctx\<lparr>ctx_econ := Some a\<rparr>) st)\<lparr>as_cells := (as_cells st)(a \<mapsto> s), as_next := a + 1\<rparr>))"

definition lazy_econ ::
  "'b failsafe \<Rightarrow> serde \<Rightarrow> f64 \<Rightarrow> str \<Rightarrow> (str \<times> str) list \<Rightarrow> nat list \<Rightarrow> 'b AppState \<Rightarrow> (nat \<times> SessionId \<times> 'b AppState) option" where
  "lazy_econ F J now token headers body st = map_option (\<lambda>ctx.
     case ctx_econ ctx of
       Some a \<Rightarrow> (a, ctx_session_id ctx, st)
     | None \<Rightarrow> (let (a, st') = init_econ F J now token ctx headers body st in (a, ctx_session_id ctx, st')))
     (session_ctx st token)"

text \<open>The cell, the session, whether this turn won the staging guard, and the state.\<close>

definition forward_setup ::
  "'b failsafe \<Rightarrow> serde \<Rightarrow> f64 \<Rightarrow> str \<Rightarrow> (str \<times> str) list \<Rightarrow> nat list \<Rightarrow> 'b AppState \<Rightarrow> (nat \<times> SessionId \<times> bool \<times> 'b AppState) option" where
  "forward_setup F J now token headers body st = map_option (\<lambda>(a, sess, st1).
     let (claimed, st2) = claim_staging a st1 in (a, sess, claimed, st2)) (lazy_econ F J now token headers body st)"

text \<open>What the drain of a reply folds into the session: the one observation of the tap, if there was one.\<close>

definition drain :: "'b failsafe \<Rightarrow> nat \<Rightarrow> f64 \<Rightarrow> nat \<Rightarrow> Observed option \<Rightarrow> 'b AppState \<Rightarrow> 'b AppState" where
  "drain F instant now a received st = (case received of
      None \<Rightarrow> st
    | Some observed \<Rightarrow> update_cell a (observe F instant (ob_usage observed) now) st)"

section \<open>Control frames\<close>

definition PROTOCOL_VERSION :: u32 where "PROTOCOL_VERSION = 1"

definition GRACE_SECONDS :: f64 where "GRACE_SECONDS = fl 600"

definition MAX_REFS_BYTES :: nat where "MAX_REFS_BYTES = 256 * 1024 * 1024"

datatype Control =
    Mint (protocol: u32) str RelayConfig
  | Evict (protocol: u32) str
  | Shadow (protocol: u32) bool
  | Kill (protocol: u32) bool
  | Gc (protocol: u32)
  | Shutdown (protocol: u32)

datatype ControlOutcome = GoOn | ShutDown | ProtocolError

definition reachable_refs :: "'b AppState \<Rightarrow> RefId set" where
  "reachable_refs st = (\<Union>(_, ctx) \<in> set (as_sessions st). case ctx_econ ctx of
      None \<Rightarrow> {}
    | Some a \<Rightarrow> (case lock a st of None \<Rightarrow> {} | Some s \<Rightarrow> (case sx_staged s of None \<Rightarrow> {} | Some plan \<Rightarrow> dom (by_content plan))))"

text \<open>A collection's sweep: the reachable set was computed when it was spawned, and a failed sweep is logged.\<close>

definition run_gc :: "RefId set \<Rightarrow> f64 \<Rightarrow> 'b AppState \<Rightarrow> 'b AppState" where
  "run_gc reachable now st = (case gc reachable GRACE_SECONDS MAX_REFS_BYTES now (as_store st) of
      None \<Rightarrow> st | Some (evicted, rows) \<Rightarrow> st\<lparr>as_store := rows\<rparr>)"

text \<open>The outcome, the state, and the reachable set of the collection that was spawned.\<close>

definition apply_control :: "(str \<Rightarrow> Control option) \<Rightarrow> str \<Rightarrow> 'b AppState \<Rightarrow> ControlOutcome \<times> 'b AppState \<times> RefId set option" where
  "apply_control parse line st = (case parse line of
      None \<Rightarrow> (ProtocolError, st, None)
    | Some control \<Rightarrow>
        if protocol control \<noteq> PROTOCOL_VERSION then (ProtocolError, st, None)
        else case control of
          Mint _ token config \<Rightarrow>
            if token = [] then (ProtocolError, st, None)
            else (GoOn, replace_ctx token \<lparr>ctx_config = config, ctx_session_id = SessionId token, ctx_econ = None\<rparr> st, None)
        | Evict _ token \<Rightarrow>
            if token = [] then (ProtocolError, st, None)
            else (GoOn, st\<lparr>as_sessions := filter (\<lambda>(t, _). t \<noteq> token) (as_sessions st)\<rparr>, None)
        | Shadow _ on \<Rightarrow> (GoOn, st\<lparr>as_shadow := on\<rparr>, None)
        | Kill _ on \<Rightarrow> (GoOn, st\<lparr>as_kill := on\<rparr>, None)
        | Gc _ \<Rightarrow> (GoOn, st, Some (reachable_refs st))
        | Shutdown _ \<Rightarrow> (ShutDown, st, None))"

text \<open>The read loop over the lines that arrive, \<open>Inl\<close> a read error, up to the end of the stream: the
  state, the collections it spawned and whether it asked the proxy to shut down.\<close>

fun seam_loop :: "(str \<Rightarrow> Control option) \<Rightarrow> ('e + str) list \<Rightarrow> 'b AppState \<Rightarrow> 'b AppState \<times> RefId set list \<times> bool" where
  "seam_loop parse [] st = (st, [], False)"
| "seam_loop parse (Inl _ # rest) st = (st, [], False)"
| "seam_loop parse (Inr line # rest) st = (case apply_control parse line st of
      (GoOn, st', reach) \<Rightarrow>
        (let (st'', reaches, shut) = seam_loop parse rest st'
         in (st'', (case reach of None \<Rightarrow> reaches | Some r \<Rightarrow> r # reaches), shut))
    | (ShutDown, st', _) \<Rightarrow> (st', [], True)
    | (ProtocolError, st', _) \<Rightarrow> (st', [], False))"

text \<open>The session with the control plane: the register frame, then the loop.  The printer of the frame and
  whether the stream takes it are the environment's.\<close>

record Register =
  rg_kind :: str
  rg_protocol :: u32
  rg_port :: "16 word"
  rg_mcp_port :: "16 word"
  rg_version :: str
  rg_pid :: u32

definition BUILD_VERSION :: "str option \<Rightarrow> str" where
  "BUILD_VERSION stamped = (case stamped of Some version \<Rightarrow> version | None \<Rightarrow> lit ''dev'')"

definition announce :: "str option \<Rightarrow> u32 \<Rightarrow> 16 word \<Rightarrow> 16 word \<Rightarrow> Register" where
  "announce stamped pid port mcp_port =
     \<lparr>rg_kind = lit ''register'', rg_protocol = PROTOCOL_VERSION, rg_port = port, rg_mcp_port = mcp_port,
      rg_version = BUILD_VERSION stamped, rg_pid = pid\<rparr>"

definition run_seam ::
  "(Register \<Rightarrow> nat list option) \<Rightarrow> (nat list \<Rightarrow> bool) \<Rightarrow> (str \<Rightarrow> Control option) \<Rightarrow> Register \<Rightarrow> ('e + str) list \<Rightarrow> 'b AppState \<Rightarrow>
   'b AppState \<times> RefId set list \<times> bool" where
  "run_seam to_vec written parse reg arriving st = (case to_vec reg of
      None \<Rightarrow> (st, [], False)
    | Some bytes \<Rightarrow> if written (bytes @ [10]) then seam_loop parse arriving st else (st, [], False))"

section \<open>Retrieval\<close>

definition HOT_THRESHOLD :: nat where "HOT_THRESHOLD = 2"

definition mark_hot :: "RefId \<Rightarrow> 'b SessionEcon \<Rightarrow> 'b SessionEcon" where
  "mark_hot r s = s\<lparr>sx_hot_refs := set_extend (sx_hot_refs s) [r]\<rparr>"

definition resolve_scope :: "'b AppState \<Rightarrow> str \<Rightarrow> (SessionId \<times> nat option) option" where
  "resolve_scope st token = map_option (\<lambda>ctx. (ctx_session_id ctx, ctx_econ ctx)) (session_ctx st token)"

text \<open>The tool call up to its answer: the store operation, which gives the answer or the ref that was hit
  with its access count and text, and the mark it then leaves on the session, under a lock of its own.\<close>

datatype ToolCall = ToolDone str | ToolHit RefId nat str

definition cc_squash_retrieve ::
  "text_env \<Rightarrow> SessionId \<Rightarrow> str \<Rightarrow> str option \<Rightarrow> f64 \<Rightarrow> Row list \<Rightarrow> ToolCall \<times> Row list" where
  "cc_squash_retrieve E sess ref query now rows = (case RefId_parse ref of
      Inl _ \<Rightarrow> (ToolDone RECOVERY_HINT, rows)
    | Inr r \<Rightarrow> (case retrieve E r sess query now rows of
          Inl _ \<Rightarrow> (ToolDone RECOVERY_HINT, rows)
        | Inr (Miss, rows') \<Rightarrow> (ToolDone RECOVERY_HINT, rows')
        | Inr (Hit t n, rows') \<Rightarrow> (ToolHit r n t, rows')))"

definition mark_if_hot :: "nat option \<Rightarrow> RefId \<Rightarrow> nat \<Rightarrow> 'b AppState \<Rightarrow> 'b AppState" where
  "mark_if_hot cell r access_count st = (case cell of
      Some a \<Rightarrow> if HOT_THRESHOLD \<le> access_count then update_cell a (mark_hot r) st else st
    | None \<Rightarrow> st)"

end
