(* ===== verification/System.thy ===== *)
theory System
  imports Relay
begin

text \<open>
  The proxy as a whole: requests, usage drains, staging tasks, collections, control frames and retrievals
  running at the same time.  A task is a thread whose atomic steps are what the code does between two
  points at which another task may run - one held lock, or one store operation - so that the handler
  \<^verbatim>\<open>serve\<close> of \<^verbatim>\<open>relay.rs\<close> is the sequence of steps that \<open>advance\<close> gives
  from \<open>Arrived\<close> on, and \<^verbatim>\<open>stage_next\<close> the one from \<open>StageStart\<close> on.  What the
  environment decides in a step (clocks, the timing of the interceptor, the upstream's reply, the
  summarizer's replies) is a record \<open>choices\<close>.  A client that disconnects drops the future of its handler,
  which is the step \<open>cancel\<close>.  The task that drains the usage of a reply is spawned before the
  forward and waits for it, so here it starts with what the tap observed; a reply that breaks off is one
  whose stream ends early.  Frames are read while the control channel is up; a signal or a shutdown frame
  closes the relay to new requests and lets what is in flight go on.
\<close>

section \<open>Threads\<close>

record ('v, 'b) proxy =
  px_lib :: "'v lib"
  px_values :: value_json
  px_agent :: agent_json
  px_failsafe :: "'b failsafe"
  px_env :: text_env
  px_control :: "str \<Rightarrow> Control option"
  px_decode :: "str \<Rightarrow> str option"
  px_uri :: "str \<Rightarrow> str option"
  px_usage :: "nat list \<Rightarrow> Observed option"

record choices =
  or_now :: f64
  or_instant :: nat
  or_timing :: Timing
  or_reply :: "unit + Upstream"
  or_clients :: clients

datatype Thread =
    Arrived Inspect HttpReq
  | Deciding Inspect "nat option" HttpReq "nat list"
  | Entering nat SessionId bool HttpReq "nat list"
  | Intercepting nat SessionId bool HttpReq "nat list" InterceptInputs
  | Committing nat SessionId bool HttpReq "nat list" Intercepted
  | Stashing nat SessionId bool HttpReq "nat list" "nat list"
  | Sending nat SessionId bool HttpReq "nat list" "nat list"
  | Awaiting nat SessionId bool HttpReq "nat list"
  | Passing "nat option" HttpReq "nat list"
  | Relaying HttpReq
  | Draining nat "Observed option"
  | StageStart nat SessionId "nat list"
  | StageLoop nat StagingJob "Segment list" StagedPlan
  | StageCommit nat StagedPlan WorkingState
  | Releasing nat
  | Collecting "RefId set"
  | Retrieving SessionId "nat option" str "str option"
  | Marking "nat option" RefId nat str

text \<open>What leaves the proxy: a request forwarded upstream, with the cell of the session it belongs to, the
  upstream's response to it, or an answer made locally: a synthesized reply, a bad gateway, a status of the
  router or of the retrieval server, the text of a retrieval.\<close>

datatype Event =
    Forwarded "nat option" HttpReq "nat list"
  | Relayed HttpReq Upstream
  | Answered HttpReq Response
  | BadGateway HttpReq
  | Rejected HttpReq nat
  | Unserved str nat
  | Retrieved str

text \<open>The kill switch: the inspection that remains, the session whose window was closed, and the state.\<close>

definition kill_check :: "Inspect \<Rightarrow> 'b AppState \<Rightarrow> Inspect \<times> nat option \<times> 'b AppState" where
  "kill_check inspect st =
     (if as_kill st
      then case inspect of
          InspectYes (Some token) \<Rightarrow> (case session_cell st (Some token) of
              Some a \<Rightarrow> (InspectNo, Some a, update_cell a close_window st)
            | None \<Rightarrow> (InspectNo, None, st))
        | _ \<Rightarrow> (InspectNo, None, st)
      else (inspect, None, st))"

definition respond :: "HttpReq \<Rightarrow> Upstream option \<Rightarrow> Event" where
  "respond req response = (case response of None \<Rightarrow> BadGateway req | Some up \<Rightarrow> Relayed req up)"

definition decide_step ::
  "('v, 'b) proxy \<Rightarrow> choices \<Rightarrow> Inspect \<Rightarrow> nat option \<Rightarrow> HttpReq \<Rightarrow> nat list \<Rightarrow> 'b AppState \<Rightarrow> 'b AppState \<times> Thread list \<times> Event list" where
  "decide_step P orc inspect owner req bytes st = (case inspect of
      InspectNo \<Rightarrow> (st, [Passing owner req bytes], [])
    | InspectYes token \<Rightarrow> (case decide_request (px_values P) bytes of
          Synthesize inputs \<Rightarrow>
            if as_shadow st
            then (case session_cell st token of
                Some a \<Rightarrow> (update_cell a close_window st, [Passing (Some a) req bytes], [])
              | None \<Rightarrow> (st, [Passing None req bytes], []))
            else (st, [], [Answered req (synth_response (vj_print (px_values P)) (inputs\<lparr>bi_working := working_snapshot st token\<rparr>))])
        | Forward \<Rightarrow>
            (case Option.bind token (\<lambda>t. forward_setup (px_failsafe P) (lb_serde (px_lib P)) (or_now orc) t (rq_headers req) bytes st) of
               None \<Rightarrow> (st, [Passing None req bytes], [])
             | Some (a, sess, claimed, st') \<Rightarrow> (st', [Entering a sess claimed req bytes], []))))"

fun advance :: "('v, 'b) proxy \<Rightarrow> choices \<Rightarrow> Thread \<Rightarrow> 'b AppState \<Rightarrow> 'b AppState \<times> Thread list \<times> Event list" where
  "advance P orc (Arrived inspect req) st =
     (let (inspect', owner, st') = kill_check inspect st in
      case to_bytes req of
        None \<Rightarrow> (st', [], [BadGateway req])
      | Some bytes \<Rightarrow> (st', [Deciding inspect' owner req bytes], []))"
| "advance P orc (Deciding inspect owner req bytes) st = decide_step P orc inspect owner req bytes st"
| "advance P orc (Entering a sess claimed req bytes) st =
     (case Option.bind (lock a st) (intercept_inputs (or_now orc)) of
        None \<Rightarrow> (st, [Stashing a sess claimed req bytes bytes], [])
      | Some (inputs, s') \<Rightarrow> (update_cell a (\<lambda>_. s') st, [Intercepting a sess claimed req bytes inputs], []))"
| "advance P orc (Intercepting a sess claimed req bytes inputs) st =
     (let res = run_l2 (px_lib P) (or_timing orc) bytes inputs in
      (update_cell a (stash_predicted_bust (ic_predicted_bust res)) st, [Committing a sess claimed req bytes res], []))"
| "advance P orc (Committing a sess claimed req bytes res) st =
     (update_cell a (commit_fast_lane (ic_committed res) (ic_uncommitted res)) st,
      [Stashing a sess claimed req bytes (ic_bytes res)], [])"
| "advance P orc (Stashing a sess claimed req bytes egress) st =
     (update_cell a (stash_egress_snapshot (lb_serde (px_lib P)) egress) st, [Sending a sess claimed req bytes egress], [])"
| "advance P orc (Sending a sess claimed req bytes egress) st =
     (st, [Awaiting a sess claimed req bytes], [Forwarded (Some a) (upstream_head req) egress])"
| "advance P orc (Awaiting a sess claimed req bytes) st =
     (let (response, observed) = forward (px_usage P) True (or_reply orc) in
      (st, Draining a observed # (if claimed then [StageStart a sess bytes] else []), [respond req response]))"
| "advance P orc (Passing owner req bytes) st =
     (st, [Relaying req], [Forwarded owner (upstream_head req) bytes])"
| "advance P orc (Relaying req) st = (st, [], [respond req (fst (forward (px_usage P) False (or_reply orc)))])"
| "advance P orc (Draining a usage) st = (drain (px_failsafe P) (or_instant orc) (or_now orc) a usage st, [], [])"
| "advance P orc (StageStart a sess bytes) st =
     (case Option.bind (lock a st) (\<lambda>s. prepare_job (px_lib P) bytes sess (or_now orc) (clone_inputs s)) of
        None \<Rightarrow> (st, [Releasing a], [])
      | Some job \<Rightarrow> (st, [StageLoop a job (jb_segments job) StagedPlan_default], []))"
| "advance P orc (StageLoop a job segs plan) st =
     (case segs of
        [] \<Rightarrow> (st, [StageCommit a plan (fold_job (px_agent P) (or_clients orc) job)], [])
      | seg # rest \<Rightarrow> (case stage_segment (px_lib P) (px_agent P) (or_clients orc) job seg plan (as_store st) of
            None \<Rightarrow> (st, [Releasing a], [])
          | Some (plan', rows) \<Rightarrow> (st\<lparr>as_store := rows\<rparr>, [StageLoop a job rest plan'], [])))"
| "advance P orc (StageCommit a plan working) st = (update_cell a (commit plan working) st, [Releasing a], [])"
| "advance P orc (Releasing a) st = (update_cell a release_guard st, [], [])"
| "advance P orc (Collecting reachable) st = (run_gc reachable (or_now orc) st, [], [])"
| "advance P orc (Retrieving sess cell ref query) st =
     (case cc_squash_retrieve (px_env P) sess ref query (or_now orc) (as_store st) of
        (ToolDone answer, rows) \<Rightarrow> (st\<lparr>as_store := rows\<rparr>, [], [Retrieved answer])
      | (ToolHit r n answer, rows) \<Rightarrow> (st\<lparr>as_store := rows\<rparr>, [Marking cell r n answer], []))"
| "advance P orc (Marking cell r n answer) st = (mark_if_hot cell r n st, [], [Retrieved answer])"

section \<open>Steps\<close>

text \<open>\<open>cf_seam\<close>: the control plane's frames are still read; \<open>cf_open\<close>: the relay still accepts requests.\<close>

record 'b config =
  cf_app :: "'b AppState"
  cf_threads :: "Thread list"
  cf_log :: "Event list"
  cf_seam :: bool
  cf_open :: bool

text \<open>The threads of requests, which a disconnecting client drops.\<close>

fun is_request :: "Thread \<Rightarrow> bool" where
  "is_request (Arrived _ _) = True"
| "is_request (Deciding _ _ _ _) = True"
| "is_request (Entering _ _ _ _ _) = True"
| "is_request (Intercepting _ _ _ _ _ _) = True"
| "is_request (Committing _ _ _ _ _ _) = True"
| "is_request (Stashing _ _ _ _ _ _) = True"
| "is_request (Sending _ _ _ _ _ _) = True"
| "is_request (Awaiting _ _ _ _ _) = True"
| "is_request (Passing _ _ _) = True"
| "is_request (Relaying _) = True"
| "is_request _ = False"

definition remove_nth :: "nat \<Rightarrow> 'a list \<Rightarrow> 'a list" where
  "remove_nth i xs = take i xs @ drop (Suc i) xs"

definition run_thread :: "('v, 'b) proxy \<Rightarrow> choices \<Rightarrow> nat \<Rightarrow> 'b config \<Rightarrow> 'b config" where
  "run_thread P orc i cf = (let (st, ts, evs) = advance P orc (cf_threads cf ! i) (cf_app cf) in
     cf\<lparr>cf_app := st, cf_threads := remove_nth i (cf_threads cf) @ ts, cf_log := cf_log cf @ evs\<rparr>)"

text \<open>A tool call of a client of the retrieval server: an unknown token is answered 404, any other starts
  the call in the scope of its session.\<close>

definition serve_mcp :: "'b AppState \<Rightarrow> str \<Rightarrow> str \<Rightarrow> str option \<Rightarrow> Thread list \<times> Event list" where
  "serve_mcp st token ref query = (case resolve_scope st token of
      None \<Rightarrow> ([], [Unserved token 404])
    | Some (session_id, econ) \<Rightarrow> ([Retrieving session_id econ ref query], []))"

inductive sys_step :: "('v, 'b) proxy \<Rightarrow> 'b config \<Rightarrow> 'b config \<Rightarrow> bool" for P where
  arrive: "router (px_decode P) (px_uri P) (cf_app cf) req = Handled inspect req' \<Longrightarrow> cf_open cf \<Longrightarrow>
    sys_step P cf (cf\<lparr>cf_threads := cf_threads cf @ [Arrived inspect req']\<rparr>)"
| refuse: "router (px_decode P) (px_uri P) (cf_app cf) req = Refused status \<Longrightarrow> cf_open cf \<Longrightarrow>
    sys_step P cf (cf\<lparr>cf_log := cf_log cf @ [Rejected req status]\<rparr>)"
| thread: "i < length (cf_threads cf) \<Longrightarrow> sys_step P cf (run_thread P orc i cf)"
| cancel: "i < length (cf_threads cf) \<Longrightarrow> is_request (cf_threads cf ! i) \<Longrightarrow>
    sys_step P cf (cf\<lparr>cf_threads := remove_nth i (cf_threads cf)\<rparr>)"
| control: "apply_control (px_control P) line (cf_app cf) = (outcome, st, reach) \<Longrightarrow> cf_seam cf \<Longrightarrow>
    sys_step P cf (cf\<lparr>cf_app := st, cf_threads := cf_threads cf @ (case reach of None \<Rightarrow> [] | Some r \<Rightarrow> [Collecting r]),
      cf_seam := (outcome = GoOn), cf_open := (cf_open cf \<and> outcome \<noteq> ShutDown)\<rparr>)"
| hang_up: "sys_step P cf (cf\<lparr>cf_seam := False\<rparr>)"
| signal: "sys_step P cf (cf\<lparr>cf_open := False\<rparr>)"
| retrieve: "serve_mcp (cf_app cf) token ref query = (ts, evs) \<Longrightarrow>
    sys_step P cf (cf\<lparr>cf_threads := cf_threads cf @ ts, cf_log := cf_log cf @ evs\<rparr>)"

definition start_config :: "str \<Rightarrow> Row list \<Rightarrow> 'b config" where
  "start_config upstream rows = \<lparr>cf_app = AppState_new upstream rows, cf_threads = [], cf_log = [], cf_seam = True, cf_open = True\<rparr>"

inductive_cases sys_stepE: "sys_step P cf cf'"

section \<open>Cells under an operation\<close>

lemma update_cell_simps [simp]:
  "as_poisoned (update_cell a f st) = as_poisoned st" "as_next (update_cell a f st) = as_next st"
  "as_store (update_cell a f st) = as_store st" "as_sessions (update_cell a f st) = as_sessions st"
  by (simp_all add: update_cell_def split: option.splits)

lemma update_cell_cells: "as_cells (update_cell a f st) b =
    (if b = a \<and> a \<notin> set (as_poisoned st) then map_option f (as_cells st a) else as_cells st b)"
  by (auto simp: update_cell_def lock_def split: option.splits)

lemmas task_ops = drain_def run_gc_def mark_if_hot_def serve_mcp_def

text \<open>Addresses are handed out in order, so a new cell never replaces an old one.\<close>

definition heap_ok :: "'b AppState \<Rightarrow> bool" where
  "heap_ok st = (\<forall>a \<in> dom (as_cells st). a < as_next st)"

lemma heap_ok_update [simp]: "heap_ok (update_cell a f st) = heap_ok st"
  by (auto simp: heap_ok_def dom_def update_cell_cells split: if_splits)

lemma claim_staging_eq: "claim_staging a st = (claimed, st') \<Longrightarrow>
    st' = (if claimed then update_cell a (\<lambda>s. s\<lparr>sx_staging := True\<rparr>) st else st) \<and>
    (claimed \<longrightarrow> (\<exists>s. lock a st = Some s \<and> \<not> sx_staging s))"
  by (auto simp: claim_staging_def split: option.splits if_splits)

text \<open>Setting up a forward leaves the cells, but for a new one when the session had none, and claims the guard.\<close>

lemma forward_setup_cases:
  assumes "forward_setup F J now token headers body st = Some (a, sess, claimed, st')"
  obtains st1 where "st' = (if claimed then update_cell a (\<lambda>s. s\<lparr>sx_staging := True\<rparr>) st1 else st1)"
    "claimed \<longrightarrow> (\<exists>s. lock a st1 = Some s \<and> \<not> sx_staging s)" "as_poisoned st1 = as_poisoned st" "as_store st1 = as_store st"
    "(as_cells st1 = as_cells st \<and> as_next st1 = as_next st) \<or>
     (\<exists>cache auth bar knobs. a = as_next st \<and> as_next st1 = as_next st + 1 \<and>
        as_cells st1 = (as_cells st)(a \<mapsto> SessionEcon_new F cache auth bar knobs))"
proof -
  obtain st1 where st1: "lazy_econ F J now token headers body st = Some (a, sess, st1)" "claim_staging a st1 = (claimed, st')"
    using assms by (auto simp: forward_setup_def Let_def split: prod.splits)
  have "as_poisoned st1 = as_poisoned st \<and> as_store st1 = as_store st \<and>
    ((as_cells st1 = as_cells st \<and> as_next st1 = as_next st) \<or>
     (\<exists>cache auth bar knobs. a = as_next st \<and> as_next st1 = as_next st + 1 \<and>
        as_cells st1 = (as_cells st)(a \<mapsto> SessionEcon_new F cache auth bar knobs)))"
  proof -
    obtain ctx where ctx: "session_ctx st token = Some ctx"
      "(a, sess, st1) = (case ctx_econ ctx of Some a \<Rightarrow> (a, ctx_session_id ctx, st)
         | None \<Rightarrow> (let (a, st') = init_econ F J now token ctx headers body st in (a, ctx_session_id ctx, st')))"
      using st1(1) by (auto simp: lazy_econ_def)
    show ?thesis
    proof (cases "ctx_econ ctx")
      case None
      then have "(a, st1) = init_econ F J now token ctx headers body st" using ctx(2) by (simp split: prod.splits)
      then show ?thesis unfolding init_econ_def Let_def replace_ctx_def by auto
    qed (use ctx(2) in simp)
  qed
  then show ?thesis using claim_staging_eq[OF st1(2)] by (intro that[of st1]) auto
qed

text \<open>What a client of a session's cell relies on: a relation that every operation on a cell respects
  holds between the cell before and after any run of the system.\<close>

locale cell_contract =
  fixes R :: "'b SessionEcon \<Rightarrow> 'b SessionEcon \<Rightarrow> bool"
  assumes same: "R s s"
    and through: "R s s' \<Longrightarrow> R s' s'' \<Longrightarrow> R s s''"
    and close: "R s (close_window s)"
    and take_plan: "R s (s\<lparr>sx_staged := None\<rparr>)"
    and stash: "R s (stash_predicted_bust c s)"
    and lane: "R s (commit_fast_lane ks us s)"
    and egress: "R s (stash_egress_snapshot J body s)"
    and claim: "R s (s\<lparr>sx_staging := True\<rparr>)"
    and usage: "R s (observe F t u now s)"
    and committed: "R s (commit plan w s)"
    and release: "R s (release_guard s)"
    and hot: "R s (mark_hot r s)"
begin

lemma update_related:
  "as_cells st b = Some s \<Longrightarrow> (\<And>s. R s (f s)) \<Longrightarrow> \<exists>s'. as_cells (update_cell a f st) b = Some s' \<and> R s s'"
  using same by (auto simp: update_cell_cells)

lemma setup_related:
  assumes "forward_setup F J now token headers body st = Some (a, sess, claimed, st')" "heap_ok st" "as_cells st b = Some s"
  shows "\<exists>s'. as_cells st' b = Some s' \<and> R s s'"
  using assms(1)
proof (rule forward_setup_cases)
  fix st1
  assume st1: "st' = (if claimed then update_cell a (\<lambda>s. s\<lparr>sx_staging := True\<rparr>) st1 else st1)"
    "(as_cells st1 = as_cells st \<and> as_next st1 = as_next st) \<or>
     (\<exists>cache auth bar knobs. a = as_next st \<and> as_next st1 = as_next st + 1 \<and>
        as_cells st1 = (as_cells st)(a \<mapsto> SessionEcon_new F cache auth bar knobs))"
  moreover have "b \<noteq> as_next st" using assms(2,3) by (auto simp: heap_ok_def dom_def)
  ultimately have "as_cells st1 b = Some s" using assms(3) by auto
  then show ?thesis using update_related[of st1 b s _ a] claim same by (auto simp: st1(1))
qed

lemma decide_related:
  assumes "decide_step P orc inspect owner req bytes st = (st', ts, evs)" "heap_ok st" "as_cells st b = Some s"
  shows "\<exists>s'. as_cells st' b = Some s' \<and> R s s'"
proof -
  consider "st' = st" | a where "st' = update_cell a close_window st"
    | F J now token headers body a sess claimed where "forward_setup F J now token headers body st = Some (a, sess, claimed, st')"
    using assms(1) by (auto simp: decide_step_def bind_eq_Some_conv split: Inspect.splits SynthDecision.splits if_splits option.splits)
  then show ?thesis
  proof cases
    case 1
    then show ?thesis using assms(3) same by blast
  next
    case (2 a)
    then show ?thesis using update_related[OF assms(3) close] by simp
  next
    case 3
    then show ?thesis using setup_related assms(2,3) by blast
  qed
qed

lemma advance_related:
  assumes "advance P orc t st = (st', ts, evs)" "heap_ok st" "as_cells st b = Some s"
  shows "\<exists>s'. as_cells st' b = Some s' \<and> R s s'"
proof (cases t)
  case (Entering a sess claimed req bytes)
  show ?thesis
  proof (cases "Option.bind (lock a st) (intercept_inputs (or_now orc))")
    case None
    then show ?thesis using assms(1,3) same by (auto simp: Entering)
  next
    case (Some p)
    then obtain s0 where s0: "lock a st = Some s0" "intercept_inputs (or_now orc) s0 = Some p" by (auto simp: bind_eq_Some_conv)
    then have "snd p = s0\<lparr>sx_staged := None\<rparr>" by (auto simp: intercept_inputs_def split: bool.splits option.splits)
    then have "st' = update_cell a (\<lambda>_. s0\<lparr>sx_staged := None\<rparr>) st" using assms(1) Some by (auto simp: Entering split: prod.splits)
    moreover have "as_cells st a = Some s0" using s0(1) by (auto simp: lock_def split: if_splits)
    ultimately show ?thesis using assms(3) same take_plan by (auto simp: update_cell_cells)
  qed
next
  case (Arrived inspect req)
  then show ?thesis using assms(1,3) same update_related[OF assms(3) close]
    by (fastforce simp: kill_check_def Let_def split: prod.splits if_splits option.splits Inspect.splits)
next
  case (Deciding inspect owner req bytes)
  then show ?thesis using assms decide_related by simp
next
  case (Draining a usage)
  then show ?thesis using assms(1,3) same update_related[OF assms(3) usage] by (auto simp: task_ops split: option.splits)
qed (use assms same update_related[OF assms(3)] stash lane egress committed release in
      \<open>auto simp: Let_def task_ops hot split: option.splits list.splits prod.splits if_splits ToolCall.splits\<close>)

lemma step_related:
  assumes "sys_step P cf cf'" "heap_ok (cf_app cf)" "as_cells (cf_app cf) b = Some s"
  shows "\<exists>s'. as_cells (cf_app cf') b = Some s' \<and> R s s'"
  using assms(1)
proof cases
  case (thread i orc)
  obtain st ts evs where adv: "advance P orc (cf_threads cf ! i) (cf_app cf) = (st, ts, evs)" by (metis prod_cases3)
  then show ?thesis using advance_related[OF adv assms(2,3)] thread by (simp add: run_thread_def)
next
  case (control line outcome st reach)
  then have "as_cells st = as_cells (cf_app cf)"
    by (auto simp: apply_control_def replace_ctx_def split: option.splits Control.splits if_splits)
  then show ?thesis using assms(3) same control by auto
qed (use assms(3) same in auto)

end

lemma heap_ok_setup:
  assumes "forward_setup F J now token headers body st = Some (a, sess, claimed, st')" "heap_ok st"
  shows "heap_ok st'"
  using assms(1)
proof (rule forward_setup_cases)
  fix st1
  assume st1: "st' = (if claimed then update_cell a (\<lambda>s. s\<lparr>sx_staging := True\<rparr>) st1 else st1)"
    "(as_cells st1 = as_cells st \<and> as_next st1 = as_next st) \<or>
     (\<exists>cache auth bar knobs. a = as_next st \<and> as_next st1 = as_next st + 1 \<and>
        as_cells st1 = (as_cells st)(a \<mapsto> SessionEcon_new F cache auth bar knobs))"
  then have "heap_ok st1" using assms(2) by (auto simp: heap_ok_def less_Suc_eq)
  then show ?thesis by (simp add: st1(1))
qed

lemma heap_ok_store [simp]: "heap_ok (st\<lparr>as_store := rows\<rparr>) = heap_ok st"
  by (simp add: heap_ok_def)

lemma heap_ok_advance:
  assumes "advance P orc t st = (st', ts, evs)" "heap_ok st"
  shows "heap_ok st'"
proof (cases t)
  case (Deciding inspect owner req bytes)
  then show ?thesis using assms heap_ok_setup
    by (fastforce simp: decide_step_def bind_eq_Some_conv split: Inspect.splits SynthDecision.splits if_splits option.splits)
next
  case (Arrived inspect req)
  then show ?thesis using assms
    by (auto simp: kill_check_def Let_def split: prod.splits if_splits option.splits Inspect.splits)
qed (use assms in \<open>auto simp: Let_def task_ops split: option.splits list.splits prod.splits if_splits ToolCall.splits\<close>)

lemma heap_ok_step:
  assumes "sys_step P cf cf'" "heap_ok (cf_app cf)"
  shows "heap_ok (cf_app cf')"
  using assms(1)
proof cases
  case (thread i orc)
  obtain st ts evs where adv: "advance P orc (cf_threads cf ! i) (cf_app cf) = (st, ts, evs)" by (metis prod_cases3)
  then show ?thesis using heap_ok_advance[OF adv assms(2)] thread by (simp add: run_thread_def)
next
  case (control line outcome st reach)
  then show ?thesis using assms(2)
    by (auto simp: apply_control_def replace_ctx_def heap_ok_def split: option.splits Control.splits if_splits)
qed (use assms(2) in auto)

lemma heap_ok_steps: "(sys_step P)\<^sup>*\<^sup>* cf cf' \<Longrightarrow> heap_ok (cf_app cf) \<Longrightarrow> heap_ok (cf_app cf')"
  by (induction rule: rtranclp_induct) (auto intro: heap_ok_step)

lemma heap_ok_start: "heap_ok (cf_app (start_config up rows))"
  by (simp add: start_config_def AppState_new_def heap_ok_def)

context cell_contract
begin

lemma steps_related:
  "(sys_step P)\<^sup>*\<^sup>* cf cf' \<Longrightarrow> heap_ok (cf_app cf) \<Longrightarrow> as_cells (cf_app cf) b = Some s \<Longrightarrow>
   \<exists>s'. as_cells (cf_app cf') b = Some s' \<and> R s s'"
proof (induction rule: rtranclp_induct)
  case (step cf1 cf2)
  then obtain s1 where "as_cells (cf_app cf1) b = Some s1" "R s s1" by blast
  moreover have "heap_ok (cf_app cf1)" using heap_ok_steps step by blast
  ultimately show ?case using step_related[OF step(2)] through by blast
qed (use same in blast)

end

lemmas cell_ops = close_window_def stash_predicted_bust_def commit_fast_lane_def stash_egress_snapshot_def commit_def
  release_guard_def mark_hot_def

interpretation floor: cell_contract "\<lambda>s s'. sx_last_message_count s \<le> sx_last_message_count s'"
  by unfold_locales (auto simp: cell_ops split: option.splits)

interpretation scale: cell_contract "\<lambda>s s'. scale_ok (sx_token_scale s) \<longrightarrow> scale_ok (sx_token_scale s')"
  by unfold_locales (auto simp: cell_ops observe_scale split: option.splits)

interpretation heat: cell_contract "\<lambda>s s'. set (sx_hot_refs s) \<subseteq> set (sx_hot_refs s')"
proof unfold_locales
  fix s :: "'b SessionEcon" and F :: "'b failsafe" and t u now
  show "set (sx_hot_refs s) \<subseteq> set (sx_hot_refs (observe F t u now s))"
    by (simp add: observe_def run_breaker_def calibrate_def Let_def split: option.splits prod.splits)
qed (auto simp: cell_ops set_extend_def split: option.splits)

section \<open>The staging guard\<close>

text \<open>The threads that hold the guard of a cell: the request that claimed it until it is answered, then the
  staging task.\<close>

fun holds :: "nat \<Rightarrow> Thread \<Rightarrow> bool" where
  "holds a (Entering b _ claimed _ _) = (claimed \<and> a = b)"
| "holds a (Intercepting b _ claimed _ _ _) = (claimed \<and> a = b)"
| "holds a (Committing b _ claimed _ _ _) = (claimed \<and> a = b)"
| "holds a (Stashing b _ claimed _ _ _) = (claimed \<and> a = b)"
| "holds a (Sending b _ claimed _ _ _) = (claimed \<and> a = b)"
| "holds a (Awaiting b _ claimed _ _) = (claimed \<and> a = b)"
| "holds a (StageStart b _ _) = (a = b)"
| "holds a (StageLoop b _ _ _) = (a = b)"
| "holds a (StageCommit b _ _) = (a = b)"
| "holds a (Releasing b) = (a = b)"
| "holds a _ = False"

definition holders :: "nat \<Rightarrow> Thread list \<Rightarrow> nat" where
  "holders a ts = length (filter (holds a) ts)"

definition guard_flag :: "nat \<Rightarrow> 'b AppState \<Rightarrow> nat" where
  "guard_flag a st = (case as_cells st a of None \<Rightarrow> 0 | Some s \<Rightarrow> if sx_staging s then 1 else 0)"

lemma holders_simps [simp]:
  "holders a [] = 0" "holders a (t # ts) = (if holds a t then 1 else 0) + holders a ts"
  "holders a (ts @ ts') = holders a ts + holders a ts'"
  by (simp_all add: holders_def)

lemma holders_remove: "i < length ts \<Longrightarrow> holders a ts = (if holds a (ts ! i) then 1 else 0) + holders a (remove_nth i ts)"
  by (subst (1) id_take_nth_drop[of i ts]) (simp_all add: remove_nth_def)

lemma guard_flag_update: "(\<And>s. sx_staging (f s) = sx_staging s) \<Longrightarrow> guard_flag a (update_cell b f st) = guard_flag a st"
  by (auto simp: guard_flag_def update_cell_cells split: option.splits)

lemma guard_flag_store [simp]: "guard_flag a (st\<lparr>as_store := rows\<rparr>) = guard_flag a st"
  by (simp add: guard_flag_def)

lemma guard_kept [simp]:
  "sx_staging (close_window s) = sx_staging s" "sx_staging (stash_predicted_bust c s) = sx_staging s"
  "sx_staging (commit_fast_lane ks us s) = sx_staging s" "sx_staging (stash_egress_snapshot J body s) = sx_staging s"
  "sx_staging (commit plan w s) = sx_staging s" "sx_staging (mark_hot r s) = sx_staging s"
  by (simp_all add: cell_ops split: option.splits)

text \<open>A setup takes the guard only when it is free, and then as its one holder.\<close>

lemma setup_guard:
  assumes "forward_setup F J now token headers body st = Some (a, sess, claimed, st')" "heap_ok st"
  shows "guard_flag b st' = guard_flag b st + (if claimed \<and> b = a then 1 else 0) \<and>
    (claimed \<longrightarrow> guard_flag a st = 0)"
  using assms(1)
proof (rule forward_setup_cases)
  fix st1
  assume st1: "st' = (if claimed then update_cell a (\<lambda>s. s\<lparr>sx_staging := True\<rparr>) st1 else st1)"
    "claimed \<longrightarrow> (\<exists>s. lock a st1 = Some s \<and> \<not> sx_staging s)"
    "(as_cells st1 = as_cells st \<and> as_next st1 = as_next st) \<or>
     (\<exists>cache auth bar knobs. a = as_next st \<and> as_next st1 = as_next st + 1 \<and>
        as_cells st1 = (as_cells st)(a \<mapsto> SessionEcon_new F cache auth bar knobs))"
  have new: "\<not> sx_staging (SessionEcon_new F cache auth bar knobs)" for cache auth bar knobs by (simp add: SessionEcon_new_def)
  have "as_cells st (as_next st) = None" using assms(2) by (auto simp: heap_ok_def)
  then have flag: "guard_flag c st1 = guard_flag c st" for c using st1(3) new by (auto simp: guard_flag_def)
  have "guard_flag b (update_cell a (\<lambda>s. s\<lparr>sx_staging := True\<rparr>) st1) = guard_flag b st1 + (if b = a then 1 else 0) \<and> guard_flag a st1 = 0"
    if "lock a st1 = Some s" "\<not> sx_staging s" for s
    using that by (auto simp: guard_flag_def update_cell_cells lock_def split: if_splits option.splits)
  then show ?thesis using st1(1,2) flag by auto
qed

lemma decide_guard:
  assumes "decide_step P orc inspect owner req bytes st = (st', ts, evs)" "heap_ok st"
  shows "guard_flag b st' = guard_flag b st + holders b ts \<and> (holders b ts \<noteq> 0 \<longrightarrow> guard_flag b st = 0)"
proof -
  consider "guard_flag b st' = guard_flag b st" "holders b ts = 0"
    | F J now token headers body a sess claimed req' bytes' where
      "forward_setup F J now token headers body st = Some (a, sess, claimed, st')" "ts = [Entering a sess claimed req' bytes']"
    using assms(1) guard_flag_update[of close_window b _ st]
    by (auto simp: decide_step_def bind_eq_Some_conv split: Inspect.splits SynthDecision.splits if_splits option.splits)
  then show ?thesis
  proof cases
    case 2
    then show ?thesis using setup_guard[OF 2(1) assms(2), of b] by auto
  qed auto
qed

text \<open>A step hands its guard on, releases it, or takes a free one.\<close>

lemma advance_guard:
  assumes "advance P orc t st = (st', ts, evs)" "heap_ok st"
  shows "holders b ts + guard_flag b st \<le> (if holds b t then 1 else 0) + guard_flag b st'"
    and "\<not> holds b t \<Longrightarrow> guard_flag b st = 1 \<Longrightarrow> guard_flag b st' = 1 \<and> holders b ts = 0"
proof -
  have "holders b ts + guard_flag b st \<le> (if holds b t then 1 else 0) + guard_flag b st' \<and>
    (\<not> holds b t \<and> guard_flag b st = 1 \<longrightarrow> guard_flag b st' = 1 \<and> holders b ts = 0)"
  proof (cases t)
    case (Arrived inspect req)
    then show ?thesis using assms guard_flag_update[of close_window b _ st]
      by (auto simp: kill_check_def Let_def split: prod.splits if_splits option.splits Inspect.splits)
  next
    case (Deciding inspect owner req bytes)
    then show ?thesis using assms(1) decide_guard[OF _ assms(2), of P orc inspect owner req bytes st' ts evs b] by auto
  next
    case (Entering a sess claimed req bytes)
    have "guard_flag b st' = guard_flag b st"
      using assms(1) unfolding Entering
      by (auto simp: guard_flag_def update_cell_cells lock_def intercept_inputs_def bind_eq_Some_conv
          split: option.splits if_splits bool.splits prod.splits)
    then show ?thesis using assms(1) by (auto simp: Entering split: option.splits prod.splits)
  next
    case (Releasing a)
    have "guard_flag b (update_cell a release_guard st) = (if a = b \<and> a \<notin> set (as_poisoned st) then 0 else guard_flag b st)"
      by (auto simp: guard_flag_def update_cell_cells release_guard_def split: option.splits)
    moreover have "guard_flag b st \<le> 1" by (auto simp: guard_flag_def split: option.splits)
    ultimately show ?thesis using assms(1) by (auto simp: Releasing)
  next
    case (Draining a usage)
    then show ?thesis using assms(1) guard_flag_update[of "observe _ _ _ _" b a st] by (auto simp: task_ops split: option.splits)
  qed (use assms(1) in \<open>auto simp: Let_def task_ops guard_flag_update split: option.splits list.splits prod.splits if_splits ToolCall.splits\<close>)
  then show "holders b ts + guard_flag b st \<le> (if holds b t then 1 else 0) + guard_flag b st'"
    and "\<not> holds b t \<Longrightarrow> guard_flag b st = 1 \<Longrightarrow> guard_flag b st' = 1 \<and> holders b ts = 0" by blast+
qed

lemma control_cells: "apply_control parse line st = (outcome, st', reach) \<Longrightarrow>
    as_cells st' = as_cells st \<and> as_next st' = as_next st \<and> as_store st' = as_store st \<and> as_poisoned st' = as_poisoned st"
  by (auto simp: apply_control_def replace_ctx_def split: option.splits Control.splits if_splits)

definition guards_ok :: "'b config \<Rightarrow> bool" where
  "guards_ok cf = (\<forall>a. holders a (cf_threads cf) \<le> guard_flag a (cf_app cf))"

lemma guards_ok_step:
  assumes "sys_step P cf cf'" "heap_ok (cf_app cf)" "guards_ok cf"
  shows "guards_ok cf'"
  using assms(1)
proof cases
  case (thread i orc)
  obtain st ts evs where adv: "advance P orc (cf_threads cf ! i) (cf_app cf) = (st, ts, evs)" by (metis prod_cases3)
  have "holders a (remove_nth i (cf_threads cf) @ ts) \<le> guard_flag a st" for a
    using advance_guard(1)[OF adv assms(2), of a] holders_remove[OF thread(2), of a] assms(3)[unfolded guards_ok_def, rule_format, of a]
    by (auto split: if_splits)
  then show ?thesis using adv thread by (simp add: run_thread_def guards_ok_def)
next
  case (cancel i)
  then show ?thesis using assms(3) holders_remove[OF cancel(2)] unfolding guards_ok_def by (metis add_leD2 config.select_convs(1,2)
      config.surjective config.update_convs(2))
next
  case (control line outcome st reach)
  then show ?thesis using assms(3) control_cells[OF control(2)] by (auto simp: guards_ok_def guard_flag_def split: option.splits)
qed (use assms(3) in \<open>auto simp: guards_ok_def serve_mcp_def split: option.splits\<close>)

lemma guards_ok_steps:
  "(sys_step P)\<^sup>*\<^sup>* cf cf' \<Longrightarrow> heap_ok (cf_app cf) \<Longrightarrow> guards_ok cf \<Longrightarrow> guards_ok cf'"
  by (induction rule: rtranclp_induct) (auto intro: guards_ok_step heap_ok_steps)

section \<open>What every run keeps\<close>

text \<open>A plan files every entry under the ref of its record, so that the keys a collection is told to
  spare are the refs the markers name.\<close>

definition refs_ok :: "StagedPlan \<Rightarrow> bool" where
  "refs_ok plan = (\<forall>k e. by_content plan k = Some e \<longrightarrow> rec_ref_id (se_rec e) = k)"

lemma stage_segment_refs:
  assumes "hex_digest (lb_sha L)" "store_ok (lb_sha L) rows" "refs_ok plan"
    and "stage_segment L A clients job seg plan rows = Some (plan', rows')"
  shows "refs_ok plan' \<and> store_ok (lb_sha L) rows'"
proof -
  let ?payload = "segment_payload_bytes seg (jb_body job)"
  have put: "store_ok (lb_sha L) rows1 \<and> rec_ref_id r = address (lb_sha L) ?payload"
    if "put (lb_sha L) ?payload (source_uuid_of seg) (jb_session job) (kind seg) (jb_now job) rows = Some (Inr (r, rows1))" for r rows1
    using put_rows(1,2)[OF assms(2) that] content_address_hex[OF assms(1)] by (simp add: address_def)
  have ins: "refs_ok (plan_insert k e plan)" if "rec_ref_id (se_rec e) = k" for k e
    using assms(3) that by (auto simp: refs_ok_def plan_insert_def)
  show ?thesis using assms(2-4) put
    by (auto simp: stage_segment_def stage_recode_def recode_entry_def Let_def intro!: ins
        split: option.splits Strategy.splits sum.splits if_splits prod.splits)
qed

definition cell_ok :: "'b SessionEcon \<Rightarrow> bool" where
  "cell_ok s = (scale_ok (sx_token_scale s) \<and> (\<forall>plan. sx_staged s = Some plan \<longrightarrow> refs_ok plan))"

fun thread_ok :: "Thread \<Rightarrow> bool" where
  "thread_ok (StageLoop _ _ _ plan) = refs_ok plan"
| "thread_ok (StageCommit _ plan _) = refs_ok plan"
| "thread_ok _ = True"

definition app_ok :: "('v, 'b) proxy \<Rightarrow> 'b AppState \<Rightarrow> bool" where
  "app_ok P st = (store_ok (lb_sha (px_lib P)) (as_store st) \<and> (\<forall>s \<in> ran (as_cells st). cell_ok s))"

lemma app_ok_update:
  assumes "app_ok P st" "\<And>s. cell_ok s \<Longrightarrow> cell_ok (f s)"
  shows "app_ok P (update_cell a f st)"
  using assms by (auto simp: app_ok_def ran_def update_cell_cells split: if_splits)

lemma cell_ok_ops:
  assumes "cell_ok s"
  shows "cell_ok (close_window s)" "cell_ok (stash_predicted_bust c s)" "cell_ok (commit_fast_lane ks us s)"
    "cell_ok (stash_egress_snapshot J body s)" "cell_ok (s\<lparr>sx_staging := b\<rparr>)" "cell_ok (observe F t u now s)"
    "cell_ok (release_guard s)" "cell_ok (mark_hot r s)" "refs_ok plan \<Longrightarrow> cell_ok (commit plan w s)"
  using assms by (auto simp: cell_ok_def cell_ops observe_scale split: option.splits)

lemma cell_ok_new: "cell_ok (SessionEcon_new F cache auth bar knobs)"
proof -
  have "scale_ok (TokenScale_default)" by (rule scale_ok_default)
  then show ?thesis by (simp add: cell_ok_def SessionEcon_new_def)
qed

lemma app_ok_setup:
  assumes "forward_setup F J now token headers body st = Some (a, sess, claimed, st')" "app_ok P st"
  shows "app_ok P st'"
  using assms(1)
proof (rule forward_setup_cases)
  fix st1
  assume st1: "st' = (if claimed then update_cell a (\<lambda>s. s\<lparr>sx_staging := True\<rparr>) st1 else st1)" "as_store st1 = as_store st"
    "(as_cells st1 = as_cells st \<and> as_next st1 = as_next st) \<or>
     (\<exists>cache auth bar knobs. a = as_next st \<and> as_next st1 = as_next st + 1 \<and>
        as_cells st1 = (as_cells st)(a \<mapsto> SessionEcon_new F cache auth bar knobs))"
  then have "ran (as_cells st1) \<subseteq> ran (as_cells st) \<union> {s. cell_ok s}" by (auto simp: ran_def cell_ok_new split: if_splits)
  then have "app_ok P st1" using assms(2) st1(2) by (auto simp: app_ok_def)
  then show ?thesis using app_ok_update[of P st1 "\<lambda>s. s\<lparr>sx_staging := True\<rparr>" a] cell_ok_ops(5) by (auto simp: st1(1))
qed

lemma app_ok_store: "app_ok P st \<Longrightarrow> store_ok (lb_sha (px_lib P)) rows \<Longrightarrow> app_ok P (st\<lparr>as_store := rows\<rparr>)"
  by (simp add: app_ok_def)

text \<open>A tool call changes no more of the store than a retrieve does.\<close>

lemma tool_rows:
  assumes "cc_squash_retrieve E sess ref query now rows = (res, rows')" "store_ok sha rows"
  shows "store_ok sha rows' \<and> entry_of rows' = entry_of rows"
proof -
  have "store_ok sha rows1 \<and> entry_of rows1 = entry_of rows" if "retrieve E r sess query now rows = Inr (res, rows1)" for r res rows1
    using retrieve_rows[OF assms(2), of E r sess query now] that by (simp add: rows_after_def)
  then show ?thesis using assms
    by (auto simp: cc_squash_retrieve_def split: sum.splits prod.splits RetrieveResult.splits)
qed

lemma app_ok_advance:
  assumes "advance P orc t st = (st', ts, evs)" "hex_digest (lb_sha (px_lib P))" "app_ok P st" "thread_ok t"
  shows "app_ok P st' \<and> list_all thread_ok ts"
proof (cases t)
  case (Arrived inspect req)
  then show ?thesis using assms app_ok_update[OF assms(3) cell_ok_ops(1)]
    by (auto simp: kill_check_def Let_def split: prod.splits if_splits option.splits Inspect.splits)
next
  case (Deciding inspect owner req bytes)
  then show ?thesis using assms(1) app_ok_update[OF assms(3) cell_ok_ops(1)] app_ok_setup[OF _ assms(3)] assms(3)
    by (fastforce simp: decide_step_def bind_eq_Some_conv split: Inspect.splits SynthDecision.splits if_splits option.splits)
next
  case (Entering a sess claimed req bytes)
  have "app_ok P (update_cell a (\<lambda>_. s') st)" if "lock a st = Some s" "intercept_inputs now s = Some (inputs, s')" for s now inputs s'
  proof (rule app_ok_update[OF assms(3)])
    have "cell_ok s" using that(1) assms(3) by (auto simp: app_ok_def lock_def ran_def split: if_splits)
    then show "cell_ok s'" using that(2) by (auto simp: intercept_inputs_def cell_ok_def split: bool.splits option.splits)
  qed
  then show ?thesis using assms(1,3) by (auto simp: Entering bind_eq_Some_conv split: option.splits)
next
  case (StageLoop a job segs plan)
  have ok: "store_ok (lb_sha (px_lib P)) (as_store st)" "refs_ok plan" using assms(3,4) by (simp_all add: app_ok_def StageLoop)
  show ?thesis
  proof (cases segs)
    case Nil
    then show ?thesis using assms(1,3) ok(2) by (auto simp: StageLoop)
  next
    case (Cons seg rest)
    have "app_ok P (st\<lparr>as_store := rows\<rparr>) \<and> refs_ok plan'"
      if "stage_segment (px_lib P) (px_agent P) (or_clients orc) job seg plan (as_store st) = Some (plan', rows)" for plan' rows
      using stage_segment_refs[OF assms(2) ok that] app_ok_store[OF assms(3)] by blast
    then show ?thesis using assms(1,3) by (auto simp: StageLoop Cons split: option.splits)
  qed
next
  case (Collecting reachable)
  have ok: "store_ok (lb_sha (px_lib P)) (as_store st)" using assms(3) by (simp add: app_ok_def)
  have "store_ok (lb_sha (px_lib P)) rows"
    if "gc reachable GRACE_SECONDS MAX_REFS_BYTES (or_now orc) (as_store st) = Some (n, rows)" for n rows
    using gc_rows(1)[OF ok that] .
  then show ?thesis using assms(1,3) app_ok_store[OF assms(3)] by (auto simp: Collecting run_gc_def split: option.splits prod.splits)
next
  case (StageCommit a plan w)
  then show ?thesis using assms app_ok_update[OF assms(3) cell_ok_ops(9)] by auto
next
  case (StageStart a sess bytes)
  then show ?thesis using assms by (auto simp: refs_ok_def StagedPlan_default_def split: option.splits)
next
  case (Draining a usage)
  then show ?thesis using assms(1,3) app_ok_update[OF assms(3) cell_ok_ops(6)] by (auto simp: task_ops split: option.splits)
next
  case (Retrieving sess cell ref query)
  have "store_ok (lb_sha (px_lib P)) (as_store st)" using assms(3) by (simp add: app_ok_def)
  then show ?thesis using assms(1,3) tool_rows app_ok_store[OF assms(3)]
    by (auto simp: Retrieving split: prod.splits ToolCall.splits)
next
  case (Marking cell r n answer)
  then show ?thesis using assms(1,3) app_ok_update[OF assms(3) cell_ok_ops(8)] by (auto simp: task_ops split: option.splits)
qed (use assms in \<open>auto simp: Let_def cell_ok_ops intro!: app_ok_update split: if_splits prod.splits\<close>)

definition config_ok :: "('v, 'b) proxy \<Rightarrow> 'b config \<Rightarrow> bool" where
  "config_ok P cf = (heap_ok (cf_app cf) \<and> guards_ok cf \<and> app_ok P (cf_app cf) \<and> list_all thread_ok (cf_threads cf))"

lemma set_remove_nth: "set (remove_nth i xs) \<subseteq> set xs"
  by (auto simp: remove_nth_def dest: in_set_takeD in_set_dropD)

lemma config_ok_step:
  assumes "sys_step P cf cf'" "hex_digest (lb_sha (px_lib P))" "config_ok P cf"
  shows "config_ok P cf'"
proof -
  have ok: "heap_ok (cf_app cf)" "guards_ok cf" "app_ok P (cf_app cf)" "list_all thread_ok (cf_threads cf)"
    using assms(3) by (simp_all add: config_ok_def)
  have "app_ok P (cf_app cf') \<and> list_all thread_ok (cf_threads cf')"
    using assms(1)
  proof cases
    case (thread i orc)
    obtain st ts evs where adv: "advance P orc (cf_threads cf ! i) (cf_app cf) = (st, ts, evs)" by (metis prod_cases3)
    have "thread_ok (cf_threads cf ! i)" using ok(4) thread(2) by (simp add: list_all_length)
    then show ?thesis
      using app_ok_advance[OF adv assms(2) ok(3)] adv thread ok(4) set_remove_nth[of i "cf_threads cf"]
      by (auto simp: run_thread_def list_all_iff)
  next
    case (cancel i)
    then show ?thesis using ok set_remove_nth[of i "cf_threads cf"] by (auto simp: list_all_iff)
  next
    case (control line outcome st reach)
    then show ?thesis using ok control_cells[OF control(2)] by (auto simp: app_ok_def split: option.splits)
  qed (use ok in \<open>auto simp: serve_mcp_def split: option.splits\<close>)
  then show ?thesis using heap_ok_step[OF assms(1) ok(1)] guards_ok_step[OF assms(1) ok(1,2)] by (simp add: config_ok_def)
qed

lemma config_ok_steps: "(sys_step P)\<^sup>*\<^sup>* cf cf' \<Longrightarrow> hex_digest (lb_sha (px_lib P)) \<Longrightarrow> config_ok P cf \<Longrightarrow> config_ok P cf'"
  by (induction rule: rtranclp_induct) (auto intro: config_ok_step)

lemma config_ok_start: "store_ok (lb_sha (px_lib P)) rows \<Longrightarrow> config_ok P (start_config up rows)"
  by (simp add: config_ok_def start_config_def AppState_new_def heap_ok_def guards_ok_def app_ok_def)

section \<open>A guard nobody holds\<close>

lemma staged_kept [simp]:
  "sx_staged (close_window s) = sx_staged s" "sx_staged (stash_predicted_bust c s) = sx_staged s"
  "sx_staged (commit_fast_lane ks us s) = sx_staged s" "sx_staged (stash_egress_snapshot J body s) = sx_staged s"
  "sx_staged (release_guard s) = sx_staged s" "sx_staged (mark_hot r s) = sx_staged s"
  by (simp_all add: cell_ops split: option.splits)

definition plan_of :: "nat \<Rightarrow> 'b AppState \<Rightarrow> StagedPlan option" where
  "plan_of a st = Option.bind (as_cells st a) sx_staged"

lemma plan_of_update: "(\<And>s. sx_staged (f s) = sx_staged s) \<Longrightarrow> plan_of a (update_cell b f st) = plan_of a st"
  by (cases "as_cells st a") (auto simp: plan_of_def update_cell_cells)

lemma plan_of_store [simp]: "plan_of a (st\<lparr>as_store := rows\<rparr>) = plan_of a st"
  by (simp add: plan_of_def)

lemma plan_of_setup:
  assumes "forward_setup F J now token headers body st = Some (a, sess, claimed, st')" "heap_ok st"
  shows "plan_of b st' = plan_of b st"
  using assms(1)
proof (rule forward_setup_cases)
  fix st1
  assume st1: "st' = (if claimed then update_cell a (\<lambda>s. s\<lparr>sx_staging := True\<rparr>) st1 else st1)"
    "(as_cells st1 = as_cells st \<and> as_next st1 = as_next st) \<or>
     (\<exists>cache auth bar knobs. a = as_next st \<and> as_next st1 = as_next st + 1 \<and>
        as_cells st1 = (as_cells st)(a \<mapsto> SessionEcon_new F cache auth bar knobs))"
  have "as_cells st (as_next st) = None" using assms(2) by (auto simp: heap_ok_def)
  then have "plan_of b st1 = plan_of b st" using st1(2) by (auto simp: plan_of_def SessionEcon_new_def)
  then show ?thesis by (simp add: st1(1) plan_of_update)
qed

lemma advance_plan:
  assumes "advance P orc t st = (st', ts, evs)" "heap_ok st" "\<not> holds a t"
  shows "plan_of a st' = None \<or> plan_of a st' = plan_of a st"
proof (cases t)
  case (Arrived inspect req)
  then show ?thesis using assms plan_of_update[of close_window a _ st]
    by (auto simp: kill_check_def Let_def split: prod.splits if_splits option.splits Inspect.splits)
next
  case (Deciding inspect owner req bytes)
  then show ?thesis using assms(1) plan_of_update[of close_window a _ st] plan_of_setup[OF _ assms(2)]
    by (fastforce simp: decide_step_def bind_eq_Some_conv split: Inspect.splits SynthDecision.splits if_splits option.splits)
next
  case (Entering b sess claimed req bytes)
  then show ?thesis using assms(1)
    by (auto simp: plan_of_def update_cell_cells lock_def intercept_inputs_def bind_eq_Some_conv
        split: option.splits if_splits bool.splits prod.splits)
next
  case (Draining b usage)
  then show ?thesis using assms(1) plan_of_update[of "observe _ _ _ _" a b st] by (auto simp: task_ops split: option.splits)
next
  case (StageCommit b plan w)
  then have "b \<noteq> a" using assms(3) by auto
  then show ?thesis using assms(1) by (auto simp: StageCommit plan_of_def update_cell_cells)
qed (use assms(1) in \<open>auto simp: Let_def task_ops plan_of_update split: option.splits list.splits prod.splits if_splits ToolCall.splits\<close>)

definition wedged :: "nat \<Rightarrow> StagedPlan option \<Rightarrow> 'b config \<Rightarrow> bool" where
  "wedged a plan cf = (guard_flag a (cf_app cf) = 1 \<and> holders a (cf_threads cf) = 0 \<and>
     (plan_of a (cf_app cf) = None \<or> plan_of a (cf_app cf) = plan))"

lemma wedged_step:
  assumes "sys_step P cf cf'" "heap_ok (cf_app cf)" "wedged a plan cf"
  shows "wedged a plan cf'"
  using assms(1)
proof cases
  case (thread i orc)
  obtain st ts evs where adv: "advance P orc (cf_threads cf ! i) (cf_app cf) = (st, ts, evs)" by (metis prod_cases3)
  have free: "\<not> holds a (cf_threads cf ! i)" "holders a (remove_nth i (cf_threads cf)) = 0"
    using assms(3) holders_remove[OF thread(2), of a] by (auto simp: wedged_def split: if_splits)
  then show ?thesis
    using advance_guard(2)[OF adv assms(2) free(1)] advance_plan[OF adv assms(2) free(1)] assms(3) adv thread
    by (auto simp: run_thread_def wedged_def)
next
  case (cancel i)
  then show ?thesis using assms(3) holders_remove[OF cancel(2), of a] by (simp add: wedged_def)
next
  case (control line outcome st reach)
  then show ?thesis using assms(3) control_cells[OF control(2)]
    by (auto simp: wedged_def guard_flag_def plan_of_def split: option.splits)
qed (use assms(3) in \<open>auto simp: wedged_def serve_mcp_def split: option.splits\<close>)

lemma wedged_steps:
  "(sys_step P)\<^sup>*\<^sup>* cf cf' \<Longrightarrow> heap_ok (cf_app cf) \<Longrightarrow> wedged a plan cf \<Longrightarrow> wedged a plan cf'"
  by (induction rule: rtranclp_induct) (auto intro: wedged_step heap_ok_steps)

section \<open>An example\<close>

text \<open>A proxy over the interceptor's example libraries, one session minted, and its first request up to
  the point where it is about to enter the interceptor.\<close>

definition demo_proxy :: "(unit, nat) proxy" where
  "demo_proxy = \<lparr>px_lib = lane_lib, px_values = \<lparr>vj_value = (\<lambda>_. None), vj_print = (\<lambda>_. [])\<rparr>, px_agent = demo_agent,
     px_failsafe = demo_breaker, px_env = demo_env,
     px_control = (\<lambda>line. if line = [] then Some (Mint 1 [116] RelayConfig_default) else if line = [1] then Some (Gc 1) else None), px_decode = Some, px_uri = Some, px_usage = (\<lambda>_. None)\<rparr>"

definition demo_reply :: Upstream where
  "demo_reply = \<lparr>up_status = 200, up_headers = [], up_stream = []\<rparr>"

definition demo_choices :: choices where
  "demo_choices = \<lparr>or_now = Fin 0, or_instant = 0, or_timing = Overran, or_reply = Inr demo_reply, or_clients = (\<lambda>_ _ _ _ _. Inl Timeout)\<rparr>"

definition demo_req :: "nat \<Rightarrow> HttpReq" where
  "demo_req b = \<lparr>rq_method = lit ''POST'', rq_uri = lit ''/v1/messages'', rq_headers = [], rq_body = Some [b]\<rparr>"

definition demo_cell :: "nat SessionEcon" where
  "demo_cell = SessionEcon_new demo_breaker \<lparr>cached_prefix_tokens = 0, last_request_ts = Fin 0, assumed_ttl_s = DEFAULT_TTL_AUTO_S,
     cs_model = ModelId (lit ''claude-opus-4-8''), cs_breakpoints = []\<rparr> \<lparr>ac_headers = [], ac_upstream = []\<rparr> DEFAULT_NPV_FLOOR
     (policy_config PolicyKnobs_default)"

definition demo_app :: "nat option \<Rightarrow> (nat \<rightharpoonup> nat SessionEcon) \<Rightarrow> nat AppState" where
  "demo_app cell cells = \<lparr>as_upstream = [], as_sessions = [([116], \<lparr>ctx_config = RelayConfig_default, ctx_session_id = SessionId [116],
     ctx_econ = cell\<rparr>)], as_kill = False, as_shadow = False, as_store = [], as_cells = cells,
     as_next = (case cell of None \<Rightarrow> 0 | Some a \<Rightarrow> a + 1), as_poisoned = []\<rparr>"

definition demo_config :: "nat SessionEcon \<Rightarrow> Thread list \<Rightarrow> Event list \<Rightarrow> nat config" where
  "demo_config s ts evs = \<lparr>cf_app = demo_app (Some 0) [0 \<mapsto> s], cf_threads = ts, cf_log = evs, cf_seam = True, cf_open = True\<rparr>"

lemma demo_minted: "sys_step demo_proxy (start_config [] []) \<lparr>cf_app = demo_app None Map.empty, cf_threads = [], cf_log = [], cf_seam = True, cf_open = True\<rparr>"
proof -
  have "apply_control (px_control demo_proxy) [] (cf_app (start_config [] [])) = (GoOn, demo_app None Map.empty, None)"
    by (simp add: apply_control_def demo_proxy_def PROTOCOL_VERSION_def start_config_def AppState_new_def replace_ctx_def demo_app_def)
  from sys_step.control[OF this] show ?thesis by (simp add: start_config_def)
qed

lemma demo_arrive:
  assumes "as_sessions (cf_app cf) = as_sessions (demo_app cell cells)" "cf_open cf"
  shows "sys_step demo_proxy cf (cf\<lparr>cf_threads := cf_threads cf @ [Arrived (InspectYes (Some [116])) (demo_req b)]\<rparr>)"
proof -
  have "session_route (px_uri demo_proxy) (cf_app cf) (lit ''t/v1/messages'') ((demo_req b)\<lparr>rq_uri := lit ''/s/t/v1/messages''\<rparr>)
      = (InspectYes (Some [116]), demo_req b)"
    using assms(1) by (simp add: session_route_def split_once_def inspect_for_def session_ctx_def demo_app_def demo_req_def demo_proxy_def
        strip_session_prefix_def inner_path_and_query_def starts_with_def lit_def)
  then have "router (px_decode demo_proxy) (px_uri demo_proxy) (cf_app cf) ((demo_req b)\<lparr>rq_uri := lit ''/s/t/v1/messages''\<rparr>) =
      Handled (InspectYes (Some [116])) (demo_req b)"
    by (simp add: router_def request_path_def demo_proxy_def demo_req_def lit_def)
  then show ?thesis using assms(2) by (rule sys_step.arrive)
qed

lemma demo_forwards: "decide_request (px_values demo_proxy) [b] = Forward"
  by (simp add: decide_request_def detect_def COMPACT_MARKER_def starts_with_def lit_def)

lemma demo_lock: "lock 0 (demo_app (Some 0) [0 \<mapsto> s]) = Some s"
    "update_cell 0 f (demo_app (Some 0) [0 \<mapsto> s]) = demo_app (Some 0) [0 \<mapsto> f s]"
  by (simp_all add: lock_def update_cell_def demo_app_def)

lemma demo_models: "body_model lane_serde [0] = Some (ModelId (lit ''claude-opus-4-8''))"
    "body_model lane_serde [2] = Some (ModelId (lit ''claude-opus-4-8''))"
  by (simp_all add: body_model_def lane_parse(1,3) lane_body_def)

lemma demo_setup:
  assumes "body_model lane_serde [b] = Some (ModelId (lit ''claude-opus-4-8''))"
  shows "forward_setup demo_breaker lane_serde (Fin 0) [116] [] [b] (demo_app None Map.empty) =
    Some (0, SessionId [116], True, demo_app (Some 0) [0 \<mapsto> demo_cell\<lparr>sx_staging := True\<rparr>])"
proof -
  note assms
  moreover have "session_ctx (demo_app None Map.empty) [116] =
      Some \<lparr>ctx_config = RelayConfig_default, ctx_session_id = SessionId [116], ctx_econ = None\<rparr>"
    by (simp add: session_ctx_def demo_app_def)
  ultimately have "lazy_econ demo_breaker lane_serde (Fin 0) [116] [] [b] (demo_app None Map.empty) =
      Some (0, SessionId [116], demo_app (Some 0) [0 \<mapsto> demo_cell])"
    by (simp add: lazy_econ_def init_econ_def replace_ctx_def demo_app_def Let_def demo_cell_def capture_auth_def
        RelayConfig_default_def EconomicsKnobs_default_def EconomicsConfig_default_def)
  moreover have "\<not> sx_staging demo_cell" by (simp add: demo_cell_def SessionEcon_new_def)
  ultimately show ?thesis by (simp add: forward_setup_def claim_staging_def demo_lock)
qed

lemma demo_advance:
  "advance demo_proxy orc (Arrived (InspectYes (Some [116])) (demo_req b)) (demo_app cell cells) =
     (demo_app cell cells, [Deciding (InspectYes (Some [116])) None (demo_req b) [b]], [])"
  "body_model lane_serde [b] = Some (ModelId (lit ''claude-opus-4-8'')) \<Longrightarrow>
   advance demo_proxy demo_choices (Deciding (InspectYes (Some [116])) None (demo_req b) [b]) (demo_app None Map.empty) =
     (demo_app (Some 0) [0 \<mapsto> demo_cell\<lparr>sx_staging := True\<rparr>], [Entering 0 (SessionId [116]) True (demo_req b) [b]], [])"
proof -
  show "advance demo_proxy orc (Arrived (InspectYes (Some [116])) (demo_req b)) (demo_app cell cells) =
     (demo_app cell cells, [Deciding (InspectYes (Some [116])) None (demo_req b) [b]], [])"
    by (simp add: kill_check_def to_bytes_def demo_app_def demo_req_def MAX_BODY_def)
  have p: "px_failsafe demo_proxy = demo_breaker" "lb_serde (px_lib demo_proxy) = lane_serde" "or_now demo_choices = Fin 0"
    "rq_headers (demo_req b) = []"
    by (simp_all add: demo_proxy_def lane_lib_def demo_choices_def demo_req_def)
  assume "body_model lane_serde [b] = Some (ModelId (lit ''claude-opus-4-8''))"
  then show "advance demo_proxy demo_choices (Deciding (InspectYes (Some [116])) None (demo_req b) [b]) (demo_app None Map.empty) =
     (demo_app (Some 0) [0 \<mapsto> demo_cell\<lparr>sx_staging := True\<rparr>], [Entering 0 (SessionId [116]) True (demo_req b) [b]], [])"
    using demo_setup by (simp add: decide_step_def demo_forwards p)
qed

lemma run_thread_advance:
  assumes "advance P orc t st = (st', ts', new)" "i = length a"
  shows "run_thread P orc i \<lparr>cf_app = st, cf_threads = a @ t # b, cf_log = evs, cf_seam = True, cf_open = True\<rparr> =
    \<lparr>cf_app = st', cf_threads = a @ b @ ts', cf_log = evs @ new, cf_seam = True, cf_open = True\<rparr>"
  using assms by (simp add: run_thread_def remove_nth_def nth_append)

lemma thread_step:
  assumes "advance P orc t st = (st', ts', new)"
  shows "sys_step P \<lparr>cf_app = st, cf_threads = a @ t # b, cf_log = evs, cf_seam = True, cf_open = True\<rparr> \<lparr>cf_app = st', cf_threads = a @ b @ ts', cf_log = evs @ new, cf_seam = True, cf_open = True\<rparr>"
  using sys_step.thread[of "length a" "\<lparr>cf_app = st, cf_threads = a @ t # b, cf_log = evs, cf_seam = True, cf_open = True\<rparr>" P orc]
    run_thread_advance[OF assms, of "length a" a b evs] by simp

lemma demo_entered:
  "(sys_step demo_proxy)\<^sup>*\<^sup>* (start_config [] []) (demo_config (demo_cell\<lparr>sx_staging := True\<rparr>) [Entering 0 (SessionId [116]) True (demo_req 2) [2]] [])"
proof -
  let ?c = "\<lambda>ts. \<lparr>cf_app = demo_app None Map.empty, cf_threads = ts, cf_log = [], cf_seam = True, cf_open = True\<rparr> :: nat config"
  have "sys_step demo_proxy (?c []) (?c [Arrived (InspectYes (Some [116])) (demo_req 2)])"
    using demo_arrive[of "?c []" None Map.empty 2] by simp
  moreover have "sys_step demo_proxy (?c [Arrived (InspectYes (Some [116])) (demo_req 2)])
      (?c [Deciding (InspectYes (Some [116])) None (demo_req 2) [2]])"
    using thread_step[where a = "[]" and b = "[]" and evs = "[]",
        OF demo_advance(1)[where b = 2 and orc = demo_choices and cell = None and cells = Map.empty]] by simp
  moreover have "sys_step demo_proxy (?c [Deciding (InspectYes (Some [116])) None (demo_req 2) [2]])
      (demo_config (demo_cell\<lparr>sx_staging := True\<rparr>) [Entering 0 (SessionId [116]) True (demo_req 2) [2]] [])"
    using thread_step[OF demo_advance(2)[OF demo_models(2)], of "[]" "[]" "[]"] by (simp add: demo_config_def)
  ultimately show ?thesis using demo_minted by (meson converse_rtranclp_into_rtranclp rtranclp.rtrancl_refl)
qed

section \<open>Properties\<close>

text \<open>C6: no interleaving breaks a session.  Whatever requests arrive and disconnect, and however
  handlers, drains, staging tasks, collections, control frames and retrievals interleave, from a fresh
  start over a well-formed store: at most one task at a time holds a session's staging guard, and then
  the guard is set; the store stays well formed; every session's token scale stays within its bounds and
  its staged plan files each entry under the ref its marker names; and from any state reached, no
  session's message floor ever falls and no ref stops being hot.\<close>

theorem interleavings_keep_sessions_sound:
  assumes "hex_digest (lb_sha (px_lib P))" "store_ok (lb_sha (px_lib P)) rows"
    and "(sys_step P)\<^sup>*\<^sup>* (start_config up rows) cf"
  shows "(\<forall>a. holders a (cf_threads cf) \<le> 1 \<and>
       (holders a (cf_threads cf) = 1 \<longrightarrow> (\<exists>s. as_cells (cf_app cf) a = Some s \<and> sx_staging s))) \<and>
    store_ok (lb_sha (px_lib P)) (as_store (cf_app cf)) \<and>
    (\<forall>a s. as_cells (cf_app cf) a = Some s \<longrightarrow> scale_ok (sx_token_scale s) \<and>
       (\<forall>plan k e. sx_staged s = Some plan \<and> by_content plan k = Some e \<longrightarrow> rec_ref_id (se_rec e) = k) \<and>
       (\<forall>cf'. (sys_step P)\<^sup>*\<^sup>* cf cf' \<longrightarrow> (\<exists>s'. as_cells (cf_app cf') a = Some s' \<and>
          sx_last_message_count s \<le> sx_last_message_count s' \<and> set (sx_hot_refs s) \<subseteq> set (sx_hot_refs s'))))"
proof (intro conjI allI impI)
  have ok: "config_ok P cf" using config_ok_steps[OF assms(3,1) config_ok_start[OF assms(2)]] .
  have heap: "heap_ok (cf_app cf)" using ok by (simp add: config_ok_def)
  have guard: "holders a (cf_threads cf) \<le> guard_flag a (cf_app cf)" for a using ok by (simp add: config_ok_def guards_ok_def)
  have flag: "guard_flag a (cf_app cf) \<le> 1" for a by (auto simp: guard_flag_def split: option.splits)
  show "holders a (cf_threads cf) \<le> 1" for a using guard[of a] flag[of a] by simp
  show "\<exists>s. as_cells (cf_app cf) a = Some s \<and> sx_staging s" if "holders a (cf_threads cf) = 1" for a
    using guard[of a] that by (auto simp: guard_flag_def split: option.splits if_splits)
  show "store_ok (lb_sha (px_lib P)) (as_store (cf_app cf))" using ok by (simp add: config_ok_def app_ok_def)
  fix a s
  assume s: "as_cells (cf_app cf) a = Some s"
  then have "cell_ok s" using ok by (auto simp: config_ok_def app_ok_def ran_def)
  then show "scale_ok (sx_token_scale s)" by (simp add: cell_ok_def)
  show "rec_ref_id (se_rec e) = k" if "sx_staged s = Some plan \<and> by_content plan k = Some e" for plan k e
    using \<open>cell_ok s\<close> that by (auto simp: cell_ok_def refs_ok_def)
  show "\<exists>s'. as_cells (cf_app cf') a = Some s' \<and> sx_last_message_count s \<le> sx_last_message_count s' \<and>
      set (sx_hot_refs s) \<subseteq> set (sx_hot_refs s')" if "(sys_step P)\<^sup>*\<^sup>* cf cf'" for cf'
    using floor.steps_related[OF that heap s] heat.steps_related[OF that heap s] by fastforce
qed

theorem interleavings_keep_sessions_sound_witness:
  "\<exists>cf. (sys_step demo_proxy)\<^sup>*\<^sup>* (start_config [] []) cf \<and> holders 0 (cf_threads cf) = 1 \<and>
     (\<exists>s. as_cells (cf_app cf) 0 = Some s \<and> sx_staging s)"
proof -
  have sha: "hex_digest (lb_sha (px_lib demo_proxy))" by (simp add: hex_digest_def demo_proxy_def lane_lib_def is_lower_hex_def list_all_iff)
  have st: "store_ok (lb_sha (px_lib demo_proxy)) []" by (simp add: store_ok_def)
  have h: "holders 0 (cf_threads (demo_config (demo_cell\<lparr>sx_staging := True\<rparr>) [Entering 0 (SessionId [116]) True (demo_req 2) [2]] [])) = 1"
    by (simp add: demo_config_def)
  then show ?thesis using interleavings_keep_sessions_sound[OF sha st demo_entered] demo_entered by blast
qed

text \<open>C39: a disconnect can wedge staging for good.  A request claims its session's staging guard before
  the interceptor runs, and only the staging task spawned after the upstream has answered releases it.  If
  the client disconnects in between, the guard stays set: in every state that can follow, no task stages for
  that session any more, and its plan is the one it had or none.\<close>

theorem disconnect_wedges_staging:
  assumes "(sys_step P)\<^sup>*\<^sup>* (start_config up rows) cf" "i < length (cf_threads cf)"
    and "is_request (cf_threads cf ! i)" "holds a (cf_threads cf ! i)"
    and "(sys_step P)\<^sup>*\<^sup>* (cf\<lparr>cf_threads := remove_nth i (cf_threads cf)\<rparr>) cf'"
  shows "sys_step P cf (cf\<lparr>cf_threads := remove_nth i (cf_threads cf)\<rparr>) \<and>
    (\<exists>s'. as_cells (cf_app cf') a = Some s' \<and> sx_staging s' \<and>
       (sx_staged s' = None \<or> sx_staged s' = Option.bind (as_cells (cf_app cf) a) sx_staged)) \<and>
    (\<forall>t \<in> set (cf_threads cf'). \<not> holds a t)"
proof
  show "sys_step P cf (cf\<lparr>cf_threads := remove_nth i (cf_threads cf)\<rparr>)" by (rule sys_step.cancel[OF assms(2,3)])
  have heap: "heap_ok (cf_app cf)" by (rule heap_ok_steps[OF assms(1) heap_ok_start])
  have "guards_ok cf" by (rule guards_ok_steps[OF assms(1) heap_ok_start])
      (simp add: guards_ok_def start_config_def)
  then have "holders a (cf_threads cf) \<le> guard_flag a (cf_app cf)" by (simp add: guards_ok_def)
  moreover have "guard_flag a (cf_app cf) \<le> 1" by (auto simp: guard_flag_def split: option.splits)
  ultimately have "wedged a (plan_of a (cf_app cf)) (cf\<lparr>cf_threads := remove_nth i (cf_threads cf)\<rparr>)"
    using holders_remove[OF assms(2), of a] assms(4) by (simp add: wedged_def)
  then have "wedged a (plan_of a (cf_app cf)) cf'" using wedged_steps[OF assms(5)] heap by simp
  then show "(\<exists>s'. as_cells (cf_app cf') a = Some s' \<and> sx_staging s' \<and>
       (sx_staged s' = None \<or> sx_staged s' = Option.bind (as_cells (cf_app cf) a) sx_staged)) \<and>
      (\<forall>t \<in> set (cf_threads cf'). \<not> holds a t)"
    by (auto simp: wedged_def guard_flag_def plan_of_def holders_def filter_empty_conv split: option.splits if_splits)
qed

theorem disconnect_wedges_staging_witness:
  "\<exists>cf. (sys_step demo_proxy)\<^sup>*\<^sup>* (start_config [] []) cf \<and> cf_threads cf = [] \<and>
     (\<exists>s. as_cells (cf_app cf) 0 = Some s \<and> sx_staging s)"
proof -
  let ?cf = "demo_config (demo_cell\<lparr>sx_staging := True\<rparr>) [Entering 0 (SessionId [116]) True (demo_req 2) [2]] []"
  have c: "0 < length (cf_threads ?cf)" "is_request (cf_threads ?cf ! 0)" "holds 0 (cf_threads ?cf ! 0)"
    "remove_nth 0 (cf_threads ?cf) = []"
    by (simp_all add: demo_config_def remove_nth_def)
  from disconnect_wedges_staging[OF demo_entered c(1-3) rtranclp.rtrancl_refl, unfolded c(4)]
  have "sys_step demo_proxy ?cf (?cf\<lparr>cf_threads := []\<rparr>)" "\<exists>s. as_cells (cf_app (?cf\<lparr>cf_threads := []\<rparr>)) 0 = Some s \<and> sx_staging s"
    by blast+
  then show ?thesis using demo_entered
    by (intro exI[of _ "?cf\<lparr>cf_threads := []\<rparr>"]) (auto intro: rtranclp.rtrancl_into_rtrancl)
qed

end
