(* ===== verification/Turns.thy ===== *)
theory Turns
  imports System "HOL-Library.Multiset"
begin

text \<open>
  When is a leaf provably uncached?  The fast lane commits a leaf only above the floor of messages already
  forwarded (\<^verbatim>\<open>last_message_count\<close>, \<^verbatim>\<open>window_closed\<close>).  For a client that sends one turn at
  a time the floor covers everything that was sent, whatever else runs meanwhile and whenever the kill
  switch or the shadow mode forwards a turn uninspected; for overlapping turns it does not.
\<close>

section \<open>One turn at a time\<close>

text \<open>The message counts of the requests forwarded for a session, where they parse.\<close>

definition sent_counts :: "('v, 'b) proxy \<Rightarrow> nat \<Rightarrow> Event list \<Rightarrow> nat set" where
  "sent_counts P a evs = {length (messages w) | w req bytes. Forwarded (Some a) req bytes \<in> set evs \<and>
     parse_body (lb_serde (px_lib P)) bytes = Some w}"

text \<open>A client that waits for one turn before the next, and resends its transcript: one request is in
  flight at a time, and what is about to be recorded has at least as many messages as what was forwarded
  before for its session.\<close>

definition growing :: "('v, 'b) proxy \<Rightarrow> 'b config \<Rightarrow> bool" where
  "growing P cf = (\<forall>a sess claimed req bytes egress w. Stashing a sess claimed req bytes egress \<in> set (cf_threads cf) \<longrightarrow>
     parse_body (lb_serde (px_lib P)) egress = Some w \<longrightarrow> (\<forall>n \<in> sent_counts P a (cf_log cf). n \<le> length (messages w)))"

definition turn_step :: "('v, 'b) proxy \<Rightarrow> 'b config \<Rightarrow> 'b config \<Rightarrow> bool" where
  "turn_step P cf cf' = (sys_step P cf cf' \<and> length (filter is_request (cf_threads cf')) \<le> 1 \<and> growing P cf')"

text \<open>What the fast lane's window looks like from outside: whether it is shut, and its floor.\<close>

definition view :: "nat \<Rightarrow> 'b AppState \<Rightarrow> (bool \<times> nat) option" where
  "view a st = map_option (\<lambda>s. (sx_window_closed s, sx_last_message_count s)) (lock a st)"

lemma view_update: "(\<And>s. (sx_window_closed (f s), sx_last_message_count (f s)) = (sx_window_closed s, sx_last_message_count s)) \<Longrightarrow>
    view a (update_cell b f st) = view a st"
  by (auto simp: view_def lock_def update_cell_cells option.map_comp o_def)

lemma view_update_same: "view a (update_cell a f st) = map_option (\<lambda>s. (sx_window_closed (f s), sx_last_message_count (f s))) (lock a st)"
  by (auto simp: view_def lock_def update_cell_cells option.map_comp o_def)

lemma view_update_other: "a \<noteq> b \<Longrightarrow> view a (update_cell b f st) = view a st"
  by (auto simp: view_def lock_def update_cell_cells)

lemma view_store [simp]: "view a (st\<lparr>as_store := rows\<rparr>) = view a st"
  by (simp add: view_def lock_def)

lemma window_kept [simp]:
  "sx_window_closed (stash_predicted_bust c s) = sx_window_closed s" "sx_last_message_count (stash_predicted_bust c s) = sx_last_message_count s"
  "sx_window_closed (commit_fast_lane ks us s) = sx_window_closed s" "sx_last_message_count (commit_fast_lane ks us s) = sx_last_message_count s"
  "sx_window_closed (commit plan w s) = sx_window_closed s" "sx_last_message_count (commit plan w s) = sx_last_message_count s"
  "sx_window_closed (release_guard s) = sx_window_closed s" "sx_last_message_count (release_guard s) = sx_last_message_count s"
  "sx_window_closed (mark_hot r s) = sx_window_closed s" "sx_last_message_count (mark_hot r s) = sx_last_message_count s"
  "sx_window_closed (close_window s)" "sx_last_message_count (close_window s) = sx_last_message_count s"
  by (simp_all add: cell_ops split: option.splits)

lemma view_setup:
  assumes "forward_setup F J now token headers body st = Some (a, sess, claimed, st')" "heap_ok st"
  shows "view b st' = view b st \<or> (\<exists>n. view b st' = Some (True, n))"
  using assms(1)
proof (rule forward_setup_cases)
  fix st1
  assume st1: "st' = (if claimed then update_cell a (\<lambda>s. s\<lparr>sx_staging := True\<rparr>) st1 else st1)" "as_poisoned st1 = as_poisoned st"
    "(as_cells st1 = as_cells st \<and> as_next st1 = as_next st) \<or>
     (\<exists>cache auth bar knobs. a = as_next st \<and> as_next st1 = as_next st + 1 \<and>
        as_cells st1 = (as_cells st)(a \<mapsto> SessionEcon_new F cache auth bar knobs))"
  have "view b st1 = view b st \<or> (\<exists>n. view b st1 = Some (True, n))"
    using st1(2,3) by (auto simp: view_def lock_def SessionEcon_new_def)
  then show ?thesis by (simp add: st1(1) view_update)
qed

text \<open>The invariant: an open window's floor covers everything sent, and so does that of an interceptor at
  work; a turn about to be forwarded uninspected has its window shut, one about to be sent is covered.\<close>

definition covered :: "('v, 'b) proxy \<Rightarrow> nat \<Rightarrow> Event list \<Rightarrow> (bool \<times> nat) option \<Rightarrow> bool" where
  "covered P a evs v = (\<forall>n. v = Some (False, n) \<longrightarrow> (\<forall>m \<in> sent_counts P a evs. m \<le> n))"

definition shut :: "(bool \<times> nat) option \<Rightarrow> bool" where
  "shut v = (\<forall>n. v \<noteq> Some (False, n))"

fun turn_thread :: "('v, 'b) proxy \<Rightarrow> 'b AppState \<Rightarrow> Event list \<Rightarrow> Thread \<Rightarrow> bool" where
  "turn_thread P st evs (Deciding inspect owner _ _) = (\<forall>a. owner = Some a \<longrightarrow> inspect = InspectNo \<and> shut (view a st))"
| "turn_thread P st evs (Intercepting a _ _ _ _ inputs) =
     covered P a evs (Some (ii_window_closed inputs, ii_last_message_count inputs))"
| "turn_thread P st evs (Sending a _ _ _ _ egress) =
     (\<forall>c n w. view a st = Some (c, n) \<longrightarrow> parse_body (lb_serde (px_lib P)) egress = Some w \<longrightarrow> length (messages w) \<le> n)"
| "turn_thread P st evs (Passing owner _ _) = (\<forall>a. owner = Some a \<longrightarrow> shut (view a st))"
| "turn_thread P st evs _ = True"

definition turn_inv :: "('v, 'b) proxy \<Rightarrow> 'b config \<Rightarrow> bool" where
  "turn_inv P cf = (heap_ok (cf_app cf) \<and> growing P cf \<and> length (filter is_request (cf_threads cf)) \<le> 1 \<and>
     (\<forall>a. covered P a (cf_log cf) (view a (cf_app cf))) \<and>
     (\<forall>t \<in> set (cf_threads cf). turn_thread P (cf_app cf) (cf_log cf) t))"

lemma turn_thread_other: "\<not> is_request t \<Longrightarrow> turn_thread P st evs t"
  by (cases t) simp_all

lemma turn_thread_view: "(\<And>a. view a st' = view a st) \<Longrightarrow> turn_thread P st' evs t = turn_thread P st evs t"
  by (cases t) simp_all

lemma advance_background:
  assumes "advance P orc t st = (st', ts, evs)" "\<not> is_request t"
  shows "(\<forall>a. view a st' = view a st) \<and> (\<forall>o' r b. Forwarded o' r b \<notin> set evs) \<and> (\<forall>t' \<in> set ts. \<not> is_request t')"
proof (cases t)
  case (Draining a usage)
  then show ?thesis using assms(1) view_update[of "observe _ _ _ _" _ a st] by (auto simp: task_ops split: option.splits)
qed (use assms in \<open>auto simp: task_ops view_update split: option.splits list.splits prod.splits ToolCall.splits if_splits\<close>)

lemma sent_counts_append:
  "sent_counts P a (evs @ [Forwarded (Some b) req bytes]) = sent_counts P a evs \<union>
     (if a = b then {length (messages w) | w. parse_body (lb_serde (px_lib P)) bytes = Some w} else {})"
  "sent_counts P a (evs @ [Forwarded None req bytes]) = sent_counts P a evs"
  "sent_counts P a (evs @ [Answered req rsp]) = sent_counts P a evs"
  "sent_counts P a (evs @ [BadGateway req]) = sent_counts P a evs"
  "sent_counts P a (evs @ [respond req response]) = sent_counts P a evs"
  by (auto simp: sent_counts_def respond_def split: option.splits)

lemma shut_covered: "shut v \<Longrightarrow> covered P a evs v"
  by (auto simp: shut_def covered_def)

definition turn_ok :: "('v, 'b) proxy \<Rightarrow> 'b AppState \<Rightarrow> Event list \<Rightarrow> Thread list \<Rightarrow> bool" where
  "turn_ok P st evs ts = ((\<forall>a. covered P a evs (view a st)) \<and> (\<forall>t \<in> set ts. turn_thread P st evs t))"

lemma turn_ok_local:
  assumes "\<forall>o' r b. Forwarded o' r b \<notin> set new"
  shows "turn_ok P st (evs @ new) ts = turn_ok P st evs ts"
proof -
  have "sent_counts P a (evs @ new) = sent_counts P a evs" for a using assms by (simp add: sent_counts_def)
  then have "covered P a (evs @ new) v = covered P a evs v" for a v by (simp add: covered_def)
  moreover from this have "turn_thread P st (evs @ new) t = turn_thread P st evs t" for t by (cases t) simp_all
  ultimately show ?thesis by (simp add: turn_ok_def)
qed

lemma turn_ok_close:
  assumes "\<forall>a. covered P a evs (view a st)"
  shows "(\<forall>b. covered P b evs (view b (update_cell a close_window st))) \<and> shut (view a (update_cell a close_window st))"
proof -
  have s: "shut (view a (update_cell a close_window st))" by (auto simp: shut_def view_update_same)
  have "covered P b evs (view b (update_cell a close_window st))" for b
    using assms view_update_other[of b a close_window st] shut_covered[OF s] by (cases "b = a") auto
  then show ?thesis using s by blast
qed

lemma decide_turn:
  assumes "decide_step P orc inspect owner req bytes st = (st', ts, new)" "heap_ok st"
    "\<forall>a. covered P a evs (view a st)" "turn_thread P st evs (Deciding inspect owner req bytes)"
  shows "turn_ok P st' (evs @ new) ts"
proof -
  consider (pass) o' where "st' = st" "ts = [Passing o' req bytes]" "new = []" "o' = owner \<and> inspect = InspectNo \<or> o' = None"
    | (shadow) a where "st' = update_cell a close_window st" "ts = [Passing (Some a) req bytes]" "new = []"
    | (answer) rsp where "st' = st" "ts = []" "new = [Answered req rsp]"
    | (made) F J now token headers a sess claimed where "forward_setup F J now token headers bytes st = Some (a, sess, claimed, st')"
        "ts = [Entering a sess claimed req bytes]" "new = []"
    using assms(1) by (auto simp: decide_step_def bind_eq_Some_conv split: Inspect.splits SynthDecision.splits if_splits option.splits)
  then show ?thesis
  proof cases
    case pass
    then show ?thesis using assms(3,4) by (auto simp: turn_ok_def)
  next
    case shadow
    then show ?thesis using turn_ok_close[OF assms(3)] by (simp add: turn_ok_def)
  next
    case answer
    then show ?thesis using assms(3) by (simp add: turn_ok_def covered_def sent_counts_append)
  next
    case made
    have "covered P b evs (view b st')" for b using view_setup[OF made(1) assms(2), of b] assms(3) by (auto simp: covered_def)
    then show ?thesis using made by (simp add: turn_ok_def)
  qed
qed

lemma stash_turn:
  assumes "\<forall>a. covered P a evs (view a st)"
    and "\<forall>w. parse_body (lb_serde (px_lib P)) egress = Some w \<longrightarrow> (\<forall>n \<in> sent_counts P a evs. n \<le> length (messages w))"
  shows "turn_ok P (update_cell a (stash_egress_snapshot (lb_serde (px_lib P)) egress) st) evs [Sending a sess claimed req bytes egress]"
proof (cases "parse_body (lb_serde (px_lib P)) egress")
  case None
  then have "view b (update_cell a (stash_egress_snapshot (lb_serde (px_lib P)) egress) st) = view b st" for b
    by (intro view_update) (simp add: stash_egress_snapshot_def)
  then show ?thesis using assms(1) None by (simp add: turn_ok_def)
next
  case (Some w)
  let ?st = "update_cell a (stash_egress_snapshot (lb_serde (px_lib P)) egress) st"
  have va: "view a ?st = map_option (\<lambda>s. (False, max (sx_last_message_count s) (length (messages w)))) (lock a st)"
    by (simp add: view_update_same stash_egress_snapshot_def Some)
  then have "covered P a evs (view a ?st)" using assms(2) Some by (fastforce simp: covered_def)
  then have "covered P b evs (view b ?st)" for b using assms(1) by (cases "b = a") (auto simp: view_update_other)
  then show ?thesis using va Some by (auto simp: turn_ok_def)
qed

lemma advance_turn:
  assumes "advance P orc t st = (st', ts, new)" "heap_ok st" "\<forall>a. covered P a evs (view a st)" "turn_thread P st evs t" "is_request t"
    and "\<And>a sess claimed req bytes egress w. t = Stashing a sess claimed req bytes egress \<Longrightarrow>
      parse_body (lb_serde (px_lib P)) egress = Some w \<Longrightarrow> \<forall>n \<in> sent_counts P a evs. n \<le> length (messages w)"
  shows "turn_ok P st' (evs @ new) ts"
proof (cases t)
  case (Arrived inspect req)
  have ok: "turn_ok P st1 (evs @ [BadGateway req]) []" "turn_ok P st1 evs [Deciding i' owner req bytes]"
    if "kill_check inspect st = (i', owner, st1)" for i' owner st1 bytes
  proof -
    have "(\<forall>a. covered P a evs (view a st1)) \<and> (\<forall>a. owner = Some a \<longrightarrow> i' = InspectNo \<and> shut (view a st1))"
      using that turn_ok_close[OF assms(3)] assms(3) by (auto simp: kill_check_def split: if_splits option.splits Inspect.splits)
    then show "turn_ok P st1 (evs @ [BadGateway req]) []" "turn_ok P st1 evs [Deciding i' owner req bytes]"
      by (simp_all add: turn_ok_def covered_def sent_counts_append)
  qed
  then show ?thesis using assms(1) by (auto simp: Arrived Let_def split: prod.splits option.splits)
next
  case (Deciding inspect owner req bytes)
  then show ?thesis using assms(1) decide_turn[OF _ assms(2,3)] assms(4) by simp
next
  case (Entering a sess claimed req bytes)
  show ?thesis
  proof (cases "Option.bind (lock a st) (intercept_inputs (or_now orc))")
    case None
    then show ?thesis using assms(1,3) by (auto simp: Entering turn_ok_def)
  next
    case (Some p)
    then obtain s0 where s0: "lock a st = Some s0" "intercept_inputs (or_now orc) s0 = Some p" by (auto simp: bind_eq_Some_conv)
    then have p: "snd p = s0\<lparr>sx_staged := None\<rparr>" "ii_window_closed (fst p) = sx_window_closed s0"
      "ii_last_message_count (fst p) = sx_last_message_count s0"
      by (auto simp: intercept_inputs_def split: bool.splits option.splits)
    have st': "st' = update_cell a (\<lambda>_. snd p) st" "ts = [Intercepting a sess claimed req bytes (fst p)]" "new = []"
      using assms(1) Some by (auto simp: Entering split: prod.splits)
    have "view b st' = view b st" for b
      using s0(1) view_update_other[of b a] by (cases "b = a") (auto simp: st' p view_update_same, auto simp: view_def)
    moreover have "view a st = Some (sx_window_closed s0, sx_last_message_count s0)" using s0(1) by (simp add: view_def)
    ultimately show ?thesis using assms(3)[rule_format, of a] assms(3) st'(2,3) p(2,3) by (simp add: turn_ok_def)
  qed
next
  case (Stashing a sess claimed req bytes egress)
  then show ?thesis using assms(1) stash_turn[OF assms(3)] assms(6)[OF Stashing] by auto
next
  case (Sending a sess claimed req bytes egress)
  have "covered P b (evs @ [Forwarded (Some a) r egress]) (view b st)" for b r
    using assms(3,4) by (cases "b = a") (auto simp: Sending covered_def sent_counts_append)
  then show ?thesis using assms(1) by (auto simp: Sending turn_ok_def)
next
  case (Awaiting a sess claimed req bytes)
  then show ?thesis using assms(1,3) by (auto simp: turn_ok_def covered_def sent_counts_append split: prod.splits)
next
  case (Relaying req)
  then show ?thesis using assms(1,3) by (auto simp: turn_ok_def covered_def sent_counts_append)
next
  case (Passing owner req bytes)
  have "covered P b (evs @ [Forwarded owner r bytes]) (view b st)" for b r
    using assms(3,4) by (cases owner; cases "owner = Some b") (auto simp: Passing covered_def shut_def sent_counts_append)
  then show ?thesis using assms(1) by (auto simp: Passing turn_ok_def)
qed (use assms in \<open>auto simp: turn_ok_def view_update Let_def\<close>)

lemma other_requests:
  assumes "i < length ts" "length (filter is_request ts) \<le> 1" "is_request (ts ! i)" "t \<in> set (remove_nth i ts)"
  shows "\<not> is_request t"
proof -
  have "filter is_request ts = filter is_request (take i ts) @ (ts ! i) # filter is_request (drop (Suc i) ts)"
    by (subst (1) id_take_nth_drop[OF assms(1)]) (simp add: assms(3))
  then have "filter is_request (take i ts) = [] \<and> filter is_request (drop (Suc i) ts) = []" using assms(2) by auto
  then show ?thesis using assms(4) by (auto simp: remove_nth_def filter_empty_conv)
qed

lemma turn_inv_step:
  assumes "turn_step P cf cf'" "turn_inv P cf"
  shows "turn_inv P cf'"
proof -
  have step: "sys_step P cf cf'" "length (filter is_request (cf_threads cf')) \<le> 1" "growing P cf'" using assms(1) by (auto simp: turn_step_def)
  have inv: "heap_ok (cf_app cf)" "growing P cf" "length (filter is_request (cf_threads cf)) \<le> 1"
    "turn_ok P (cf_app cf) (cf_log cf) (cf_threads cf)" using assms(2) by (auto simp: turn_inv_def turn_ok_def)
  have "turn_ok P (cf_app cf') (cf_log cf') (cf_threads cf')"
    using step(1)
  proof cases
    case (thread i orc)
    obtain st ts new where adv: "advance P orc (cf_threads cf ! i) (cf_app cf) = (st, ts, new)" by (metis prod_cases3)
    have t: "cf_threads cf ! i \<in> set (cf_threads cf)" using thread(2) by simp
    have rest: "set (remove_nth i (cf_threads cf)) \<subseteq> set (cf_threads cf)" by (rule set_remove_nth)
    have "turn_ok P st (cf_log cf @ new) (remove_nth i (cf_threads cf) @ ts)"
    proof (cases "is_request (cf_threads cf ! i)")
      case True
      have "turn_ok P st (cf_log cf @ new) ts"
      proof (rule advance_turn[OF adv inv(1) _ _ True])
        show "\<forall>a. covered P a (cf_log cf) (view a (cf_app cf))" "turn_thread P (cf_app cf) (cf_log cf) (cf_threads cf ! i)"
          using inv(4) t by (auto simp: turn_ok_def)
        show "\<forall>n \<in> sent_counts P a (cf_log cf). n \<le> length (messages w)"
          if "cf_threads cf ! i = Stashing a sess claimed req bytes egress" "parse_body (lb_serde (px_lib P)) egress = Some w"
          for a sess claimed req bytes egress w
          using inv(2) t that unfolding growing_def by metis
      qed
      moreover have "turn_thread P st (cf_log cf @ new) t'" if "t' \<in> set (remove_nth i (cf_threads cf))" for t'
        by (rule turn_thread_other) (rule other_requests[OF thread(2) inv(3) True that])
      ultimately show ?thesis by (auto simp: turn_ok_def)
    next
      case False
      note bg = advance_background[OF adv False]
      have same: "turn_thread P st evs t' = turn_thread P (cf_app cf) evs t'" for evs t' by (rule turn_thread_view) (use bg in blast)
      have "turn_thread P st evs t'" if "t' \<in> set ts" for evs t' by (rule turn_thread_other) (use bg that in blast)
      then have "turn_ok P st (cf_log cf) (remove_nth i (cf_threads cf) @ ts)" using bg inv(4) rest by (auto simp: turn_ok_def same)
      then show ?thesis using turn_ok_local bg by blast
    qed
    then show ?thesis using adv thread by (simp add: run_thread_def)
  next
    case (cancel i)
    then show ?thesis using inv(4) set_remove_nth[of i "cf_threads cf"] by (auto simp: turn_ok_def)
  next
    case (control line outcome st reach)
    then have "view a st = view a (cf_app cf)" for a using control_cells[OF control(2)] by (simp add: view_def lock_def)
    moreover from this have same: "turn_thread P st evs t' = turn_thread P (cf_app cf) evs t'" for evs t' by (rule turn_thread_view)
    ultimately show ?thesis using inv(4) control by (auto simp: turn_ok_def same split: option.splits)
  next
    case (refuse req status)
    then show ?thesis using inv(4) turn_ok_local[of "[Rejected req status]" P "cf_app cf" "cf_log cf" "cf_threads cf"] by simp
  next
    case (retrieve token ref query ts evs)
    then have new: "\<forall>t \<in> set ts. \<not> is_request t" "\<forall>o' r b. Forwarded o' r b \<notin> set evs"
      by (auto simp: serve_mcp_def split: option.splits)
    have "turn_thread P (cf_app cf) (cf_log cf) t" if "t \<in> set ts" for t by (rule turn_thread_other) (use new(1) that in blast)
    then have "turn_ok P (cf_app cf) (cf_log cf) (cf_threads cf @ ts)" using inv(4) by (auto simp: turn_ok_def)
    then show ?thesis unfolding retrieve(1) by (simp add: turn_ok_local[OF new(2)])
  qed (use inv(4) in \<open>auto simp: turn_ok_def\<close>)
  then show ?thesis using step heap_ok_step[OF step(1) inv(1)] by (auto simp: turn_inv_def turn_ok_def)
qed

lemma turn_inv_steps: "(turn_step P)\<^sup>*\<^sup>* cf cf' \<Longrightarrow> turn_inv P cf \<Longrightarrow> turn_inv P cf'"
  by (induction rule: rtranclp_induct) (auto intro: turn_inv_step)

lemma turn_inv_start: "turn_inv P (start_config up rows)"
  by (simp add: turn_inv_def start_config_def AppState_new_def heap_ok_def growing_def covered_def sent_counts_def)

section \<open>An example\<close>

text \<open>The example session after its first request, whose body has no message, went out unchanged.\<close>

definition ready :: "'b SessionEcon \<Rightarrow> bool" where
  "ready s = (sx_intercept_enabled s \<and> sx_econ s \<noteq> None \<and> sx_staged s = None \<and> sx_staging s)"

definition demo_inputs :: "nat SessionEcon \<Rightarrow> InterceptInputs" where
  "demo_inputs s = \<lparr>ii_econ = the (sx_econ s), ii_cache = sx_cache s, ii_npv_floor = sx_npv_floor s, ii_policy = sx_policy s,
     ii_remaining_turns = sx_remaining_turns s, ii_hot_refs = sx_hot_refs s, ii_fast_lane = sx_fast_lane s,
     ii_last_message_count = sx_last_message_count s, ii_window_closed = sx_window_closed s,
     ii_staged = None, ii_token_scale = sx_token_scale s, ii_now = Fin 0\<rparr>"

abbreviation S0 :: SessionId where "S0 \<equiv> SessionId [116]"

abbreviation at_work :: "nat SessionEcon \<Rightarrow> bool \<Rightarrow> nat \<Rightarrow> Thread" where
  "at_work s claimed b \<equiv> Intercepting 0 S0 claimed (demo_req b) [b] (demo_inputs s)"

lemma demo_phases:
  fixes s
  defines "st \<equiv> demo_app (Some 0) [0 \<mapsto> s]"
  shows "ready s \<Longrightarrow> advance demo_proxy demo_choices (Deciding (InspectYes (Some [116])) None (demo_req b) [b]) st =
      (st, [Entering 0 S0 False (demo_req b) [b]], [])"
    and "ready s \<Longrightarrow> advance demo_proxy demo_choices (Entering 0 S0 c (demo_req b) [b]) st = (st, [at_work s c b], [])"
    and "advance demo_proxy demo_choices (Intercepting 0 S0 c (demo_req b) [b] inputs) st =
      (st, [Committing 0 S0 c (demo_req b) [b] (identity [b])], [])"
    and "advance demo_proxy demo_choices (Committing 0 S0 c (demo_req b) [b] (identity [b])) st =
      (st, [Stashing 0 S0 c (demo_req b) [b] [b]], [])"
    and "advance demo_proxy demo_choices (Stashing 0 S0 c (demo_req b) [b] [b]) st =
      (demo_app (Some 0) [0 \<mapsto> stash_egress_snapshot lane_serde [b] s], [Sending 0 S0 c (demo_req b) [b] [b]], [])"
    and "advance demo_proxy demo_choices (Sending 0 S0 c (demo_req b) [b] [b]) st =
      (st, [Awaiting 0 S0 c (demo_req b) [b]], [Forwarded (Some 0) (demo_req b) [b]])"
    and "advance demo_proxy demo_choices (Awaiting 0 S0 c (demo_req b) [b]) st =
      (st, Draining 0 None # (if c then [StageStart 0 S0 [b]] else []), [Relayed (demo_req b) demo_reply])"
proof -
  have p: "px_failsafe demo_proxy = demo_breaker" "lb_serde lane_lib = lane_serde" "px_lib demo_proxy = lane_lib"
    "or_now demo_choices = Fin 0" "or_timing demo_choices = Overran" "sanitize [] = []"
    by (simp_all add: demo_proxy_def lane_lib_def demo_choices_def sanitize_def)
  show "advance demo_proxy demo_choices (Deciding (InspectYes (Some [116])) None (demo_req b) [b]) st =
      (st, [Entering 0 S0 False (demo_req b) [b]], [])" if "ready s"
  proof -
    have "session_ctx st [116] = Some \<lparr>ctx_config = RelayConfig_default, ctx_session_id = S0, ctx_econ = Some 0\<rparr>"
      by (simp add: session_ctx_def st_def demo_app_def)
    moreover have "claim_staging 0 st = (False, st)" using that by (simp add: claim_staging_def st_def demo_lock ready_def)
    ultimately have "forward_setup demo_breaker lane_serde (Fin 0) [116] (rq_headers (demo_req b)) [b] st = Some (0, S0, False, st)"
      by (simp add: forward_setup_def lazy_econ_def)
    then show ?thesis by (simp add: decide_step_def demo_forwards p)
  qed
  show "advance demo_proxy demo_choices (Entering 0 S0 c (demo_req b) [b]) st = (st, [at_work s c b], [])" if "ready s"
  proof -
    have "intercept_inputs (Fin 0) s = Some (demo_inputs s, s)"
      using that by (auto simp: intercept_inputs_def ready_def demo_inputs_def)
    then show ?thesis by (simp add: p st_def demo_lock)
  qed
  show "advance demo_proxy demo_choices (Intercepting 0 S0 c (demo_req b) [b] inputs) st =
      (st, [Committing 0 S0 c (demo_req b) [b] (identity [b])], [])"
    by (simp add: p st_def demo_lock run_l2_def task_of_def guarded_def stash_predicted_bust_def identity_def)
  show "advance demo_proxy demo_choices (Committing 0 S0 c (demo_req b) [b] (identity [b])) st =
      (st, [Stashing 0 S0 c (demo_req b) [b] [b]], [])"
    by (simp add: st_def demo_lock commit_fast_lane_def identity_def)
  show "advance demo_proxy demo_choices (Stashing 0 S0 c (demo_req b) [b] [b]) st =
      (demo_app (Some 0) [0 \<mapsto> stash_egress_snapshot lane_serde [b] s], [Sending 0 S0 c (demo_req b) [b] [b]], [])"
    by (simp add: p st_def demo_lock)
  show "advance demo_proxy demo_choices (Sending 0 S0 c (demo_req b) [b] [b]) st =
      (st, [Awaiting 0 S0 c (demo_req b) [b]], [Forwarded (Some 0) (demo_req b) [b]])"
    by (simp add: p demo_req_def upstream_head_def)
  show "advance demo_proxy demo_choices (Awaiting 0 S0 c (demo_req b) [b]) st =
      (st, Draining 0 None # (if c then [StageStart 0 S0 [b]] else []), [Relayed (demo_req b) demo_reply])"
    by (simp add: p forward_def relay_response_def Scanner_new_def demo_choices_def demo_reply_def respond_def)
qed

lemma demo_step:
  assumes "advance demo_proxy demo_choices t (demo_app (Some 0) [0 \<mapsto> s]) = (demo_app (Some 0) [0 \<mapsto> s'], ts', new)"
  shows "sys_step demo_proxy (demo_config s (ts @ [t]) evs) (demo_config s' (ts @ ts') (evs @ new))"
  using thread_step[OF assms, of ts "[]" evs] by (simp add: demo_config_def)

text \<open>A request on its way in, and on its way out.\<close>

lemma demo_enters:
  assumes "ready s"
  shows "sys_step demo_proxy (demo_config s ts evs) (demo_config s (ts @ [Arrived (InspectYes (Some [116])) (demo_req b)]) evs)"
    and "sys_step demo_proxy (demo_config s (ts @ [Arrived (InspectYes (Some [116])) (demo_req b)]) evs)
      (demo_config s (ts @ [Deciding (InspectYes (Some [116])) None (demo_req b) [b]]) evs)"
    and "sys_step demo_proxy (demo_config s (ts @ [Deciding (InspectYes (Some [116])) None (demo_req b) [b]]) evs)
      (demo_config s (ts @ [Entering 0 S0 False (demo_req b) [b]]) evs)"
    and "sys_step demo_proxy (demo_config s (ts @ [Entering 0 S0 c (demo_req b) [b]]) evs) (demo_config s (ts @ [at_work s c b]) evs)"
proof -
  show "sys_step demo_proxy (demo_config s ts evs) (demo_config s (ts @ [Arrived (InspectYes (Some [116])) (demo_req b)]) evs)"
    using demo_arrive[of "demo_config s ts evs" "Some 0" "[0 \<mapsto> s]" b] by (simp add: demo_config_def)
qed (use demo_step[OF demo_advance(1)] demo_step[OF demo_phases(1)[OF assms]] demo_step[OF demo_phases(2)[OF assms]] in auto)

lemma demo_leaves:
  "sys_step demo_proxy (demo_config s (ts @ [Intercepting 0 S0 c (demo_req b) [b] inputs]) evs)
     (demo_config s (ts @ [Committing 0 S0 c (demo_req b) [b] (identity [b])]) evs)"
  "sys_step demo_proxy (demo_config s (ts @ [Committing 0 S0 c (demo_req b) [b] (identity [b])]) evs)
     (demo_config s (ts @ [Stashing 0 S0 c (demo_req b) [b] [b]]) evs)"
  "sys_step demo_proxy (demo_config s (ts @ [Stashing 0 S0 c (demo_req b) [b] [b]]) evs)
     (demo_config (stash_egress_snapshot lane_serde [b] s) (ts @ [Sending 0 S0 c (demo_req b) [b] [b]]) evs)"
  "sys_step demo_proxy (demo_config s (ts @ [Sending 0 S0 c (demo_req b) [b] [b]]) evs)
     (demo_config s (ts @ [Awaiting 0 S0 c (demo_req b) [b]]) (evs @ [Forwarded (Some 0) (demo_req b) [b]]))"
  "sys_step demo_proxy (demo_config s (ts @ [Awaiting 0 S0 c (demo_req b) [b]]) evs)
     (demo_config s (ts @ Draining 0 None # (if c then [StageStart 0 S0 [b]] else [])) (evs @ [Relayed (demo_req b) demo_reply]))"
  using demo_step[OF demo_phases(3)] demo_step[OF demo_phases(4)] demo_step[OF demo_phases(5)] demo_step[OF demo_phases(6)]
    demo_step[OF demo_phases(7)] by auto

definition open_cell :: "nat SessionEcon" where
  "open_cell = stash_egress_snapshot lane_serde [2] (demo_cell\<lparr>sx_staging := True\<rparr>)"

abbreviation first_log :: "Event list" where "first_log \<equiv> [Forwarded (Some 0) (demo_req 2) [2], Relayed (demo_req 2) demo_reply]"

abbreviation first_threads :: "Thread list" where "first_threads \<equiv> [Draining 0 None, StageStart 0 S0 [2]]"

lemma demo_cell_ready: "ready (demo_cell\<lparr>sx_staging := True\<rparr>)" "ready open_cell"
proof -
  have "economics_for (ModelId (lit ''claude-opus-4-8'')) \<noteq> None" by (simp add: economics_for_def)
  then show "ready (demo_cell\<lparr>sx_staging := True\<rparr>)" "ready open_cell"
    by (simp_all add: ready_def open_cell_def stash_egress_snapshot_def lane_parse demo_cell_def SessionEcon_new_def)
qed

lemma open_cell_window: "\<not> sx_window_closed open_cell" "sx_last_message_count open_cell = 0" "sx_fast_lane open_cell = []"
    "sx_policy open_cell = PolicyConfig_default"
proof -
  have "policy_config PolicyKnobs_default = PolicyConfig_default" by (simp add: policy_config_def PolicyKnobs_default_def)
  then show "\<not> sx_window_closed open_cell" "sx_last_message_count open_cell = 0" "sx_fast_lane open_cell = []"
      "sx_policy open_cell = PolicyConfig_default"
    by (simp_all add: open_cell_def stash_egress_snapshot_def lane_parse demo_cell_def SessionEcon_new_def)
qed

text \<open>Without a staged plan the interceptor reads nothing of the session but its fast lane and its knobs.\<close>

lemma unstaged_run:
  assumes "ii_staged i = None" "ii_staged j = None" "ii_fast_lane i = ii_fast_lane j" "ii_policy i = ii_policy j"
    "ii_last_message_count i = ii_last_message_count j" "ii_window_closed i = ii_window_closed j"
  shows "run_l2 L timing bytes i = run_l2 L timing bytes j"
proof -
  have "fast_lane_entry L body i seg key = fast_lane_entry L body j seg key" for body seg key
    using assms by (simp add: fast_lane_entry_def)
  then have "fast_lane_entries L body segs keys i = fast_lane_entries L body segs keys j" for body segs keys
    by (simp add: fast_lane_entries_def)
  then show ?thesis using assms by (simp add: run_l2_def intercept_def Let_def cong: option.case_cong)
qed

lemma demo_commits: "ic_committed (run_l2 lane_lib InTime [0] (demo_inputs open_cell)) = [lane_key]"
proof -
  have "run_l2 lane_lib InTime [0] (demo_inputs open_cell) = run_l2 lane_lib InTime [0] (lane_inputs [])"
    by (rule unstaged_run) (simp_all add: demo_inputs_def lane_inputs_def open_cell_window)
  then show ?thesis using lane_run[of "[]"] by simp
qed

text \<open>A first request that goes through, in any relation that contains the steps between quiet states: one
  request at a time, no sweep, and nothing to be recorded once something was sent.\<close>

definition quiet :: "'b config \<Rightarrow> bool" where
  "quiet cf = (length (filter is_request (cf_threads cf)) \<le> 1 \<and>
     (cf_log cf = [] \<or> list_all (\<lambda>t. case t of Stashing _ _ _ _ _ _ \<Rightarrow> False | _ \<Rightarrow> True) (cf_threads cf)) \<and>
     list_all (\<lambda>t. case t of Collecting _ \<Rightarrow> False | _ \<Rightarrow> True) (cf_threads cf))"

lemma demo_first_request:
  assumes Q: "\<And>cf cf'. sys_step demo_proxy cf cf' \<Longrightarrow> quiet cf \<Longrightarrow> quiet cf' \<Longrightarrow> Q cf cf'"
    and model: "body_model lane_serde [b] = Some (ModelId (lit ''claude-opus-4-8''))"
  shows "Q\<^sup>*\<^sup>* (start_config [] []) (demo_config (stash_egress_snapshot lane_serde [b] (demo_cell\<lparr>sx_staging := True\<rparr>))
    [Draining 0 None, StageStart 0 S0 [b]] [Forwarded (Some 0) (demo_req b) [b], Relayed (demo_req b) demo_reply])"
proof -
  let ?s = "demo_cell\<lparr>sx_staging := True\<rparr>"
  let ?s' = "stash_egress_snapshot lane_serde [b] ?s"
  let ?f = "[Forwarded (Some 0) (demo_req b) [b]]"
  let ?c = "\<lambda>ts. \<lparr>cf_app = demo_app None Map.empty, cf_threads = ts, cf_log = [], cf_seam = True, cf_open = True\<rparr> :: nat config"
  have "Q (start_config [] []) (?c [])"
    by (rule Q[OF demo_minted]) (simp_all add: quiet_def start_config_def)
  moreover have "Q (?c []) (?c [Arrived (InspectYes (Some [116])) (demo_req b)])"
    by (rule Q) (use demo_arrive[of "?c []" None Map.empty b] in \<open>simp_all add: quiet_def\<close>)
  moreover have "Q (?c [Arrived (InspectYes (Some [116])) (demo_req b)]) (?c [Deciding (InspectYes (Some [116])) None (demo_req b) [b]])"
    by (rule Q) (use thread_step[where a = "[]" and b = "[]" and evs = "[]",
        OF demo_advance(1)[where b = b and orc = demo_choices and cell = None and cells = Map.empty]] in \<open>simp_all add: quiet_def\<close>)
  moreover have "Q (?c [Deciding (InspectYes (Some [116])) None (demo_req b) [b]]) (demo_config ?s [Entering 0 S0 True (demo_req b) [b]] [])"
    by (rule Q) (use thread_step[OF demo_advance(2)[OF model], of "[]" "[]" "[]"] in \<open>simp_all add: demo_config_def quiet_def\<close>)
  moreover have "Q (demo_config ?s [Entering 0 S0 True (demo_req b) [b]] []) (demo_config ?s [at_work ?s True b] [])"
    by (rule Q) (use demo_enters(4)[OF demo_cell_ready(1), of "[]"] in \<open>simp_all add: demo_config_def quiet_def\<close>)
  moreover have "Q (demo_config ?s [at_work ?s True b] []) (demo_config ?s [Committing 0 S0 True (demo_req b) [b] (identity [b])] [])"
    by (rule Q) (use demo_leaves(1)[of ?s "[]"] in \<open>simp_all add: demo_config_def quiet_def\<close>)
  moreover have "Q (demo_config ?s [Committing 0 S0 True (demo_req b) [b] (identity [b])] [])
      (demo_config ?s [Stashing 0 S0 True (demo_req b) [b] [b]] [])"
    by (rule Q) (use demo_leaves(2)[of ?s "[]"] in \<open>simp_all add: demo_config_def quiet_def\<close>)
  moreover have "Q (demo_config ?s [Stashing 0 S0 True (demo_req b) [b] [b]] []) (demo_config ?s' [Sending 0 S0 True (demo_req b) [b] [b]] [])"
    by (rule Q) (use demo_leaves(3)[of ?s "[]"] in \<open>simp_all add: demo_config_def quiet_def\<close>)
  moreover have "Q (demo_config ?s' [Sending 0 S0 True (demo_req b) [b] [b]] []) (demo_config ?s' [Awaiting 0 S0 True (demo_req b) [b]] ?f)"
    by (rule Q) (use demo_leaves(4)[of ?s' "[]" True b "[]"] in \<open>simp_all add: demo_config_def quiet_def\<close>)
  moreover have "Q (demo_config ?s' [Awaiting 0 S0 True (demo_req b) [b]] ?f)
      (demo_config ?s' [Draining 0 None, StageStart 0 S0 [b]] (?f @ [Relayed (demo_req b) demo_reply]))"
    by (rule Q) (use demo_leaves(5)[of ?s' "[]" True b ?f] in \<open>simp_all add: demo_config_def quiet_def\<close>)
  ultimately show ?thesis unfolding append_Cons append_Nil by (meson converse_rtranclp_into_rtranclp rtranclp.rtrancl_refl)
qed

lemma quiet_turn: "sys_step P cf cf' \<Longrightarrow> quiet cf' \<Longrightarrow> turn_step P cf cf'"
  by (auto simp: turn_step_def quiet_def growing_def sent_counts_def list_all_iff)

lemma first_turn: "(turn_step demo_proxy)\<^sup>*\<^sup>* (start_config [] []) (demo_config open_cell first_threads first_log)"
  unfolding open_cell_def by (rule demo_first_request[OF quiet_turn demo_models(2)])

lemma second_turn: "(turn_step demo_proxy)\<^sup>*\<^sup>* (start_config [] [])
    (demo_config open_cell (first_threads @ [at_work open_cell False 0]) first_log)"
proof -
  note e = demo_enters[OF demo_cell_ready(2), where ts = first_threads and evs = first_log]
  note t = quiet_turn[OF e(1)] quiet_turn[OF e(2)] quiet_turn[OF e(3)] quiet_turn[OF e(4)[where c = False]]
  have "(turn_step demo_proxy)\<^sup>*\<^sup>* (demo_config open_cell first_threads first_log)
      (demo_config open_cell (first_threads @ [at_work open_cell False 0]) first_log)"
    by (rule converse_rtranclp_into_rtranclp, rule t(1)[of 0], simp add: demo_config_def quiet_def,
        rule converse_rtranclp_into_rtranclp, rule t(2)[of 0], simp add: demo_config_def quiet_def,
        rule converse_rtranclp_into_rtranclp, rule t(3)[of 0], simp add: demo_config_def quiet_def,
        rule r_into_rtranclp, rule t(4)[of 0], simp add: demo_config_def quiet_def)
  with first_turn show ?thesis by (rule rtranclp_trans)
qed

section \<open>Overlapping turns\<close>

text \<open>Any thread may be the next to run.\<close>

lemma member_step:
  assumes "advance P orc t (cf_app cf) = (st, ts', new)" "mset (cf_threads cf) = add_mset t M"
  shows "\<exists>cf'. sys_step P cf cf' \<and> cf_app cf' = st \<and> mset (cf_threads cf') = M + mset ts' \<and> cf_log cf' = cf_log cf @ new"
proof -
  have "t \<in> set (cf_threads cf)" using assms(2) by (metis set_mset_mset union_single_eq_member)
  then obtain i where i: "i < length (cf_threads cf)" "cf_threads cf ! i = t" by (auto simp: in_set_conv_nth)
  have "mset (cf_threads cf) = add_mset t (mset (remove_nth i (cf_threads cf)))"
    by (subst (1) id_take_nth_drop[OF i(1)]) (simp add: remove_nth_def i(2))
  then have "mset (remove_nth i (cf_threads cf)) = M" using assms(2) by simp
  then show ?thesis using assms(1) i sys_step.thread[OF i(1), of P orc]
    by (intro exI[of _ "run_thread P orc i cf"]) (simp add: run_thread_def)
qed

lemma lock_update: "lock a st = Some s \<Longrightarrow> lock a (update_cell a f st) = Some (f s)"
  by (auto simp: lock_def update_cell_cells split: if_splits)

text \<open>A request whose interceptor overran goes out as it came: its messages raise the floor, and the fast
  lane stays what it was.\<close>

lemma overran_turn:
  assumes "mset (cf_threads cf) = add_mset (Intercepting a sess claimed req bytes inputs) M" "lock a (cf_app cf) = Some s"
    and "parse_body (lb_serde (px_lib P)) bytes = Some w"
  shows "\<exists>cf' s'. (sys_step P)\<^sup>*\<^sup>* cf cf' \<and> M \<subseteq># mset (cf_threads cf') \<and> lock a (cf_app cf') = Some s' \<and>
    Forwarded (Some a) (upstream_head req) bytes \<in> set (cf_log cf') \<and> length (messages w) \<le> sx_last_message_count s' \<and>
    sx_fast_lane s' = sx_fast_lane s"
proof -
  obtain orc :: choices where orc: "or_timing orc = Overran" by (metis choices.select_convs(3))
  have l2: "run_l2 (px_lib P) Overran bytes inputs = identity bytes" by (simp add: run_l2_def task_of_def guarded_def)
  obtain cf1 where s1: "sys_step P cf cf1" "mset (cf_threads cf1) = add_mset (Committing a sess claimed req bytes (identity bytes)) M"
      "lock a (cf_app cf1) = Some s"
    using member_step[OF advance.simps(4)[of P orc a sess claimed req bytes inputs, unfolded orc l2 Let_def] assms(1)] lock_update[OF assms(2)]
    by (auto simp: stash_predicted_bust_def identity_def)
  obtain cf2 where s2: "sys_step P cf1 cf2" "mset (cf_threads cf2) = add_mset (Stashing a sess claimed req bytes bytes) M"
      "lock a (cf_app cf2) = Some s"
    using member_step[OF advance.simps(5)[of P orc] s1(2)] lock_update[OF s1(3)] by (auto simp: commit_fast_lane_def identity_def)
  obtain cf3 s' where s3: "sys_step P cf2 cf3" "mset (cf_threads cf3) = add_mset (Sending a sess claimed req bytes bytes) M"
      "lock a (cf_app cf3) = Some s'" "s' = stash_egress_snapshot (lb_serde (px_lib P)) bytes s"
    using member_step[OF advance.simps(6)[of P orc] s2(2)] lock_update[OF s2(3)] by auto
  obtain cf4 where s4: "sys_step P cf3 cf4" "mset (cf_threads cf4) = add_mset (Awaiting a sess claimed req bytes) M"
      "lock a (cf_app cf4) = Some s'" "Forwarded (Some a) (upstream_head req) bytes \<in> set (cf_log cf4)"
    using member_step[OF advance.simps(7)[of P orc] s3(2)] s3(3) by auto
  have "(sys_step P)\<^sup>*\<^sup>* cf cf4" using s1(1) s2(1) s3(1) s4(1) by (meson converse_rtranclp_into_rtranclp rtranclp.rtrancl_refl)
  moreover have "length (messages w) \<le> sx_last_message_count s' \<and> sx_fast_lane s' = sx_fast_lane s"
    by (simp add: s3(4) stash_egress_snapshot_def assms(3))
  ultimately show ?thesis using s4(2-4) by (intro exI[of _ cf4] exI[of _ s']) simp
qed

lemma set_set_extend: "set (set_extend xs new) = set xs \<union> set new"
  unfolding set_extend_def by (induction new arbitrary: xs) auto

text \<open>A request whose interceptor is in time commits what it found against the inputs it had read.\<close>

lemma committing_turn:
  assumes "Intercepting a sess claimed req bytes inputs \<in># mset (cf_threads cf)" "lock a (cf_app cf) = Some s"
    and "k \<in> set (ic_committed (run_l2 (px_lib P) InTime bytes inputs))"
  shows "\<exists>cf' s'. (sys_step P)\<^sup>*\<^sup>* cf cf' \<and> lock a (cf_app cf') = Some s' \<and> k \<in> set (sx_fast_lane s') \<and>
    sx_last_message_count s' = sx_last_message_count s"
proof -
  let ?res = "run_l2 (px_lib P) InTime bytes inputs"
  obtain M where M: "mset (cf_threads cf) = add_mset (Intercepting a sess claimed req bytes inputs) M"
    using multi_member_split[OF assms(1)] by blast
  obtain orc :: choices where orc: "or_timing orc = InTime" by (metis choices.select_convs(3))
  obtain cf1 where s1: "sys_step P cf cf1" "mset (cf_threads cf1) = add_mset (Committing a sess claimed req bytes ?res) M"
      "lock a (cf_app cf1) = Some (stash_predicted_bust (ic_predicted_bust ?res) s)"
    using member_step[OF advance.simps(4)[of P orc a sess claimed req bytes inputs, unfolded orc Let_def] M] lock_update[OF assms(2)] by auto
  obtain cf2 where s2: "sys_step P cf1 cf2" "lock a (cf_app cf2) =
      Some (commit_fast_lane (ic_committed ?res) (ic_uncommitted ?res) (stash_predicted_bust (ic_predicted_bust ?res) s))"
    using member_step[OF advance.simps(5)[of P orc] s1(2)] lock_update[OF s1(3)] by auto
  have "k \<notin> set (ic_uncommitted ?res)"
    using committed_leaf[OF assms(3)] uncommitted_were_committed[of "px_lib P" InTime bytes inputs] by blast
  then have "k \<in> set (sx_fast_lane (commit_fast_lane (ic_committed ?res) (ic_uncommitted ?res)
      (stash_predicted_bust (ic_predicted_bust ?res) s)))"
    using assms(3) by (auto simp: commit_fast_lane_def set_set_extend)
  moreover have "(sys_step P)\<^sup>*\<^sup>* cf cf2" using s1(1) s2(1) by (meson converse_rtranclp_into_rtranclp rtranclp.rtrancl_refl)
  ultimately show ?thesis using s2(2) by auto
qed

section \<open>Properties\<close>

text \<open>C5: one turn at a time, a committed leaf was never sent before.  When the client has one request
  in flight at a time and resends a transcript that does not shrink, then, however that request interleaves
  with drains, staging, collections, retrievals and control frames, and whichever turns the kill switch or
  the shadow mode lets through uninspected, every leaf the interceptor commits to the fast lane is a tool
  pair of the request whose messages come after every message of every request forwarded for the session.\<close>

theorem one_turn_at_a_time_commits_uncached_leaves:
  assumes "(turn_step P)\<^sup>*\<^sup>* (start_config up rows) cf"
    and "Intercepting a sess claimed req bytes inputs \<in> set (cf_threads cf)"
    and "k \<in> set (ic_committed (run_l2 (px_lib P) timing bytes inputs))"
  shows "\<exists>body seg. parse_body (lb_serde (px_lib P)) bytes = Some body \<and> seg \<in> set (segment_prompt (lb_serde (px_lib P)) body) \<and>
    kind seg = ToolPair \<and> k = address (lb_sha (px_lib P)) (segment_payload_bytes seg body) \<and>
    (\<forall>u \<in> set (source_uuids seg). \<exists>m. message_index u = Some m \<and> (\<forall>n \<in> sent_counts P a (cf_log cf). n \<le> m))"
proof -
  have "turn_inv P cf" by (rule turn_inv_steps[OF assms(1) turn_inv_start])
  then have "turn_thread P (cf_app cf) (cf_log cf) (Intercepting a sess claimed req bytes inputs)" using assms(2) unfolding turn_inv_def by blast
  then have cov: "covered P a (cf_log cf) (Some (ii_window_closed inputs, ii_last_message_count inputs))" by simp
  from committed_leaf[OF assms(3)] obtain body seg where leaf: "\<not> ii_window_closed inputs" "parse_body (lb_serde (px_lib P)) bytes = Some body"
    "seg \<in> set (segment_prompt (lb_serde (px_lib P)) body)" "k = address (lb_sha (px_lib P)) (segment_payload_bytes seg body)"
    "kind seg = ToolPair" "provably_uncached seg (ii_last_message_count inputs)" by blast
  have "\<forall>n \<in> sent_counts P a (cf_log cf). n \<le> ii_last_message_count inputs" using cov leaf(1) by (simp add: covered_def)
  moreover have "\<exists>m. message_index u = Some m \<and> ii_last_message_count inputs \<le> m" if "u \<in> set (source_uuids seg)" for u
    using leaf(6) that by (auto simp: provably_uncached_def list_all_iff split: option.splits)
  ultimately have "\<forall>u \<in> set (source_uuids seg). \<exists>m. message_index u = Some m \<and> (\<forall>n \<in> sent_counts P a (cf_log cf). n \<le> m)"
    by (meson le_trans)
  then show ?thesis using leaf(2-5) by blast
qed

theorem one_turn_at_a_time_commits_uncached_leaves_witness:
  "\<exists>cf inputs. (turn_step demo_proxy)\<^sup>*\<^sup>* (start_config [] []) cf \<and> ic_committed (run_l2 lane_lib InTime [0] inputs) = [lane_key] \<and>
     (\<exists>body seg. parse_body lane_serde [0] = Some body \<and> seg \<in> set (segment_prompt lane_serde body) \<and> kind seg = ToolPair)"
proof -
  let ?cf = "demo_config open_cell (first_threads @ [at_work open_cell False 0]) first_log"
  have "at_work open_cell False 0 \<in> set (cf_threads ?cf)" by (simp add: demo_config_def)
  moreover have lib: "px_lib demo_proxy = lane_lib" "lb_serde lane_lib = lane_serde" by (simp_all add: demo_proxy_def lane_lib_def)
  moreover have "lane_key \<in> set (ic_committed (run_l2 (px_lib demo_proxy) InTime [0] (demo_inputs open_cell)))"
    by (simp add: lib demo_commits)
  ultimately have "\<exists>body seg. parse_body lane_serde [0] = Some body \<and> seg \<in> set (segment_prompt lane_serde body) \<and> kind seg = ToolPair"
    using one_turn_at_a_time_commits_uncached_leaves[OF second_turn, of 0 S0 False "demo_req 0" "[0]" "demo_inputs open_cell" lane_key InTime]
    by (auto simp: lib)
  then show ?thesis using second_turn demo_commits by blast
qed

text \<open>C40: overlapping turns defeat the floor.  Whenever two requests of one session are at their
  interceptors at once, the second resending messages of the first, and the second's interceptor, given the
  inputs it has read, commits a leaf, then a run is possible in which the first goes out as it came and
  raises the session's floor above all its messages, and only then the second commits that leaf to the
  session's fast lane as provably uncached: a tool pair all of whose messages are among those that have
  already gone out unrewritten, below the floor.\<close>

theorem overlapping_turns_defeat_the_floor:
  assumes "{#Intercepting a sess1 claimed1 req1 bytes1 inputs1, Intercepting a sess2 claimed2 req2 bytes2 inputs2#} \<subseteq># mset (cf_threads cf)"
    and "lock a (cf_app cf) = Some s" "k \<notin> set (sx_fast_lane s)"
    and "parse_body (lb_serde (px_lib P)) bytes1 = Some w1" "parse_body (lb_serde (px_lib P)) bytes2 = Some w2"
    and "take (length (messages w2)) (messages w1) = messages w2"
    and "k \<in> set (ic_committed (run_l2 (px_lib P) InTime bytes2 inputs2))"
  shows "\<exists>cf1 s1 cf2 s2 seg. (sys_step P)\<^sup>*\<^sup>* cf cf1 \<and> lock a (cf_app cf1) = Some s1 \<and>
    Forwarded (Some a) (upstream_head req1) bytes1 \<in> set (cf_log cf1) \<and> k \<notin> set (sx_fast_lane s1) \<and>
    (sys_step P)\<^sup>*\<^sup>* cf1 cf2 \<and> lock a (cf_app cf2) = Some s2 \<and> k \<in> set (sx_fast_lane s2) \<and>
    seg \<in> set (segment_prompt (lb_serde (px_lib P)) w2) \<and> kind seg = ToolPair \<and> source_uuids seg \<noteq> [] \<and>
    k = address (lb_sha (px_lib P)) (segment_payload_bytes seg w2) \<and>
    (\<forall>u \<in> set (source_uuids seg). \<exists>m. message_index u = Some m \<and> m < length (messages w1) \<and> messages w1 ! m = messages w2 ! m \<and>
       m < sx_last_message_count s1)"
proof -
  obtain M where "mset (cf_threads cf) = {#Intercepting a sess1 claimed1 req1 bytes1 inputs1, Intercepting a sess2 claimed2 req2 bytes2 inputs2#} + M"
    using assms(1) by (metis subset_mset.le_iff_add)
  then have M: "mset (cf_threads cf) = add_mset (Intercepting a sess1 claimed1 req1 bytes1 inputs1)
      (add_mset (Intercepting a sess2 claimed2 req2 bytes2 inputs2) M)" by simp
  obtain cf1 s1 where c1: "(sys_step P)\<^sup>*\<^sup>* cf cf1" "add_mset (Intercepting a sess2 claimed2 req2 bytes2 inputs2) M \<subseteq># mset (cf_threads cf1)"
    "lock a (cf_app cf1) = Some s1" "Forwarded (Some a) (upstream_head req1) bytes1 \<in> set (cf_log cf1)"
    "length (messages w1) \<le> sx_last_message_count s1" "sx_fast_lane s1 = sx_fast_lane s"
    using overran_turn[OF M assms(2,4)] by blast
  have "Intercepting a sess2 claimed2 req2 bytes2 inputs2 \<in># mset (cf_threads cf1)" using c1(2) by (meson insert_subset_eq_iff)
  then obtain cf2 s2 where c2: "(sys_step P)\<^sup>*\<^sup>* cf1 cf2" "lock a (cf_app cf2) = Some s2" "k \<in> set (sx_fast_lane s2)"
    using committing_turn[OF _ c1(3) assms(7)] by blast
  obtain seg where seg: "seg \<in> set (segment_prompt (lb_serde (px_lib P)) w2)" "kind seg = ToolPair"
    "k = address (lb_sha (px_lib P)) (segment_payload_bytes seg w2)" "provably_uncached seg (ii_last_message_count inputs2)"
    using committed_leaf[OF assms(7)] assms(5) by auto
  have "\<exists>m. message_index u = Some m \<and> m < length (messages w1) \<and> messages w1 ! m = messages w2 ! m \<and> m < sx_last_message_count s1"
    if u: "u \<in> set (source_uuids seg)" for u
  proof -
    obtain m where m: "message_index u = Some m" using seg(4) u by (auto simp: provably_uncached_def list_all_iff split: option.splits)
    then have "m < length (messages w2)" using segment_source_bound[OF seg(1) u] message_index_id by metis
    moreover from this have "messages w1 ! m = messages w2 ! m" using assms(6) by (metis nth_take)
    moreover have "length (messages w2) \<le> length (messages w1)" using assms(6) by (metis length_take min.cobounded1)
    ultimately show ?thesis using m c1(5) by auto
  qed
  then show ?thesis using c1 c2 seg assms(3)
    by (intro exI[of _ cf1] exI[of _ s1] exI[of _ cf2] exI[of _ s2] exI[of _ seg]) (auto simp: provably_uncached_def)
qed

theorem overlapping_turns_defeat_the_floor_witness:
  "\<exists>cf cf1 s1 cf2 s2. (sys_step demo_proxy)\<^sup>*\<^sup>* (start_config [] []) cf \<and> (sys_step demo_proxy)\<^sup>*\<^sup>* cf cf1 \<and>
     Forwarded (Some 0) (demo_req 0) [0] \<in> set (cf_log cf1) \<and> lock 0 (cf_app cf1) = Some s1 \<and> lane_key \<notin> set (sx_fast_lane s1) \<and>
     (sys_step demo_proxy)\<^sup>*\<^sup>* cf1 cf2 \<and> lock 0 (cf_app cf2) = Some s2 \<and> lane_key \<in> set (sx_fast_lane s2)"
proof -
  let ?w = "at_work open_cell False 0" and ?ts = "first_threads @ [at_work open_cell False 0]"
  let ?cf = "demo_config open_cell (?ts @ [?w]) first_log"
  note e = demo_enters[OF demo_cell_ready(2), where b = 0]
  have r1: "(sys_step demo_proxy)\<^sup>*\<^sup>* (start_config [] []) (demo_config open_cell ?ts first_log)"
    by (rule mono_rtranclp[rule_format, OF _ second_turn]) (simp add: turn_step_def)
  have r2: "(sys_step demo_proxy)\<^sup>*\<^sup>* (demo_config open_cell ?ts first_log) ?cf"
    using e(1)[of ?ts first_log] e(2)[of ?ts first_log] e(3)[of ?ts first_log] e(4)[of ?ts False first_log]
    by (meson converse_rtranclp_into_rtranclp rtranclp.rtrancl_refl)
  have lib: "px_lib demo_proxy = lane_lib" "lb_serde lane_lib = lane_serde" by (simp_all add: demo_proxy_def lane_lib_def)
  have both: "{#?w, ?w#} \<subseteq># mset (cf_threads ?cf)" by (simp add: demo_config_def)
  have cell: "lock 0 (cf_app ?cf) = Some open_cell" by (simp add: demo_config_def demo_lock)
  have body: "parse_body (lb_serde (px_lib demo_proxy)) [0] = Some (lane_body lane_result)" using lane_parse(1) by (simp add: lib)
  have k: "lane_key \<notin> set (sx_fast_lane open_cell)" "lane_key \<in> set (ic_committed (run_l2 (px_lib demo_proxy) InTime [0] (demo_inputs open_cell)))"
    by (simp_all add: open_cell_window lib demo_commits)
  have head: "upstream_head (demo_req 0) = demo_req 0" by (simp add: demo_req_def upstream_head_def sanitize_def)
  have same: "take (length (messages (lane_body lane_result))) (messages (lane_body lane_result)) = messages (lane_body lane_result)" by simp
  show ?thesis
    using overlapping_turns_defeat_the_floor[OF both cell k(1) body body same k(2)] rtranclp_trans[OF r1 r2] unfolding head by blast
qed

end
