(* ===== verification/Retention.thy ===== *)
theory Retention
  imports Turns
begin

text \<open>
  Does a collection spare what is staged?  The control frame \<^verbatim>\<open>gc\<close> computes the refs of the
  staged plans (\<^verbatim>\<open>reachable_refs\<close> of \<^verbatim>\<open>seam.rs\<close>) and the sweep runs later, as a
  task of its own.  Here: as long as no staging task is at its plan while a sweep is pending, every pending
  sweep spares what is staged, and the original of every staged segment stays in the store, whatever else
  interleaves.
\<close>

section \<open>What is staged\<close>

fun pending_refs :: "Thread \<Rightarrow> RefId set" where
  "pending_refs (StageLoop _ _ _ plan) = dom (by_content plan)"
| "pending_refs (StageCommit _ plan _) = dom (by_content plan)"
| "pending_refs _ = {}"

text \<open>The refs of the plans of the registered sessions, and of the plans still being made.\<close>

definition staged_refs :: "'b config \<Rightarrow> RefId set" where
  "staged_refs cf = reachable_refs (cf_app cf) \<union> (\<Union>t \<in> set (cf_threads cf). pending_refs t)"

text \<open>A staging task that is making or committing its plan, and a step after which a sweep is not pending
  beside one.  What a sweep spares is not constrained.\<close>

fun stager :: "Thread \<Rightarrow> bool" where
  "stager (StageLoop _ _ _ _) = True"
| "stager (StageCommit _ _ _) = True"
| "stager _ = False"

fun sweeper :: "Thread \<Rightarrow> bool" where
  "sweeper (Collecting _) = True"
| "sweeper _ = False"

definition retaining_step :: "('v, 'b) proxy \<Rightarrow> 'b config \<Rightarrow> 'b config \<Rightarrow> bool" where
  "retaining_step P cf cf' = (sys_step P cf cf' \<and> \<not> (list_ex sweeper (cf_threads cf') \<and> list_ex stager (cf_threads cf')))"

definition plan_refs :: "nat \<Rightarrow> 'b AppState \<Rightarrow> RefId set" where
  "plan_refs a st = (case plan_of a st of None \<Rightarrow> {} | Some plan \<Rightarrow> dom (by_content plan))"

definition registered_cells :: "'b AppState \<Rightarrow> nat set" where
  "registered_cells st = {a. a \<notin> set (as_poisoned st) \<and> (\<exists>token ctx. (token, ctx) \<in> set (as_sessions st) \<and> ctx_econ ctx = Some a)}"

lemma reachable_refs_eq: "reachable_refs st = (\<Union>a \<in> registered_cells st. plan_refs a st)"
proof -
  have eq: "(case lock a st of None \<Rightarrow> {} | Some s \<Rightarrow> (case sx_staged s of None \<Rightarrow> {} | Some plan \<Rightarrow> dom (by_content plan))) =
      (if a \<in> set (as_poisoned st) then {} else plan_refs a st)" for a
    by (cases "as_cells st a") (simp_all add: lock_def plan_refs_def plan_of_def)
  have "reachable_refs st = (\<Union>(_, ctx) \<in> set (as_sessions st). case ctx_econ ctx of None \<Rightarrow> {}
      | Some a \<Rightarrow> if a \<in> set (as_poisoned st) then {} else plan_refs a st)"
    unfolding reachable_refs_def eq by (rule refl)
  also have "\<dots> = (\<Union>a \<in> registered_cells st. plan_refs a st)"
    by (fastforce simp: registered_cells_def split: option.splits if_splits)
  finally show ?thesis .
qed

lemma plan_refs_update:
  "(\<And>s. sx_staged (f s) = sx_staged s) \<Longrightarrow> plan_refs a (update_cell b f st) = plan_refs a st"
  by (simp add: plan_refs_def plan_of_update)

section \<open>Steps\<close>

lemma registered_cells_update [simp]: "registered_cells (update_cell a f st) = registered_cells st"
    "registered_cells (st\<lparr>as_store := rows\<rparr>) = registered_cells st" "plan_refs a (st\<lparr>as_store := rows\<rparr>) = plan_refs a st"
  by (simp_all add: registered_cells_def plan_refs_def)

lemma reachable_update:
  "(\<And>s. sx_staged (f s) = sx_staged s) \<Longrightarrow> reachable_refs (update_cell a f st) = reachable_refs st"
  by (simp add: reachable_refs_eq plan_refs_update)

lemma reachable_commit: "reachable_refs (update_cell a (commit plan w) st) \<subseteq> reachable_refs st \<union> dom (by_content plan)"
proof -
  have "plan_refs b (update_cell a (commit plan w) st) \<subseteq> plan_refs b st \<union> dom (by_content plan)" for b
    by (cases "as_cells st b") (auto simp: plan_refs_def plan_of_def update_cell_cells commit_def)
  then show ?thesis unfolding reachable_refs_eq by auto
qed

lemma reachable_take: "reachable_refs (update_cell a (\<lambda>_. s\<lparr>sx_staged := None\<rparr>) st) \<subseteq> reachable_refs st"
proof -
  have "plan_refs b (update_cell a (\<lambda>_. s\<lparr>sx_staged := None\<rparr>) st) \<subseteq> plan_refs b st" for b
    by (cases "as_cells st b") (auto simp: plan_refs_def plan_of_def update_cell_cells)
  then show ?thesis unfolding reachable_refs_eq by auto
qed

text \<open>A first request registers a new cell, which has no plan.\<close>

lemma reachable_setup:
  assumes "forward_setup F J now token headers body st = Some (a, sess, claimed, st')" "heap_ok st"
  shows "reachable_refs st' \<subseteq> reachable_refs st \<and> as_store st' = as_store st"
proof -
  obtain st1 where st1: "lazy_econ F J now token headers body st = Some (a, sess, st1)" "claim_staging a st1 = (claimed, st')"
    using assms by (auto simp: forward_setup_def Let_def split: prod.splits)
  have st': "registered_cells st' = registered_cells st1" "as_store st' = as_store st1"
    using claim_staging_eq[OF st1(2)] by auto
  have "registered_cells st1 \<subseteq> registered_cells st \<union> {as_next st} \<and> as_store st1 = as_store st"
  proof -
    obtain ctx where ctx: "session_ctx st token = Some ctx"
      "(a, sess, st1) = (case ctx_econ ctx of Some a \<Rightarrow> (a, ctx_session_id ctx, st)
         | None \<Rightarrow> (let (a, st') = init_econ F J now token ctx headers body st in (a, ctx_session_id ctx, st')))"
      using st1(1) by (auto simp: lazy_econ_def)
    show ?thesis
    proof (cases "ctx_econ ctx")
      case None
      then have "(a, st1) = init_econ F J now token ctx headers body st" using ctx(2) by (simp split: prod.splits)
      then show ?thesis by (auto simp: init_econ_def Let_def replace_ctx_def registered_cells_def)
    qed (use ctx(2) in auto)
  qed
  moreover have "plan_refs b st' = plan_refs b st" for b using plan_of_setup[OF assms, of b] by (simp add: plan_refs_def)
  moreover have "plan_refs (as_next st) st = {}"
  proof -
    have "as_cells st (as_next st) = None" using assms(2) by (auto simp: heap_ok_def)
    then show ?thesis by (simp add: plan_refs_def plan_of_def)
  qed
  ultimately show ?thesis unfolding reachable_refs_eq st' by auto
qed

lemma stage_segment_stored:
  assumes "hex_digest (lb_sha L)" "store_ok (lb_sha L) rows" "stage_segment L A clients job seg plan rows = Some (plan', rows')"
  shows "dom (by_content plan') \<subseteq> dom (by_content plan) \<union> dom (entry_of rows') \<and> dom (entry_of rows) \<subseteq> dom (entry_of rows')"
proof -
  let ?payload = "segment_payload_bytes seg (jb_body job)"
  have put: "rec_ref_id r = address (lb_sha L) ?payload \<and> dom (entry_of rows1) = insert (rec_ref_id r) (dom (entry_of rows))"
    if "put (lb_sha L) ?payload (source_uuid_of seg) (jb_session job) (kind seg) (jb_now job) rows = Some (Inr (r, rows1))" for r rows1
    using put_rows(2,3)[OF assms(2) that] content_address_hex[OF assms(1)] by (simp add: address_def)
  show ?thesis using assms(3) put
    by (auto simp: stage_segment_def stage_recode_def plan_insert_def Let_def
        split: option.splits Strategy.splits sum.splits if_splits prod.splits)
qed

lemma decide_refs:
  assumes "decide_step P orc inspect owner req bytes st = (st', ts, evs)" "heap_ok st"
  shows "reachable_refs st' \<subseteq> reachable_refs st \<and> as_store st' = as_store st \<and> (\<Union>t' \<in> set ts. pending_refs t') = {}"
proof -
  consider "st' = st" "\<forall>t' \<in> set ts. pending_refs t' = {}"
    | a where "st' = update_cell a close_window st" "\<forall>t' \<in> set ts. pending_refs t' = {}"
    | F J now token headers body a sess claimed where "forward_setup F J now token headers body st = Some (a, sess, claimed, st')"
        "\<forall>t' \<in> set ts. pending_refs t' = {}"
    using assms(1) by (auto simp: decide_step_def bind_eq_Some_conv split: Inspect.splits SynthDecision.splits if_splits option.splits)
  then show ?thesis
  proof cases
    case 3
    then show ?thesis using reachable_setup[OF 3(1) assms(2)] by simp
  qed (use reachable_update[of close_window _ st] in auto)
qed

lemma loop_refs:
  assumes "advance P orc (StageLoop a job segs plan) st = (st', ts, evs)"
    and "hex_digest (lb_sha (px_lib P))" "store_ok (lb_sha (px_lib P)) (as_store st)"
  shows "reachable_refs st' = reachable_refs st \<and> dom (entry_of (as_store st)) \<subseteq> dom (entry_of (as_store st')) \<and>
    (\<Union>t' \<in> set ts. pending_refs t') \<subseteq> dom (by_content plan) \<union> dom (entry_of (as_store st'))"
proof (cases segs)
  case (Cons seg rest)
  show ?thesis
  proof (cases "stage_segment (px_lib P) (px_agent P) (or_clients orc) job seg plan (as_store st)")
    case None
    then show ?thesis using assms(1) by (auto simp: Cons)
  next
    case (Some p)
    then have "st' = st\<lparr>as_store := snd p\<rparr>" "ts = [StageLoop a job rest (fst p)]"
      using assms(1) by (auto simp: Cons split: prod.splits)
    moreover have "dom (by_content (fst p)) \<subseteq> dom (by_content plan) \<union> dom (entry_of (snd p)) \<and>
        dom (entry_of (as_store st)) \<subseteq> dom (entry_of (snd p))"
      by (rule stage_segment_stored[OF assms(2,3)]) (use Some in simp)
    ultimately show ?thesis by (simp add: reachable_refs_eq)
  qed
qed (use assms(1) in auto)

text \<open>What a step of a thread leaves of the refs, and of the stored originals.\<close>

lemma advance_refs:
  assumes "advance P orc t st = (st', ts, evs)" "heap_ok st" "hex_digest (lb_sha (px_lib P))" "store_ok (lb_sha (px_lib P)) (as_store st)"
  shows "reachable_refs st' \<union> (\<Union>t' \<in> set ts. pending_refs t') \<subseteq>
      reachable_refs st \<union> pending_refs t \<union> dom (entry_of (as_store st'))"
    and "(\<And>R. t \<noteq> Collecting R) \<Longrightarrow> dom (entry_of (as_store st)) \<subseteq> dom (entry_of (as_store st'))"
    and "t = Collecting R \<Longrightarrow> dom (entry_of (as_store st)) \<inter> R \<subseteq> dom (entry_of (as_store st'))"
proof -
  have "reachable_refs st' \<union> (\<Union>t' \<in> set ts. pending_refs t') \<subseteq> reachable_refs st \<union> pending_refs t \<union> dom (entry_of (as_store st')) \<and>
    ((\<forall>R. t \<noteq> Collecting R) \<longrightarrow> dom (entry_of (as_store st)) \<subseteq> dom (entry_of (as_store st'))) \<and>
    (\<forall>R. t = Collecting R \<longrightarrow> dom (entry_of (as_store st)) \<inter> R \<subseteq> dom (entry_of (as_store st')))"
  proof (cases t)
    case (Arrived inspect req)
    then show ?thesis using assms(1) reachable_update[of close_window _ st]
      by (auto simp: kill_check_def Let_def split: prod.splits if_splits option.splits Inspect.splits)
  next
    case (Deciding inspect owner req bytes)
    then show ?thesis using decide_refs[OF assms(1)[unfolded Deciding advance.simps] assms(2)] by auto
  next
    case (Entering a sess claimed req bytes)
    have "reachable_refs (update_cell a (\<lambda>_. s') st) \<subseteq> reachable_refs st" if "intercept_inputs now s = Some (inputs, s')" for now s inputs s'
      using that reachable_take[of a s st] by (auto simp: intercept_inputs_def split: bool.splits option.splits)
    then show ?thesis using assms(1) by (fastforce simp: Entering bind_eq_Some_conv split: option.splits prod.splits)
  next
    case (Draining a usage)
    then show ?thesis using assms(1) reachable_update[of "observe _ _ _ _" a st] by (auto simp: task_ops split: option.splits)
  next
    case (StageStart a sess bytes)
    then show ?thesis using assms(1) by (auto simp: StagedPlan_default_def split: option.splits)
  next
    case (StageLoop a job segs plan)
    then show ?thesis using loop_refs[OF assms(1)[unfolded StageLoop] assms(3,4)] by auto
  next
    case (StageCommit a plan w)
    then show ?thesis using assms(1) reachable_commit[of a plan w st] by auto
  next
    case (Collecting R)
    show ?thesis
    proof (cases "gc R GRACE_SECONDS MAX_REFS_BYTES (or_now orc) (as_store st)")
      case (Some p)
      then have "st' = st\<lparr>as_store := snd p\<rparr>" "ts = []" using assms(1) by (auto simp: Collecting run_gc_def split: prod.splits)
      moreover have "dom (entry_of (as_store st)) \<inter> R \<subseteq> dom (entry_of (snd p))"
        using gc_rows(2)[OF assms(4), of R _ _ _ "fst p" "snd p"] Some by (auto simp: dom_def)
      ultimately show ?thesis by (auto simp: Collecting reachable_refs_eq)
    qed (use assms(1) Collecting in \<open>auto simp: run_gc_def\<close>)
  next
    case (Retrieving sess cell ref query)
    then show ?thesis using assms(1) tool_rows[OF _ assms(4)] by (auto simp: reachable_refs_eq split: prod.splits ToolCall.splits)
  qed (use assms(1) in \<open>auto simp: Let_def task_ops reachable_update split: option.splits list.splits prod.splits if_splits\<close>)
  then show "reachable_refs st' \<union> (\<Union>t' \<in> set ts. pending_refs t') \<subseteq> reachable_refs st \<union> pending_refs t \<union> dom (entry_of (as_store st'))"
    "(\<And>R. t \<noteq> Collecting R) \<Longrightarrow> dom (entry_of (as_store st)) \<subseteq> dom (entry_of (as_store st'))"
    "t = Collecting R \<Longrightarrow> dom (entry_of (as_store st)) \<inter> R \<subseteq> dom (entry_of (as_store st'))" by blast+
qed

text \<open>Only committing a plan adds to the staged refs of the sessions, and no thread starts a sweep.\<close>

lemma advance_reachable:
  assumes "advance P orc t st = (st', ts, evs)" "heap_ok st"
  shows "\<not> stager t \<Longrightarrow> reachable_refs st' \<subseteq> reachable_refs st" "\<not> list_ex sweeper ts"
proof -
  have "(\<not> stager t \<longrightarrow> reachable_refs st' \<subseteq> reachable_refs st) \<and> \<not> list_ex sweeper ts"
  proof (cases t)
    case (Arrived inspect req)
    then show ?thesis using assms(1) reachable_update[of close_window _ st]
      by (auto simp: kill_check_def Let_def split: prod.splits if_splits option.splits Inspect.splits)
  next
    case (Deciding inspect owner req bytes)
    have "\<not> list_ex sweeper ts" using assms(1)
      by (auto simp: Deciding decide_step_def split: Inspect.splits SynthDecision.splits if_splits option.splits)
    then show ?thesis using decide_refs[OF assms(1)[unfolded Deciding advance.simps] assms(2)] by simp
  next
    case (Entering a sess claimed req bytes)
    have "reachable_refs (update_cell a (\<lambda>_. s') st) \<subseteq> reachable_refs st" if "intercept_inputs now s = Some (inputs, s')" for now s inputs s'
      using that reachable_take[of a s st] by (auto simp: intercept_inputs_def split: bool.splits option.splits)
    then show ?thesis using assms(1) by (fastforce simp: Entering bind_eq_Some_conv split: option.splits prod.splits)
  next
    case (Draining a usage)
    then show ?thesis using assms(1) reachable_update[of "observe _ _ _ _" a st] by (auto simp: task_ops split: option.splits)
  qed (use assms(1) in \<open>auto simp: Let_def task_ops reachable_update reachable_refs_eq plan_refs_update split: option.splits list.splits prod.splits if_splits ToolCall.splits\<close>)
  then show "\<not> stager t \<Longrightarrow> reachable_refs st' \<subseteq> reachable_refs st" "\<not> list_ex sweeper ts" by blast+
qed

lemma control_refs: "apply_control parse line st = (outcome, st', reach) \<Longrightarrow> reachable_refs st' \<subseteq> reachable_refs st"
proof -
  assume c: "apply_control parse line st = (outcome, st', reach)"
  have "\<forall>(token, ctx) \<in> set (as_sessions st'). ctx_econ ctx = None \<or> (token, ctx) \<in> set (as_sessions st)"
    using c by (auto simp: apply_control_def replace_ctx_def split: option.splits Control.splits if_splits)
  then have "registered_cells st' \<subseteq> registered_cells st" using control_cells[OF c] by (fastforce simp: registered_cells_def)
  moreover have "plan_refs a st' = plan_refs a st" for a using control_cells[OF c] by (simp add: plan_refs_def plan_of_def)
  ultimately show ?thesis unfolding reachable_refs_eq by auto
qed

text \<open>A frame that asks for a sweep hands it the refs of the staged plans of that moment.\<close>

lemma control_sweep: "apply_control parse line st = (outcome, st', Some R) \<Longrightarrow> reachable_refs st' \<subseteq> R"
  by (auto simp: apply_control_def split: option.splits Control.splits if_splits)

text \<open>The invariant: every pending sweep spares what is staged, and no plan is being made beside it.\<close>

definition sweeps_spare :: "'b config \<Rightarrow> bool" where
  "sweeps_spare cf = (\<forall>R. Collecting R \<in> set (cf_threads cf) \<longrightarrow> reachable_refs (cf_app cf) \<subseteq> R \<and> \<not> list_ex stager (cf_threads cf))"

lemma staged_refs_idle: "\<not> list_ex stager (cf_threads cf) \<Longrightarrow> staged_refs cf = reachable_refs (cf_app cf)"
proof -
  assume idle: "\<not> list_ex stager (cf_threads cf)"
  have "pending_refs t = {}" if "t \<in> set (cf_threads cf)" for t using idle that by (cases t) (auto simp: list_ex_iff)
  then show ?thesis by (simp add: staged_refs_def)
qed

lemma sweeps_spare_step:
  assumes "retaining_step P cf cf'" "heap_ok (cf_app cf)" "sweeps_spare cf"
  shows "sweeps_spare cf'"
proof -
  have step: "sys_step P cf cf'" using assms(1) by (simp add: retaining_step_def)
  have "reachable_refs (cf_app cf') \<subseteq> R" if R: "Collecting R \<in> set (cf_threads cf')" for R
    using step
  proof cases
    case (thread i orc)
    obtain st ts evs where adv: "advance P orc (cf_threads cf ! i) (cf_app cf) = (st, ts, evs)" by (metis prod_cases3)
    have cf': "cf_app cf' = st" "cf_threads cf' = remove_nth i (cf_threads cf) @ ts" using adv thread by (simp_all add: run_thread_def)
    have "Collecting R \<notin> set ts" using advance_reachable(2)[OF adv assms(2)] by (auto simp: list_ex_iff)
    then have old: "Collecting R \<in> set (cf_threads cf)" using R set_remove_nth[of i "cf_threads cf"] by (auto simp: cf')
    then have "\<not> stager (cf_threads cf ! i)" using assms(3) thread(2) by (auto simp: sweeps_spare_def list_ex_iff)
    then show ?thesis using advance_reachable(1)[OF adv assms(2)] assms(3) old unfolding cf' sweeps_spare_def by blast
  next
    case (cancel i)
    then show ?thesis using R assms(3) set_remove_nth[of i "cf_threads cf"] by (auto simp: sweeps_spare_def)
  next
    case (control line outcome st reach)
    then show ?thesis using R assms(3) control_refs[OF control(2)] control_sweep[of "px_control P" line "cf_app cf" outcome st R]
      by (auto simp: sweeps_spare_def split: option.splits)
  qed (use R assms(3) in \<open>auto simp: sweeps_spare_def serve_mcp_def split: option.splits\<close>)
  moreover have "\<not> list_ex stager (cf_threads cf')" if "Collecting R \<in> set (cf_threads cf')" for R
    using assms(1) that by (force simp: retaining_step_def list_ex_iff)
  ultimately show ?thesis by (auto simp: sweeps_spare_def)
qed

definition retained :: "'b config \<Rightarrow> bool" where
  "retained cf = (staged_refs cf \<subseteq> dom (entry_of (as_store (cf_app cf))))"

lemma retained_step:
  assumes "sys_step P cf cf'" "hex_digest (lb_sha (px_lib P))" "config_ok P cf" "retained cf" "sweeps_spare cf"
  shows "retained cf'"
proof -
  have ok: "heap_ok (cf_app cf)" "store_ok (lb_sha (px_lib P)) (as_store (cf_app cf))" using assms(3) by (simp_all add: config_ok_def app_ok_def)
  show ?thesis
    using assms(1)
  proof cases
    case (thread i orc)
    obtain st ts evs where adv: "advance P orc (cf_threads cf ! i) (cf_app cf) = (st, ts, evs)" by (metis prod_cases3)
    note refs = advance_refs[OF adv ok(1) assms(2) ok(2)]
    have cf': "cf_app cf' = st" "cf_threads cf' = remove_nth i (cf_threads cf) @ ts" using adv thread by (simp_all add: run_thread_def)
    have "staged_refs cf' \<subseteq> staged_refs cf \<union> dom (entry_of (as_store st))"
    proof -
      have "(\<Union>t \<in> set (remove_nth i (cf_threads cf)). pending_refs t) \<subseteq> staged_refs cf" "pending_refs (cf_threads cf ! i) \<subseteq> staged_refs cf"
        using set_remove_nth[of i "cf_threads cf"] nth_mem[OF thread(2)] unfolding staged_refs_def by blast+
      moreover have "reachable_refs (cf_app cf) \<subseteq> staged_refs cf" by (simp add: staged_refs_def)
      ultimately show ?thesis using refs(1) unfolding staged_refs_def[of cf'] cf' set_append UN_Un by blast
    qed
    moreover have "staged_refs cf \<subseteq> dom (entry_of (as_store st))"
    proof (cases "\<exists>R. cf_threads cf ! i = Collecting R")
      case True
      then obtain R where R: "cf_threads cf ! i = Collecting R" ..
      moreover from this have "staged_refs cf \<subseteq> R"
        using assms(5) nth_mem[OF thread(2)] staged_refs_idle[of cf] by (auto simp: sweeps_spare_def)
      ultimately show ?thesis using refs(3)[OF R] assms(4) unfolding retained_def by blast
    qed (use refs(2) assms(4) in \<open>auto simp: retained_def\<close>)
    ultimately show ?thesis unfolding retained_def cf' by blast
  next
    case (cancel i)
    then show ?thesis using assms(4) set_remove_nth[of i "cf_threads cf"] by (simp add: retained_def staged_refs_def) blast
  next
    case (control line outcome st reach)
    have "(\<Union>t \<in> set (case reach of None \<Rightarrow> [] | Some r \<Rightarrow> [Collecting r]). pending_refs t) = {}" by (cases reach) simp_all
    then have "staged_refs cf' \<subseteq> staged_refs cf"
      unfolding control(1) staged_refs_def using control_refs[OF control(2)] by simp blast
    then show ?thesis using assms(4) control_cells[OF control(2)] control(1) by (simp add: retained_def)
  qed (use assms(4) in \<open>auto simp: retained_def staged_refs_def serve_mcp_def split: option.splits\<close>)
qed

lemma retained_steps:
  assumes "(retaining_step P)\<^sup>*\<^sup>* cf cf'" "hex_digest (lb_sha (px_lib P))" "config_ok P cf" "retained cf" "sweeps_spare cf"
  shows "config_ok P cf' \<and> retained cf' \<and> sweeps_spare cf'"
  using assms(1)
proof (induction rule: rtranclp_induct)
  case (step cf1 cf2)
  have "sys_step P cf1 cf2" using step(2) by (simp add: retaining_step_def)
  moreover have "heap_ok (cf_app cf1)" using step(3) by (simp add: config_ok_def)
  ultimately show ?case
    using step(3) config_ok_step[OF _ assms(2)] retained_step[OF _ assms(2)] sweeps_spare_step[OF step(2)] by blast
qed (use assms(3-5) in simp)

lemma retained_start: "retained (start_config up rows)" "sweeps_spare (start_config up rows)"
  by (simp_all add: retained_def staged_refs_def start_config_def AppState_new_def reachable_refs_def sweeps_spare_def)

section \<open>An example\<close>

text \<open>The example's first request staged: the tool pair of the request is put into the store.\<close>

lemma prepared: "prepare_job L bytes sess now (working, auth, knobs) = Some job \<Longrightarrow> jb_policy job = knobs \<and> jb_now job = now"
  by (auto simp: prepare_job_def bind_eq_Some_conv Let_def split: if_splits)

lemma pair_decision:
  assumes "jb_body job = lane_body lane_result" "jb_policy job = PolicyConfig_default"
  shows "choice (decide_segment demo_agent (\<lambda>_ _. demo_client) job lane_pair) = Compress"
proof -
  have "extract_json (lit ''ok {} done'') = Inr (lit ''{}'')"
    using extract_json_between[of "lit ''ok ''" "lit '' done''" "[]"] by (simp add: lit_def)
  moreover have "segment_payload_bytes lane_pair (lane_body lane_result) = utf8 (116 # lane_result)"
    by (simp add: segment_payload_bytes_def source_messages_def lane_pair_def lane_body_def message_id_def parse_usize_dec nth_opt_def)
  moreover have "from_utf8_lossy (utf8 (116 # lane_result)) = 116 # lane_result"
    by (rule from_utf8_lossy_utf8) (auto simp: lane_result_def scalar_value_def)
  moreover have "300 \<le> length (116 # lane_result)" by (simp add: lane_result_def)
  ultimately show ?thesis using assms
    by (simp add: decide_segment_def decide_content_def decision_query_def demo_client_reply demo_agent_def PolicyConfig_default_def
        PRE_GATE_MIN_CHARS_def normalize_def pre_gate_def Let_def)
qed

lemma pair_staged:
  assumes "jb_body job = lane_body lane_result" "jb_policy job = PolicyConfig_default" "not_null (jb_now job)"
    and "\<not> is_gated (jb_ledger job) (index lane_pair)"
  shows "\<exists>plan' rows'. stage_segment lane_lib demo_agent (\<lambda>_ _. demo_client) job lane_pair StagedPlan_default [] = Some (plan', rows') \<and>
    lane_key \<in> dom (by_content plan')"
proof -
  let ?payload = "segment_payload_bytes lane_pair (jb_body job)"
  have sha: "hex_digest (lb_sha lane_lib)" by (simp add: hex_digest_def lane_lib_def is_lower_hex_def list_all_iff)
  obtain r rows' where put: "put (lb_sha lane_lib) ?payload (source_uuid_of lane_pair) (jb_session job) (kind lane_pair) (jb_now job) []
      = Some (Inr (r, rows'))" "rec_ref_id r = address (lb_sha lane_lib) ?payload"
    using content_address_hex[OF sha] assms(3)
    by (auto simp: put_def Let_def address_def put_record_def insert_or_ignore_def row_of_def split: sum.splits)
  then have "rec_ref_id r = lane_key" by (simp add: lane_key_def assms(1))
  moreover have "\<exists>e. stage_segment lane_lib demo_agent (\<lambda>_ _. demo_client) job lane_pair StagedPlan_default [] =
      Some (plan_insert (rec_ref_id r) e StagedPlan_default, rows')"
  proof (cases "\<exists>p. proposal_for (jb_recodes job) (index lane_pair) = Some p \<and> prefers_recode p ?payload")
    case True
    then obtain p where p: "proposal_for (jb_recodes job) (index lane_pair) = Some p" "prefers_recode p ?payload" by blast
    then obtain c x where "pr_strategy p = SRecode c x" by (cases "pr_strategy p") (auto simp: prefers_recode_def)
    then show ?thesis using p put assms(4) by (auto simp: stage_segment_def stage_recode_def lane_key_def assms(1) Let_def)
  next
    case False
    then have "(case proposal_for (jb_recodes job) (index lane_pair) of
        Some p \<Rightarrow> if prefers_recode p ?payload then Some p else None | None \<Rightarrow> None) = None" by (simp split: option.splits)
    then show ?thesis using put assms(4) pair_decision[OF assms(1,2)] by (auto simp: stage_segment_def Let_def)
  qed
  ultimately show ?thesis by (auto simp: plan_insert_def)
qed

text \<open>The run up to the committed plan.\<close>

definition staging_choices :: choices where
  "staging_choices = demo_choices\<lparr>or_clients := (\<lambda>_ _. demo_client)\<rparr>"

lemma quiet_retaining: "sys_step P cf cf' \<Longrightarrow> quiet cf' \<Longrightarrow> retaining_step P cf cf'"
  by (auto simp: retaining_step_def quiet_def list_ex_iff list_all_iff elim!: sweeper.elims)

text \<open>The plan is committed, a \<^verbatim>\<open>gc\<close> frame arrives, and its sweep is about to run.\<close>

lemma demo_staged:
  "\<exists>cf cf' R. (retaining_step demo_proxy)\<^sup>*\<^sup>* (start_config [] []) cf \<and> cf_threads cf ! 2 = Collecting R \<and> lane_key \<in> R \<and>
     retaining_step demo_proxy cf cf' \<and> cf' = run_thread demo_proxy staging_choices 2 cf \<and> length (cf_threads cf') < length (cf_threads cf) \<and>
     lane_key \<in> reachable_refs (cf_app cf')"
proof -
  let ?s = "stash_egress_snapshot lane_serde [0] (demo_cell\<lparr>sx_staging := True\<rparr>)"
  let ?log = "[Forwarded (Some 0) (demo_req 0) [0], Relayed (demo_req 0) demo_reply]"
  let ?st = "demo_app (Some 0) [0 \<mapsto> ?s]"
  let ?cf = "\<lambda>st t. \<lparr>cf_app = st, cf_threads = [Draining 0 None] @ [t], cf_log = ?log, cf_seam = True, cf_open = True\<rparr> :: nat config"
  have p: "px_lib demo_proxy = lane_lib" "px_agent demo_proxy = demo_agent" "lb_serde lane_lib = lane_serde"
    "or_clients staging_choices = (\<lambda>_ _. demo_client)" "or_now staging_choices = Fin 0" "not_null (Fin 0)"
    by (simp_all add: demo_proxy_def lane_lib_def staging_choices_def demo_choices_def not_null_def)
  have sx: "sx_policy ?s = PolicyConfig_default" "sx_working ?s = WorkingState_default"
    by (simp_all add: stash_egress_snapshot_def lane_parse demo_cell_def SessionEcon_new_def policy_config_def PolicyKnobs_default_def)
  have "approx_chars lane_tail = 0" by (simp add: approx_chars_def lane_tail_def) code_simp
  then have "\<not> is_huge_human_paste lane_tail PolicyConfig_default" by (simp add: is_huge_human_paste_def)
  then have cand: "is_squash_candidate lane_pair (sx_working ?s) (sx_policy ?s)" "\<not> is_squash_candidate lane_tail (sx_working ?s) (sx_policy ?s)"
    by (simp_all add: sx is_squash_candidate_def is_pinned_def lane_pair_def lane_tail_def carries_live_constraint_def WorkingState_default_def)
  have "\<exists>seg \<in> set (segment_prompt lane_serde (lane_body lane_result)). is_squash_candidate seg (sx_working ?s) (sx_policy ?s)"
    using cand(1) by (simp add: lane_segments)
  then obtain job where j: "prepare_job lane_lib [0] S0 (Fin 0) (clone_inputs ?s) = Some job"
    "parse_body (lb_serde lane_lib) [0] = Some (jb_body job)" "jb_segments job = segment_prompt (lb_serde lane_lib) (jb_body job)"
    "\<forall>seg \<in> set (jb_segments job). is_gated (jb_ledger job) (index seg) = (\<not> is_squash_candidate seg (sx_working ?s) (sx_policy ?s))"
    using prepare_job_result[of lane_lib "[0]" S0 "Fin 0" ?s] lane_parse(1) unfolding p(3) by blast
  have "jb_body job = lane_body lane_result" using j(2) lane_parse(1) unfolding p(3) by simp
  moreover from this have "jb_segments job = [lane_pair, lane_tail]" using j(3) lane_segments unfolding p(3) by simp
  ultimately have job: "jb_body job = lane_body lane_result" "jb_segments job = [lane_pair, lane_tail]"
    "\<not> is_gated (jb_ledger job) (index lane_pair)" "is_gated (jb_ledger job) (index lane_tail)" using j(4) cand by simp_all
  have jb: "jb_policy job = PolicyConfig_default" "not_null (jb_now job)"
    using prepared[of lane_lib "[0]" S0 "Fin 0" _ _ _ job] j(1) p(6) sx by (auto simp: clone_inputs_def)
  obtain plan rows where plan: "stage_segment lane_lib demo_agent (\<lambda>_ _. demo_client) job lane_pair StagedPlan_default [] = Some (plan, rows)"
    "lane_key \<in> dom (by_content plan)" using pair_staged[OF job(1) jb job(3)] by blast
  let ?st' = "?st\<lparr>as_store := rows\<rparr>" and ?w = "fold_job demo_agent (\<lambda>_ _. demo_client) job"
  have step: "retaining_step demo_proxy (?cf st t) (?cf st' t')"
    if "advance demo_proxy staging_choices t st = (st', [t'], [])" "\<not> sweeper t'" for st t st' t'
    using thread_step[OF that(1), of "[Draining 0 None]" "[]" ?log] that(2) by (auto simp: retaining_step_def)
  have s1: "retaining_step demo_proxy (?cf ?st (StageStart 0 S0 [0])) (?cf ?st (StageLoop 0 job [lane_pair, lane_tail] StagedPlan_default))"
    by (rule step) (use j(1) in \<open>simp_all add: p demo_lock job(2)\<close>)
  have s2: "retaining_step demo_proxy (?cf ?st (StageLoop 0 job [lane_pair, lane_tail] StagedPlan_default)) (?cf ?st' (StageLoop 0 job [lane_tail] plan))"
    by (rule step) (use plan(1) in \<open>simp_all add: p demo_app_def\<close>)
  have s3: "retaining_step demo_proxy (?cf ?st' (StageLoop 0 job [lane_tail] plan)) (?cf ?st' (StageLoop 0 job [] plan))"
    by (rule step) (use job(4) in \<open>simp_all add: p stage_segment_def\<close>)
  have s4: "retaining_step demo_proxy (?cf ?st' (StageLoop 0 job [] plan)) (?cf ?st' (StageCommit 0 plan ?w))"
    by (rule step) (simp_all add: p)
  have s5: "retaining_step demo_proxy (?cf ?st' (StageCommit 0 plan ?w)) (?cf (update_cell 0 (commit plan ?w) ?st') (Releasing 0))"
    by (rule step) simp_all
  let ?st2 = "update_cell 0 (commit plan ?w) ?st'"
  let ?idle = "?cf ?st2 (Releasing 0)" and ?R = "reachable_refs ?st2"
  let ?swept = "?idle\<lparr>cf_threads := [Draining 0 None, Releasing 0, Collecting ?R]\<rparr>"
  have run: "(retaining_step demo_proxy)\<^sup>*\<^sup>* (?cf ?st (StageStart 0 S0 [0])) ?idle"
    using s1 s2 s3 s4 s5 by (meson converse_rtranclp_into_rtranclp rtranclp.rtrancl_refl)
  have key: "lane_key \<in> ?R"
    using plan(2) by (simp add: reachable_refs_def lock_def update_cell_def demo_app_def commit_def)
  have "apply_control (px_control demo_proxy) [1] (cf_app ?idle) = (GoOn, ?st2, Some ?R)"
    by (simp add: apply_control_def demo_proxy_def PROTOCOL_VERSION_def)
  from sys_step.control[OF this] have gc_frame: "retaining_step demo_proxy ?idle ?swept" by (simp add: retaining_step_def)
  have start: "(retaining_step demo_proxy)\<^sup>*\<^sup>* (start_config [] []) (?cf ?st (StageStart 0 S0 [0]))"
    using demo_first_request[OF quiet_retaining demo_models(1)] by (simp add: demo_config_def)
  have before: "(retaining_step demo_proxy)\<^sup>*\<^sup>* (start_config [] []) ?swept"
    using rtranclp_trans[OF start run] gc_frame by (rule rtranclp.rtrancl_into_rtrancl)
  have after: "run_thread demo_proxy staging_choices 2 ?swept = ?idle\<lparr>cf_app := run_gc ?R (Fin 0) ?st2\<rparr>"
    by (simp add: run_thread_def remove_nth_def p)
  have "sys_step demo_proxy ?swept (run_thread demo_proxy staging_choices 2 ?swept)" by (rule sys_step.thread) simp
  then have "retaining_step demo_proxy ?swept (run_thread demo_proxy staging_choices 2 ?swept)"
    unfolding retaining_step_def after by (intro conjI) (assumption, simp)
  moreover have "reachable_refs (run_gc ?R (Fin 0) ?st2) = ?R" by (simp add: run_gc_def reachable_refs_eq split: option.splits)
  ultimately show ?thesis using before key after
    by (intro exI[of _ ?swept] exI[of _ "run_thread demo_proxy staging_choices 2 ?swept"] exI[of _ ?R]) simp
qed

section \<open>Properties\<close>

text \<open>C7: what is staged can always be fetched back.  From a fresh start over a well-formed store, however
  requests, drains, staging, control frames, retrievals and sweeps interleave, as long as no staging task is
  making or committing its plan while a sweep is pending, each ref of a registered session's plan names
  stored bytes with that address, and materializing it gives their text; and every pending sweep was given
  every such ref to spare.\<close>

theorem staged_originals_are_retained:
  assumes "hex_digest (lb_sha (px_lib P))" "store_ok (lb_sha (px_lib P)) rows"
    and "(retaining_step P)\<^sup>*\<^sup>* (start_config up rows) cf"
    and "k \<in> reachable_refs (cf_app cf)" "not_null now"
  shows "(\<forall>R. Collecting R \<in> set (cf_threads cf) \<longrightarrow> k \<in> R) \<and> (\<exists>original mat rows'. entry_of (as_store (cf_app cf)) k = Some original \<and>
    content_address (lb_sha (px_lib P)) original = Some k \<and>
    materialize k now (as_store (cf_app cf)) = Inr (Some mat, rows') \<and> mat_text mat = from_utf8_lossy original)"
proof -
  have ok: "config_ok P cf" "retained cf" "sweeps_spare cf"
    using retained_steps[OF assms(3,1) config_ok_start[OF assms(2)] retained_start] by simp_all
  then have "k \<in> dom (entry_of (as_store (cf_app cf)))" using assms(4) by (auto simp: retained_def staged_refs_def)
  moreover have "store_ok (lb_sha (px_lib P)) (as_store (cf_app cf))" using ok(1) by (simp add: config_ok_def app_ok_def)
  ultimately obtain original where "entry_of (as_store (cf_app cf)) k = Some original"
    "content_address (lb_sha (px_lib P)) original = Some k" using stored_address by blast
  moreover have "\<forall>R. Collecting R \<in> set (cf_threads cf) \<longrightarrow> k \<in> R" using ok(3) assms(4) by (auto simp: sweeps_spare_def)
  ultimately show ?thesis using materialize_entry[OF _ assms(5)] by metis
qed

theorem staged_originals_are_retained_witness:
  "\<exists>cf cf' R original. (retaining_step demo_proxy)\<^sup>*\<^sup>* (start_config [] []) cf \<and> cf_threads cf ! 2 = Collecting R \<and>
     retaining_step demo_proxy cf cf' \<and> cf' = run_thread demo_proxy staging_choices 2 cf \<and> length (cf_threads cf') < length (cf_threads cf) \<and>
     lane_key \<in> reachable_refs (cf_app cf') \<and> entry_of (as_store (cf_app cf')) lane_key = Some original \<and>
     content_address (lb_sha lane_lib) original = Some lane_key"
proof -
  obtain cf cf' R where cf: "(retaining_step demo_proxy)\<^sup>*\<^sup>* (start_config [] []) cf" "cf_threads cf ! 2 = Collecting R"
    "retaining_step demo_proxy cf cf'" "cf' = run_thread demo_proxy staging_choices 2 cf" "length (cf_threads cf') < length (cf_threads cf)"
    "lane_key \<in> reachable_refs (cf_app cf')"
    using demo_staged by blast
  have run: "(retaining_step demo_proxy)\<^sup>*\<^sup>* (start_config [] []) cf'" using cf(1,3) by (rule rtranclp.rtrancl_into_rtrancl)
  have "hex_digest (lb_sha (px_lib demo_proxy))" "store_ok (lb_sha (px_lib demo_proxy)) []" "px_lib demo_proxy = lane_lib"
    by (simp_all add: hex_digest_def demo_proxy_def lane_lib_def is_lower_hex_def list_all_iff store_ok_def)
  then obtain original where "entry_of (as_store (cf_app cf')) lane_key = Some original" "content_address (lb_sha lane_lib) original = Some lane_key"
    using staged_originals_are_retained[OF _ _ run cf(6) fl_0_not_null] by metis
  then show ?thesis using cf by blast
qed

end
