(* ===== verification/Passthrough.thy ===== *)
theory Passthrough
  imports Turns
begin

text \<open>
  Where does what leaves the proxy come from?  Over whole runs of the system: every request that goes
  upstream is one that arrived and that the router (\<^verbatim>\<open>app.rs\<close>, \<^verbatim>\<open>demux.rs\<close>) handed on, with its own
  method, headers and body; only the body of an inspected turn of a session may be another one, and then it
  passed the gate.
\<close>

section \<open>The router\<close>

text \<open>Between two states of a run a request arrived, and the router handed it on.\<close>

definition arrived :: "('v, 'b) proxy \<Rightarrow> 'b config \<Rightarrow> 'b config \<Rightarrow> HttpReq \<Rightarrow> Inspect \<Rightarrow> HttpReq \<Rightarrow> bool" where
  "arrived P cf0 cf req inspect req' = (\<exists>cf1. (sys_step P)\<^sup>*\<^sup>* cf0 cf1 \<and>
     router (px_decode P) (px_uri P) (cf_app cf1) req = Handled inspect req' \<and>
     (sys_step P)\<^sup>*\<^sup>* (cf1\<lparr>cf_threads := cf_threads cf1 @ [Arrived inspect req']\<rparr>) cf)"

lemma arrived_step: "arrived P cf0 cf req inspect req' \<Longrightarrow> sys_step P cf cf' \<Longrightarrow> arrived P cf0 cf' req inspect req'"
  unfolding arrived_def by (blast intro: rtranclp.rtrancl_into_rtrancl)

lemma session_route_keeps:
  assumes "session_route parse_uri st rest req = (inspect, req')"
  shows "req' = req\<lparr>rq_uri := rq_uri req'\<rparr>" "inspect \<noteq> InspectNo \<longrightarrow> rq_method req = lit ''POST''"
  using assms by (auto simp: session_route_def strip_session_prefix_def inspect_for_def split: option.splits prod.splits if_splits)

lemma router_keeps:
  assumes "router decode parse_uri st req = Handled inspect req'"
  shows "req' = req\<lparr>rq_uri := rq_uri req'\<rparr>" "inspect \<noteq> InspectNo \<longrightarrow> rq_method req = lit ''POST''"
  using assms session_route_keeps[of parse_uri st _ req inspect req']
  by (auto simp: router_def Let_def split: option.splits list.splits prod.splits if_splits)

lemma router_session:
  "request_path (rq_uri req) = lit ''/s/'' @ c # rest \<Longrightarrow> router decode parse_uri st req = (case decode (c # rest) of
     None \<Rightarrow> Refused 400
   | Some rest' \<Rightarrow> Handled (fst (session_route parse_uri st rest' req)) (snd (session_route parse_uri st rest' req)))"
  by (simp add: router_def lit_def split: option.splits prod.splits)

lemma router_elsewhere:
  assumes "\<nexists>c rest. request_path (rq_uri req) = lit ''/s/'' @ c # rest"
  shows "router decode parse_uri st req =
    (if request_path (rq_uri req) = lit ''/v1/messages''
     then (if rq_method req = lit ''POST'' then Handled (InspectYes None) req else Refused 405) else Handled InspectNo req)"
  using assms by (auto simp: router_def Let_def strip_prefix_Some_iff split: option.splits list.splits)

definition refused_with :: "('v, 'b) proxy \<Rightarrow> HttpReq \<Rightarrow> nat \<Rightarrow> bool" where
  "refused_with P req status = (status = 405 \<and> request_path (rq_uri req) = lit ''/v1/messages'' \<and> rq_method req \<noteq> lit ''POST'' \<or>
     status = 400 \<and> (\<exists>c rest. request_path (rq_uri req) = lit ''/s/'' @ c # rest \<and> px_decode P (c # rest) = None))"

lemma router_refuses: "router (px_decode P) parse_uri st req = Refused status \<longleftrightarrow> refused_with P req status"
proof (cases "\<exists>c rest. request_path (rq_uri req) = lit ''/s/'' @ c # rest")
  case True
  then obtain c rest where path: "request_path (rq_uri req) = lit ''/s/'' @ c # rest" by blast
  then have "request_path (rq_uri req) \<noteq> lit ''/v1/messages''" by (simp add: lit_def)
  then show ?thesis using path by (auto simp: router_session[OF path] refused_with_def split: option.splits)
next
  case False
  then show ?thesis by (auto simp: router_elsewhere[OF False] refused_with_def)
qed

lemma arrived_keeps:
  fixes cf0 :: "'b config"
  assumes "arrived P cf0 cf req inspect req'"
  shows "rq_method req' = rq_method req" "rq_headers req' = rq_headers req" "rq_body req' = rq_body req"
    "inspect \<noteq> InspectNo \<longrightarrow> rq_method req = lit ''POST''"
proof -
  obtain cf1 :: "'b config" where "router (px_decode P) (px_uri P) (cf_app cf1) req = Handled inspect req'"
    using assms unfolding arrived_def by blast
  note keeps = router_keeps[OF this]
  show "rq_method req' = rq_method req" "rq_headers req' = rq_headers req" "rq_body req' = rq_body req"
    by (subst keeps(1), simp)+
  show "inspect \<noteq> InspectNo \<longrightarrow> rq_method req = lit ''POST''" by (rule keeps(2))
qed

section \<open>Where threads and events come from\<close>

text \<open>The body that may go out for a request: its own, or one the interceptor made of it and the gate let through.\<close>

definition egress_ok :: "('v, 'b) proxy \<Rightarrow> nat list \<Rightarrow> nat list \<Rightarrow> bool" where
  "egress_ok P bytes egress = (egress = bytes \<or> (\<exists>body. parse_body (lb_serde (px_lib P)) bytes = Some body \<and>
     validate (lb_serde (px_lib P)) egress body = Inr ()))"

lemma egress_ok_same [simp]: "egress_ok P bytes bytes"
  by (simp add: egress_ok_def)

lemma egress_ok_run [simp]: "egress_ok P bytes (ic_bytes (run_l2 (px_lib P) timing bytes inputs))"
  using run_l2_outcome[of "px_lib P" timing bytes inputs]
  by (auto simp: egress_ok_def identity_def spliced_ok_def Let_def)

text \<open>A turn of a session that the proxy inspects and forwards; \<open>A\<close> says which requests arrived.\<close>

definition inspected :: "('v, 'b) proxy \<Rightarrow> (Inspect \<Rightarrow> HttpReq \<Rightarrow> bool) \<Rightarrow> HttpReq \<Rightarrow> nat list \<Rightarrow> bool" where
  "inspected P A req bytes = ((\<exists>token. A (InspectYes (Some token)) req) \<and> to_bytes req = Some bytes \<and>
     decide_request (px_values P) bytes = Forward)"

definition passed :: "(Inspect \<Rightarrow> HttpReq \<Rightarrow> bool) \<Rightarrow> HttpReq \<Rightarrow> nat list \<Rightarrow> bool" where
  "passed A req bytes = ((\<exists>inspect. A inspect req) \<and> to_bytes req = Some bytes)"

fun thread_origin :: "('v, 'b) proxy \<Rightarrow> (Inspect \<Rightarrow> HttpReq \<Rightarrow> bool) \<Rightarrow> Thread \<Rightarrow> bool" where
  "thread_origin P A (Arrived inspect req) = A inspect req"
| "thread_origin P A (Deciding inspect _ req bytes) = (passed A req bytes \<and> (inspect = InspectNo \<or> A inspect req))"
| "thread_origin P A (Entering _ _ _ req bytes) = inspected P A req bytes"
| "thread_origin P A (Intercepting _ _ _ req bytes _) = inspected P A req bytes"
| "thread_origin P A (Committing _ _ _ req bytes res) = (inspected P A req bytes \<and> egress_ok P bytes (ic_bytes res))"
| "thread_origin P A (Stashing _ _ _ req bytes egress) = (inspected P A req bytes \<and> egress_ok P bytes egress)"
| "thread_origin P A (Sending _ _ _ req bytes egress) = (inspected P A req bytes \<and> egress_ok P bytes egress)"
| "thread_origin P A (Awaiting _ _ _ req bytes) = inspected P A req bytes"
| "thread_origin P A (Passing _ req bytes) = passed A req bytes"
| "thread_origin P A (Relaying req) = (\<exists>inspect. A inspect req)"
| "thread_origin P A _ = True"

fun event_origin :: "('v, 'b) proxy \<Rightarrow> (Inspect \<Rightarrow> HttpReq \<Rightarrow> bool) \<Rightarrow> Event \<Rightarrow> bool" where
  "event_origin P A (Forwarded owner head egress) = (\<exists>req bytes. head = upstream_head req \<and>
     (passed A req bytes \<and> egress = bytes \<or> inspected P A req bytes \<and> owner \<noteq> None \<and> egress_ok P bytes egress))"
| "event_origin P A (Answered req rsp) = (\<exists>token bytes inputs. A (InspectYes token) req \<and> to_bytes req = Some bytes \<and>
     decide_request (px_values P) bytes = Synthesize inputs)"
| "event_origin P A (Relayed req _) = (\<exists>inspect. A inspect req)"
| "event_origin P A (BadGateway req) = (\<exists>inspect. A inspect req)"
| "event_origin P A (Rejected req status) = refused_with P req status"
| "event_origin P A _ = True"

lemma thread_origin_mono: "thread_origin P A t \<Longrightarrow> (\<And>i r. A i r \<Longrightarrow> A' i r) \<Longrightarrow> thread_origin P A' t"
  by (cases t) (auto simp: inspected_def passed_def)

lemma event_origin_mono: "event_origin P A e \<Longrightarrow> (\<And>i r. A i r \<Longrightarrow> A' i r) \<Longrightarrow> event_origin P A' e"
  by (cases e) (auto simp: inspected_def passed_def, blast+)

lemma respond_origin: "A inspect req \<Longrightarrow> event_origin P A (respond req response)"
  by (auto simp: respond_def split: option.splits)

lemma kill_check_inspect: "kill_check inspect st = (inspect', owner, st') \<Longrightarrow> inspect' = InspectNo \<or> inspect' = inspect"
  by (auto simp: kill_check_def split: if_splits Inspect.splits option.splits)

lemma decide_origin:
  assumes "decide_step P orc inspect owner req bytes st = (st', ts, evs)" "thread_origin P A (Deciding inspect owner req bytes)"
  shows "list_all (thread_origin P A) ts \<and> list_all (event_origin P A) evs"
proof -
  consider (pass) o' where "ts = [Passing o' req bytes]" "evs = []"
    | (answer) token inputs rsp where "inspect = InspectYes token" "decide_request (px_values P) bytes = Synthesize inputs" "ts = []" "evs = [Answered req rsp]"
    | (made) token a sess claimed where "inspect = InspectYes (Some token)" "decide_request (px_values P) bytes = Forward"
        "ts = [Entering a sess claimed req bytes]" "evs = []"
    using assms(1) by (auto simp: decide_step_def bind_eq_Some_conv split: Inspect.splits SynthDecision.splits if_splits option.splits)
  then show ?thesis using assms(2) by cases (auto simp: passed_def inspected_def)
qed

lemma advance_origin:
  assumes "advance P orc t st = (st', ts, evs)" "thread_origin P A t"
  shows "list_all (thread_origin P A) ts \<and> list_all (event_origin P A) evs"
proof (cases t)
  case (Arrived inspect req)
  then show ?thesis using assms kill_check_inspect
    by (fastforce simp: passed_def Let_def split: prod.splits option.splits)
next
  case (Deciding inspect owner req bytes)
  then show ?thesis using assms decide_origin by simp
next
  case (Awaiting a sess claimed req bytes)
  then show ?thesis using assms respond_origin by (auto simp: inspected_def split: prod.splits)
next
  case (Relaying req)
  then show ?thesis using assms respond_origin by auto
next
  case (Sending a sess claimed req bytes egress)
  then have "event_origin P A (Forwarded (Some a) (upstream_head req) egress)" using assms(2) by (simp, blast)
  moreover have "ts = [Awaiting a sess claimed req bytes]" "evs = [Forwarded (Some a) (upstream_head req) egress]"
    using assms(1) by (simp_all add: Sending)
  ultimately show ?thesis using assms(2) by (simp add: Sending del: event_origin.simps)
next
  case (Passing owner req bytes)
  then have "event_origin P A (Forwarded owner (upstream_head req) bytes)" using assms(2) by (simp, blast)
  moreover have "ts = [Relaying req]" "evs = [Forwarded owner (upstream_head req) bytes]" using assms(1) by (simp_all add: Passing)
  ultimately show ?thesis using assms(2) by (auto simp: Passing passed_def simp del: event_origin.simps)
qed (use assms in \<open>auto simp: Let_def split: option.splits prod.splits list.splits ToolCall.splits\<close>)

definition came :: "('v, 'b) proxy \<Rightarrow> 'b config \<Rightarrow> 'b config \<Rightarrow> Inspect \<Rightarrow> HttpReq \<Rightarrow> bool" where
  "came P cf0 cf inspect req' = (\<exists>req. arrived P cf0 cf req inspect req')"

definition origins :: "('v, 'b) proxy \<Rightarrow> 'b config \<Rightarrow> 'b config \<Rightarrow> bool" where
  "origins P cf0 cf = ((\<forall>t \<in> set (cf_threads cf). thread_origin P (came P cf0 cf) t) \<and>
     (\<forall>e \<in> set (cf_log cf). event_origin P (came P cf0 cf) e))"

lemma origins_step:
  assumes "sys_step P cf cf'" "origins P cf0 cf" "(sys_step P)\<^sup>*\<^sup>* cf0 cf"
  shows "origins P cf0 cf'"
proof -
  have mono: "came P cf0 cf' inspect req'" if "came P cf0 cf inspect req'" for inspect req'
    using that arrived_step[OF _ assms(1)] unfolding came_def by blast
  have old: "thread_origin P (came P cf0 cf') t" if "t \<in> set (cf_threads cf)" for t
    by (rule thread_origin_mono[OF _ mono]) (use assms(2) that in \<open>simp_all add: origins_def\<close>)
  have log: "event_origin P (came P cf0 cf') e" if "e \<in> set (cf_log cf)" for e
    by (rule event_origin_mono[OF _ mono]) (use assms(2) that in \<open>simp_all add: origins_def\<close>)
  show ?thesis
    using assms(1)
  proof cases
    case (arrive req inspect req')
    have "came P cf0 cf' inspect req'"
      unfolding came_def arrived_def arrive(1) using assms(3) arrive(2) by blast
    then show ?thesis using old log unfolding origins_def list_all_iff by (auto simp: arrive(1))
  next
    case (refuse req status)
    have "event_origin P (came P cf0 cf') (Rejected req status)" using refuse(2) by (simp add: router_refuses)
    then show ?thesis using old log unfolding origins_def list_all_iff by (auto simp: refuse(1))
  next
    case (thread i orc)
    obtain st ts evs where adv: "advance P orc (cf_threads cf ! i) (cf_app cf) = (st, ts, evs)" by (metis prod_cases3)
    have "list_all (thread_origin P (came P cf0 cf')) ts \<and> list_all (event_origin P (came P cf0 cf')) evs"
      using advance_origin[OF adv old] thread(2) by simp
    moreover have "cf_threads cf' = remove_nth i (cf_threads cf) @ ts" "cf_log cf' = cf_log cf @ evs"
      using adv thread by (simp_all add: run_thread_def)
    ultimately show ?thesis using old log set_remove_nth[of i "cf_threads cf"] unfolding origins_def list_all_iff by auto
  next
    case (cancel i)
    then show ?thesis using old log set_remove_nth[of i "cf_threads cf"] unfolding origins_def list_all_iff by auto
  next
    case (control line outcome st reach)
    then show ?thesis using old log unfolding origins_def list_all_iff by (auto split: option.splits)
  next
    case (retrieve token ref query ts evs)
    then show ?thesis using old log unfolding origins_def list_all_iff by (auto simp: serve_mcp_def split: option.splits)
  qed (use old log in \<open>auto simp: origins_def\<close>)
qed

lemma origins_steps: "(sys_step P)\<^sup>*\<^sup>* cf0 cf \<Longrightarrow> origins P cf0 cf0 \<Longrightarrow> origins P cf0 cf"
  by (induction rule: rtranclp_induct) (auto intro: origins_step)

lemma origins_start: "origins P (start_config up rows) (start_config up rows)"
  by (simp add: origins_def start_config_def)

section \<open>Properties\<close>

text \<open>C8: what leaves the proxy is what arrived.  However requests, disconnects, tasks and control frames
  interleave, every request forwarded upstream is one that arrived and that the router handed on: it has
  its method, its headers less the hop-by-hop ones, and its body, or, for a turn posted to a registered
  session that asks for no compaction, a body that passed the gate against it.  A reply is synthesized
  only for a posted compaction request.  In every state the router refuses exactly two kinds of request,
  another method than POST on the messages path, with 405, and a non-empty session path that does not decode,
  with 400; it hands a POST on the messages path on for inspection and any path that is neither that nor a
  session's unchanged and uninspected; and no other request is ever rejected by it.\<close>

theorem proxy_forwards_what_arrived:
  assumes "(sys_step P)\<^sup>*\<^sup>* (start_config up rows) cf"
  shows "(\<forall>owner head egress. Forwarded owner head egress \<in> set (cf_log cf) \<longrightarrow>
      (\<exists>req inspect req' bytes. arrived P (start_config up rows) cf req inspect req' \<and> rq_uri head = rq_uri req' \<and>
         rq_method head = rq_method req \<and> rq_headers head = sanitize (rq_headers req) \<and>
         rq_body req = Some bytes \<and> length bytes \<le> MAX_BODY \<and>
         (egress = bytes \<or> owner \<noteq> None \<and> (\<exists>token. inspect = InspectYes (Some token)) \<and> rq_method req = lit ''POST'' \<and>
            decide_request (px_values P) bytes = Forward \<and>
            (\<exists>body. parse_body (lb_serde (px_lib P)) bytes = Some body \<and> validate (lb_serde (px_lib P)) egress body = Inr ())))) \<and>
    (\<forall>req' rsp. Answered req' rsp \<in> set (cf_log cf) \<longrightarrow>
      (\<exists>req token bytes inputs. arrived P (start_config up rows) cf req (InspectYes token) req' \<and> rq_method req = lit ''POST'' \<and>
         rq_body req = Some bytes \<and> decide_request (px_values P) bytes = Synthesize inputs)) \<and>
    (\<forall>req status. Rejected req status \<in> set (cf_log cf) \<longrightarrow>
      status = 405 \<and> request_path (rq_uri req) = lit ''/v1/messages'' \<and> rq_method req \<noteq> lit ''POST'' \<or>
      status = 400 \<and> (\<exists>c rest. request_path (rq_uri req) = lit ''/s/'' @ c # rest \<and> px_decode P (c # rest) = None)) \<and>
    (\<forall>req status. router (px_decode P) (px_uri P) (cf_app cf) req = Refused status \<longleftrightarrow>
      status = 405 \<and> request_path (rq_uri req) = lit ''/v1/messages'' \<and> rq_method req \<noteq> lit ''POST'' \<or>
      status = 400 \<and> (\<exists>c rest. request_path (rq_uri req) = lit ''/s/'' @ c # rest \<and> px_decode P (c # rest) = None)) \<and>
    (\<forall>req. (\<nexists>c rest. request_path (rq_uri req) = lit ''/s/'' @ c # rest) \<longrightarrow>
      (request_path (rq_uri req) = lit ''/v1/messages'' \<longrightarrow> rq_method req = lit ''POST'' \<longrightarrow>
         router (px_decode P) (px_uri P) (cf_app cf) req = Handled (InspectYes None) req) \<and>
      (request_path (rq_uri req) \<noteq> lit ''/v1/messages'' \<longrightarrow>
         router (px_decode P) (px_uri P) (cf_app cf) req = Handled InspectNo req))"
proof (intro conjI allI impI)
  let ?A = "came P (start_config up rows) cf"
  have log: "event_origin P ?A e" if "e \<in> set (cf_log cf)" for e
    using origins_steps[OF assms origins_start] that by (simp add: origins_def)
  have body: "rq_body req = Some bytes \<and> length bytes \<le> MAX_BODY" if "to_bytes req = Some bytes" for req bytes
    using that by (auto simp: to_bytes_def split: option.splits if_splits)
  show "\<exists>req inspect req' bytes. arrived P (start_config up rows) cf req inspect req' \<and> rq_uri head = rq_uri req' \<and>
      rq_method head = rq_method req \<and> rq_headers head = sanitize (rq_headers req) \<and> rq_body req = Some bytes \<and> length bytes \<le> MAX_BODY \<and>
      (egress = bytes \<or> owner \<noteq> None \<and> (\<exists>token. inspect = InspectYes (Some token)) \<and> rq_method req = lit ''POST'' \<and>
         decide_request (px_values P) bytes = Forward \<and>
         (\<exists>body. parse_body (lb_serde (px_lib P)) bytes = Some body \<and> validate (lb_serde (px_lib P)) egress body = Inr ()))"
    if sent: "Forwarded owner head egress \<in> set (cf_log cf)" for owner head egress
  proof -
    obtain req' bytes where from_req: "head = upstream_head req'"
      "passed ?A req' bytes \<and> egress = bytes \<or> inspected P ?A req' bytes \<and> owner \<noteq> None \<and> egress_ok P bytes egress"
      using log[OF sent] by auto
    then obtain inspect req where req: "arrived P (start_config up rows) cf req inspect req'" "to_bytes req' = Some bytes"
      "egress = bytes \<or> owner \<noteq> None \<and> (\<exists>token. inspect = InspectYes (Some token)) \<and> decide_request (px_values P) bytes = Forward \<and>
         egress_ok P bytes egress"
      unfolding passed_def inspected_def came_def by blast
    note keeps = arrived_keeps[OF req(1)]
    show ?thesis using req keeps body[OF req(2)] from_req(1) unfolding egress_ok_def
      by (intro exI[of _ req] exI[of _ inspect] exI[of _ req'] exI[of _ bytes]) (auto simp: upstream_head_def)
  qed
  show "\<exists>req token bytes inputs. arrived P (start_config up rows) cf req (InspectYes token) req' \<and> rq_method req = lit ''POST'' \<and>
      rq_body req = Some bytes \<and> decide_request (px_values P) bytes = Synthesize inputs"
    if ans: "Answered req' rsp \<in> set (cf_log cf)" for req' rsp
  proof -
    obtain token bytes inputs req where "arrived P (start_config up rows) cf req (InspectYes token) req'" "to_bytes req' = Some bytes"
      "decide_request (px_values P) bytes = Synthesize inputs" using log[OF ans] by (auto simp: came_def)
    then show ?thesis using arrived_keeps body by fastforce
  qed
  show "status = 405 \<and> request_path (rq_uri req) = lit ''/v1/messages'' \<and> rq_method req \<noteq> lit ''POST'' \<or>
      status = 400 \<and> (\<exists>c rest. request_path (rq_uri req) = lit ''/s/'' @ c # rest \<and> px_decode P (c # rest) = None)"
    if "Rejected req status \<in> set (cf_log cf)" for req status using log[OF that] by (simp add: refused_with_def)
  show "router (px_decode P) (px_uri P) (cf_app cf) req = Refused status \<longleftrightarrow>
      status = 405 \<and> request_path (rq_uri req) = lit ''/v1/messages'' \<and> rq_method req \<noteq> lit ''POST'' \<or>
      status = 400 \<and> (\<exists>c rest. request_path (rq_uri req) = lit ''/s/'' @ c # rest \<and> px_decode P (c # rest) = None)"
    for req status unfolding router_refuses refused_with_def by (rule refl)
qed (simp_all add: router_elsewhere)

theorem proxy_forwards_what_arrived_witness:
  "\<exists>cf req inspect req'. (sys_step demo_proxy)\<^sup>*\<^sup>* (start_config [] []) cf \<and> Forwarded (Some 0) (demo_req 2) [2] \<in> set (cf_log cf) \<and>
     arrived demo_proxy (start_config [] []) cf req inspect req' \<and> rq_uri req' = lit ''/v1/messages'' \<and>
     rq_method req = lit ''POST'' \<and>
     router (px_decode demo_proxy) (px_uri demo_proxy) (cf_app cf) ((demo_req 2)\<lparr>rq_method := lit ''GET''\<rparr>) = Refused 405"
proof -
  let ?cf = "demo_config open_cell first_threads first_log"
  have run: "(sys_step demo_proxy)\<^sup>*\<^sup>* (start_config [] []) ?cf"
    by (rule mono_rtranclp[rule_format, OF _ first_turn]) (simp add: turn_step_def)
  have sent: "Forwarded (Some 0) (demo_req 2) [2] \<in> set (cf_log ?cf)" by (simp add: demo_config_def)
  obtain req inspect req' where req: "arrived demo_proxy (start_config [] []) ?cf req inspect req'" "rq_uri (demo_req 2) = rq_uri req'"
    "rq_method (demo_req 2) = rq_method req"
    using proxy_forwards_what_arrived[OF run, THEN conjunct1] sent by blast
  then have "rq_uri req' = lit ''/v1/messages''" "rq_method req = lit ''POST''" by (simp_all add: demo_req_def)
  moreover have "router (px_decode demo_proxy) (px_uri demo_proxy) (cf_app ?cf) ((demo_req 2)\<lparr>rq_method := lit ''GET''\<rparr>) = Refused 405"
    by (rule proxy_forwards_what_arrived[OF run, THEN conjunct2, THEN conjunct2, THEN conjunct2, THEN conjunct1, rule_format, THEN iffD2])
      (simp add: demo_req_def request_path_def lit_def)
  ultimately show ?thesis using run sent req(1) by blast
qed

end
