(* ===== verification/Liveness.thy ===== *)
theory Liveness
  imports Turns "HOL-Library.Multiset"
begin

text \<open>
  Does every request get an answer?  Once requests stop arriving - the graceful shutdown that
  \<^verbatim>\<open>main.rs\<close> asks for when the control plane or a signal stops the proxy - the tasks in flight
  are all that runs.  Here: whatever the scheduler, the clocks, the upstream and the summarizer do, they
  finish within a number of steps known in advance, and each request whose client stays is answered
  exactly once.
\<close>

section \<open>Work and answers\<close>

definition thread_run :: "('v, 'b) proxy \<Rightarrow> 'b config \<Rightarrow> 'b config \<Rightarrow> bool" where
  "thread_run P cf cf' = (\<exists>i orc. i < length (cf_threads cf) \<and> cf' = run_thread P orc i cf)"

text \<open>The request a task serves, and the request an event answers.\<close>

fun request_of :: "Thread \<Rightarrow> HttpReq option" where
  "request_of (Arrived _ req) = Some req"
| "request_of (Deciding _ _ req _) = Some req"
| "request_of (Entering _ _ _ req _) = Some req"
| "request_of (Intercepting _ _ _ req _ _) = Some req"
| "request_of (Committing _ _ _ req _ _) = Some req"
| "request_of (Stashing _ _ _ req _ _) = Some req"
| "request_of (Sending _ _ _ req _ _) = Some req"
| "request_of (Awaiting _ _ _ req _) = Some req"
| "request_of (Passing _ req _) = Some req"
| "request_of (Relaying req) = Some req"
| "request_of _ = None"

fun answer_of :: "Event \<Rightarrow> HttpReq option" where
  "answer_of (Relayed req _) = Some req"
| "answer_of (Answered req _) = Some req"
| "answer_of (BadGateway req) = Some req"
| "answer_of _ = None"

definition pending :: "Thread list \<Rightarrow> HttpReq multiset" where
  "pending ts = mset (List.map_filter request_of ts)"

definition answers :: "Event list \<Rightarrow> HttpReq multiset" where
  "answers evs = mset (List.map_filter answer_of evs)"

text \<open>The steps a task and what it spawns may still take; staging takes one for each segment of the request.\<close>

definition segments_of :: "('v, 'b) proxy \<Rightarrow> nat list \<Rightarrow> nat" where
  "segments_of P bytes = (case parse_body (lb_serde (px_lib P)) bytes of
      None \<Rightarrow> 0 | Some body \<Rightarrow> length (segment_prompt (lb_serde (px_lib P)) body))"

fun work :: "('v, 'b) proxy \<Rightarrow> Thread \<Rightarrow> nat" where
  "work P (Arrived _ req) = (case to_bytes req of None \<Rightarrow> 1 | Some bytes \<Rightarrow> segments_of P bytes + 13)"
| "work P (Deciding _ _ _ bytes) = segments_of P bytes + 12"
| "work P (Entering _ _ _ _ bytes) = segments_of P bytes + 11"
| "work P (Intercepting _ _ _ _ bytes _) = segments_of P bytes + 10"
| "work P (Committing _ _ _ _ bytes _) = segments_of P bytes + 9"
| "work P (Stashing _ _ _ _ bytes _) = segments_of P bytes + 8"
| "work P (Sending _ _ _ _ bytes _) = segments_of P bytes + 7"
| "work P (Awaiting _ _ _ _ bytes) = segments_of P bytes + 6"
| "work P (StageStart _ _ bytes) = segments_of P bytes + 4"
| "work P (StageLoop _ _ segs _) = length segs + 3"
| "work P (StageCommit _ _ _) = 2"
| "work P (Passing _ _ _) = 2"
| "work P (Retrieving _ _ _ _) = 2"
| "work P _ = 1"

definition total_work :: "('v, 'b) proxy \<Rightarrow> 'b config \<Rightarrow> nat" where
  "total_work P cf = sum_list (map (work P) (cf_threads cf))"

lemma map_filter_append [simp]: "List.map_filter f (xs @ ys) = List.map_filter f xs @ List.map_filter f ys"
  by (simp add: List.map_filter_def)

lemma split_nth:
  assumes "i < length xs"
  obtains ys zs where "xs = ys @ xs ! i # zs" "remove_nth i xs = ys @ zs"
  using id_take_nth_drop[OF assms] that[of "take i xs" "drop (Suc i) xs"] by (simp add: remove_nth_def)

lemma answer_respond [simp]: "answer_of (respond req response) = Some req"
  by (simp add: respond_def split: option.splits)

section \<open>Steps\<close>

lemma prepare_job_segments:
  "prepare_job (px_lib P) bytes sess now inputs = Some job \<Longrightarrow> length (jb_segments job) = segments_of P bytes"
  by (cases inputs) (auto simp: prepare_job_def segments_of_def bind_eq_Some_conv Let_def split: if_splits)

lemma decide_works:
  assumes "decide_step P orc inspect owner req bytes st = (st', ts, evs)"
  shows "sum_list (map (work P) ts) < segments_of P bytes + 12 \<and>
    List.map_filter answer_of evs @ List.map_filter request_of ts = [req]"
  using assms by (auto simp: decide_step_def List.map_filter_def split: Inspect.splits SynthDecision.splits if_splits option.splits)

lemma advance_works:
  assumes "advance P orc t st = (st', ts, evs)"
  shows "sum_list (map (work P) ts) < work P t"
    and "List.map_filter answer_of evs @ List.map_filter request_of ts = List.map_filter request_of [t]"
proof -
  have "sum_list (map (work P) ts) < work P t \<and>
    List.map_filter answer_of evs @ List.map_filter request_of ts = List.map_filter request_of [t]"
  proof (cases t)
    case (Deciding inspect owner req bytes)
    then show ?thesis using decide_works[of P orc inspect owner req bytes st st' ts evs] assms by (simp add: List.map_filter_def)
  next
    case (StageStart a sess bytes)
    then show ?thesis using assms
      by (auto simp: List.map_filter_def bind_eq_Some_conv prepare_job_segments split: option.splits)
  qed (use assms in \<open>auto simp: List.map_filter_def Let_def split: option.splits prod.splits list.splits ToolCall.splits if_splits\<close>)
  then show "sum_list (map (work P) ts) < work P t"
    and "List.map_filter answer_of evs @ List.map_filter request_of ts = List.map_filter request_of [t]" by blast+
qed

lemma run_works:
  assumes "thread_run P cf cf'"
  shows "total_work P cf' < total_work P cf"
    and "answers (cf_log cf') + pending (cf_threads cf') = answers (cf_log cf) + pending (cf_threads cf)"
proof -
  obtain i orc where i: "i < length (cf_threads cf)" "cf' = run_thread P orc i cf" using assms by (auto simp: thread_run_def)
  obtain st ts evs where adv: "advance P orc (cf_threads cf ! i) (cf_app cf) = (st, ts, evs)" by (metis prod_cases3)
  obtain ys zs where s: "cf_threads cf = ys @ cf_threads cf ! i # zs" "remove_nth i (cf_threads cf) = ys @ zs"
    using split_nth[OF i(1)] by metis
  have cf': "cf_threads cf' = (ys @ zs) @ ts" "cf_log cf' = cf_log cf @ evs" using adv s(2) by (simp_all add: i(2) run_thread_def)
  note works = advance_works[OF adv]
  have "total_work P cf = sum_list (map (work P) (ys @ zs)) + work P (cf_threads cf ! i)"
    unfolding total_work_def by (subst s(1)) simp
  then show "total_work P cf' < total_work P cf" using works(1) by (simp add: total_work_def cf'(1))
  have "pending (cf_threads cf) = pending (ys @ zs) + pending [cf_threads cf ! i]"
    unfolding pending_def by (subst s(1)) (simp add: List.map_filter_def split: option.splits)
  moreover have "pending [cf_threads cf ! i] = answers evs + pending ts"
    unfolding pending_def answers_def works(2)[symmetric] by simp
  moreover have "pending (cf_threads cf') = pending (ys @ zs) + pending ts" "answers (cf_log cf') = answers (cf_log cf) + answers evs"
    by (simp_all add: cf' pending_def answers_def)
  ultimately show "answers (cf_log cf') + pending (cf_threads cf') = answers (cf_log cf) + pending (cf_threads cf)"
    by (simp add: ac_simps)
qed

lemma runs_work:
  "(thread_run P ^^ n) cf cf' \<Longrightarrow> n + total_work P cf' \<le> total_work P cf \<and>
   answers (cf_log cf') + pending (cf_threads cf') = answers (cf_log cf) + pending (cf_threads cf)"
proof (induction n arbitrary: cf')
  case (Suc n)
  then obtain cf1 where "(thread_run P ^^ n) cf cf1" "thread_run P cf1 cf'" by auto
  then show ?case using Suc.IH[of cf1] run_works[of P cf1 cf'] by auto
qed simp

text \<open>Any schedule that keeps going comes to an end with no task left.\<close>

lemma runs_finish: "\<exists>cf'. (thread_run P)\<^sup>*\<^sup>* cf cf' \<and> cf_threads cf' = []"
proof (induction "total_work P cf" arbitrary: cf rule: less_induct)
  case less
  show ?case
  proof (cases "cf_threads cf = []")
    case False
    then have step: "thread_run P cf (run_thread P undefined 0 cf)" by (auto simp: thread_run_def)
    then show ?thesis using less[OF run_works(1)[OF step]] by (meson converse_rtranclp_into_rtranclp)
  qed auto
qed

text \<open>Once the relay is closed it stays closed, and nothing becomes pending any more.\<close>

lemma closed_step:
  assumes "sys_step P cf cf'" "\<not> cf_open cf"
  shows "\<not> cf_open cf' \<and> answers (cf_log cf') + pending (cf_threads cf') \<subseteq># answers (cf_log cf) + pending (cf_threads cf)"
  using assms(1)
proof cases
  case (thread i orc)
  then have "thread_run P cf cf'" by (auto simp: thread_run_def)
  moreover have "cf_open cf' = cf_open cf" by (simp add: thread(1) run_thread_def split: prod.splits)
  ultimately show ?thesis using run_works(2) assms(2) by (metis subset_mset.order_refl)
next
  case (cancel i)
  obtain ys zs where s: "cf_threads cf = ys @ cf_threads cf ! i # zs" "remove_nth i (cf_threads cf) = ys @ zs"
    using split_nth[OF cancel(2)] by metis
  have "pending (cf_threads cf) = pending (ys @ zs) + pending [cf_threads cf ! i]"
    unfolding pending_def by (subst s(1)) (simp add: List.map_filter_def split: option.splits)
  then show ?thesis using assms(2) by (simp add: cancel(1) s(2))
qed (use assms(2) in \<open>auto simp: serve_mcp_def pending_def answers_def List.map_filter_def split: option.splits\<close>)

lemma closed_steps:
  "(sys_step P)\<^sup>*\<^sup>* cf cf' \<Longrightarrow> \<not> cf_open cf \<Longrightarrow>
   \<not> cf_open cf' \<and> answers (cf_log cf') + pending (cf_threads cf') \<subseteq># answers (cf_log cf) + pending (cf_threads cf)"
proof (induction rule: rtranclp_induct)
  case (step cf1 cf2)
  then show ?case using closed_step[OF step(2)] by (meson subset_mset.order_trans)
qed simp

section \<open>Properties\<close>

text \<open>C9: every request is answered exactly once.  Let the tasks in flight run, in any order and with
  any clocks, interceptor timings, upstream replies and summarizer replies: they take at most as many
  steps as the total work, computed from the requests' bodies alone; at any time each request that was
  pending is still pending or has been answered, once; and from every point on all tasks can finish, after
  which every request that was pending has its one answer.  Once the relay is closed, by a signal or by the
  control plane, nothing else becomes pending or is answered, whatever else the proxy does.\<close>

theorem every_request_is_answered_once:
  assumes "(thread_run P ^^ n) cf cf'"
  shows "n \<le> total_work P cf \<and>
    answers (cf_log cf') + pending (cf_threads cf') = answers (cf_log cf) + pending (cf_threads cf) \<and>
    (n = total_work P cf \<longrightarrow> cf_threads cf' = []) \<and>
    (\<exists>cf''. (thread_run P)\<^sup>*\<^sup>* cf' cf'' \<and> cf_threads cf'' = [] \<and>
       answers (cf_log cf'') = answers (cf_log cf) + pending (cf_threads cf)) \<and>
    (\<forall>cf''. \<not> cf_open cf \<and> (sys_step P)\<^sup>*\<^sup>* cf cf'' \<longrightarrow>
       answers (cf_log cf'') + pending (cf_threads cf'') \<subseteq># answers (cf_log cf) + pending (cf_threads cf))"
proof -
  note runs = runs_work[OF assms]
  have stop: "cf_threads cf' = []" if "n = total_work P cf"
  proof (rule ccontr)
    assume "cf_threads cf' \<noteq> []"
    then have "thread_run P cf' (run_thread P undefined 0 cf')" by (auto simp: thread_run_def)
    then show False using run_works(1) runs that by fastforce
  qed
  obtain cf'' where finish: "(thread_run P)\<^sup>*\<^sup>* cf' cf''" "cf_threads cf'' = []" using runs_finish by blast
  then obtain m where "(thread_run P ^^ m) cf' cf''" by (auto simp: rtranclp_power)
  then have "answers (cf_log cf'') = answers (cf_log cf') + pending (cf_threads cf')"
    using runs_work[of m P cf' cf''] finish(2) by (simp add: pending_def List.map_filter_def)
  then show ?thesis using runs stop finish closed_steps[of P cf] by auto
qed

theorem every_request_is_answered_once_witness:
  "\<exists>cf cf''. (sys_step demo_proxy)\<^sup>*\<^sup>* (start_config [] []) cf \<and> pending (cf_threads cf) = {#demo_req 2#} \<and>
     (thread_run demo_proxy)\<^sup>*\<^sup>* cf cf'' \<and> cf_threads cf'' = [] \<and> answers (cf_log cf'') = {#demo_req 2#}"
proof -
  let ?cf = "demo_config (demo_cell\<lparr>sx_staging := True\<rparr>) [Entering 0 (SessionId [116]) True (demo_req 2) [2]] []"
  have "pending (cf_threads ?cf) = {#demo_req 2#}" "answers (cf_log ?cf) = {#}"
    by (simp_all add: demo_config_def pending_def answers_def List.map_filter_def)
  moreover have "(thread_run demo_proxy ^^ 0) ?cf ?cf" by simp
  ultimately show ?thesis using every_request_is_answered_once[of 0 demo_proxy ?cf ?cf] demo_entered by (metis add_0)
qed

end
