(* ===== verification/Spec2Isabelle.thy ===== *)
theory Spec2Isabelle
  imports Retention Passthrough Liveness
begin

text \<open>
  cc-squash: a proxy between Claude Code and the Anthropic API that rewrites requests so that old tool
  output takes fewer tokens, and keeps every original it replaces in a local store from which the model can
  fetch it back.  This development models the Rust crates under \<^verbatim>\<open>src/crates\<close>.

  \<^bold>\<open>The program.\<close>  A request arrives at the relay (\<^verbatim>\<open>ccs-proxy/src/relay.rs\<close>) through its router (\<^verbatim>\<open>app.rs\<close>), bare
  or under a session's route (\<^verbatim>\<open>demux.rs\<close>).  A compaction request is answered locally
  (\<^verbatim>\<open>synth/\<close>); any other request of a session passes the interceptor
  (\<^verbatim>\<open>intercept.rs\<close>), which applies the plan staged after the previous turn, cleans fresh tool
  results on the fast lane, or compacts an over-budget request; the result is spliced into the original bytes
  and gated (\<^verbatim>\<open>ccs-policy/src/rewrite.rs\<close>, \<^verbatim>\<open>rewrite_gate.rs\<close>), and any failure
  forwards the request as it came.  The response streams back through a tap (\<^verbatim>\<open>usage_tap.rs\<close>)
  whose observation updates the session's cache model, token scale and breaker (\<^verbatim>\<open>session.rs\<close>).
  After the answer, staging (\<^verbatim>\<open>staging.rs\<close>) segments the request, runs the deterministic passes,
  asks the summarizer (\<^verbatim>\<open>ccs-summarizer\<close>), puts originals into the store
  (\<^verbatim>\<open>ccs-refs\<close>) and commits the next plan.  A control plane mints and evicts sessions, sets
  shadow and kill modes and orders collections (\<^verbatim>\<open>seam.rs\<close>); the model fetches originals
  through a tool (\<^verbatim>\<open>mcp.rs\<close>).

  \<^bold>\<open>The library.\<close>
  \<^item> \<open>Float64\<close>, \<open>Prelude\<close>, \<open>Std_Text\<close>: binary64 numbers with their rounding, strings and bytes, integers,
    the functions of the Rust standard library the crates call, and the lemmas all components share.
  \<^item> \<open>Core\<close> (\<^verbatim>\<open>ccs-core\<close>), \<open>Economics\<close> (\<^verbatim>\<open>ccs-economics\<close>): identifiers, units,
    the token estimate, prices, cache warmth, bust cost, saving and NPV.
  \<^item> \<open>Wire\<close>, \<open>Segment\<close>, \<open>Policy\<close>, \<open>Targets\<close>, \<open>Controller\<close>: the request as parsed, its segments and their payloads,
    salience, ladder and breakpoints, the blocks that may be overwritten, and the decision to flush, ride or hold.
  \<^item> \<open>Pipeline\<close>, \<open>Scorer\<close>, \<open>Spine\<close>, \<open>Budget_Fallback\<close>: the ledger of proposals, the runner with its checkpoints and
    revert budget, and the on-path and over-budget pipelines.
  \<^item> \<open>Recode\<close>, \<open>Clean\<close>, \<open>Lossy\<close>, \<open>Markup\<close>, \<open>Deterministic\<close>: the nine recode passes and their chain.
  \<^item> \<open>Rewrite\<close>: the splice into the original bytes and the gate behind it.
  \<^item> \<open>Refs\<close>, \<open>Store\<close>: content addresses, markers, search, and the table with its garbage collection.
  \<^item> \<open>Intercept\<close>, \<open>Prompts\<close>, \<open>Summarizer\<close>, \<open>Usage_Tap\<close>, \<open>Synth\<close>, \<open>Session\<close>, \<open>Staging\<close>, \<open>Relay\<close>: the components of the proxy,
    one function per function of the source.
  \<^item> \<open>System\<close>, \<open>Turns\<close>, \<open>Retention\<close>, \<open>Passthrough\<close>, \<open>Liveness\<close>: the proxy as a whole.  Tasks - requests, drains, staging,
    sweeps, tool calls - are threads of atomic steps over shared state - a heap of session cells, the
    registrations, the store - and \<open>sys_step\<close> interleaves them with arrivals, disconnects, control frames, signals
    and the end of the control channel.

  Structs are records, enums datatypes, functions functions; a panic is \<open>None\<close>, an error an \<open>Inl\<close>.  Loops are
  structural recursion or \<open>function\<close>s with a termination proof; no definition runs on fuel.  The runner's bound is
  the source's own revert budget (\<^verbatim>\<open>DEFAULT_MAX_REVERTS\<close>), with which termination is proved for every
  pipeline.

  \<^bold>\<open>Interfaces.\<close>  \<open>proposal_ledger\<close> is what passes rely on of the ledger, \<open>pass_invariant\<close> what the runner relies on of a
  pass (interpreted for the spine and for the deterministic chain), \<open>leaf_refiner\<close> what the chain relies on of a recode
  pass (interpreted for each of them), \<open>durable_store\<close> what the recovery path relies on of the store, and \<open>cell_contract\<close>
  what a reader of a session relies on of every operation on it (interpreted for the message floor, the token scale and
  the hot refs).

  \<^bold>\<open>What is shown.\<close>
  \<^item> Safety of rewriting: what is forwarded is the request or a gated splice of it (\<open>Intercept\<close>); the gate accepts exactly
    the rewrites that keep its invariants, and a splice changes targeted blocks only (\<open>Rewrite\<close>); targets are safe
    (\<open>Targets\<close>); open work is pinned and segments partition the prompt and are stable under growth (\<open>Segment\<close>); what a
    prescription of the controller means (\<open>Controller\<close>).
  \<^item> Reversibility: markers round trip (\<open>Refs\<close>); stored originals survive every history that protects them and collection
    evicts the oldest eligible rows until the cap is met (\<open>Store\<close>); the deterministic chain stores what it hides
    (\<open>Deterministic\<close>); what is staged is stored (\<open>Staging\<close>) and stays stored, every sweep sparing it, as long as no plan is
    being made while a sweep is pending (\<open>Retention\<close>).
  \<^item> Refinement and equivalence: the pipelines of passes decide as the single functions they replaced (\<open>Spine\<close>,
    \<open>Budget_Fallback\<close>); the fast lane equals the staged chain (\<open>Clean\<close>).
  \<^item> Totality, bounds and error paths: the runner terminates, the passes do not panic, estimates and scores stay in range
    (\<open>Core\<close>, \<open>Scorer\<close>, \<open>Pipeline\<close>, \<open>Lossy\<close>, \<open>Markup\<close>), the summarizer fails safe (\<open>Summarizer\<close>), usage is observed however the
    response is cut (\<open>Usage_Tap\<close>), a synthesized answer reads back (\<open>Synth\<close>).
  \<^item> Concurrency: under every interleaving the staging guard is exclusive and sessions stay sound (\<open>System\<close>); one turn at a
    time, only leaves never sent before are committed to the fast lane (\<open>Turns\<close>); what goes upstream is what arrived, but
    for gated bodies of inspected turns, and the router refuses exactly two kinds of request (\<open>Passthrough\<close>); tasks in flight finish within a bound computed from the requests,
    and each request is answered exactly once (\<open>Liveness\<close>).
  \<^item> Behaviours the code does not intend: a recency window without effect on the spine, a fallback target that is always the
    minimum, a second session that can not retrieve, a fast lane that needs three new messages, a free bust that trips the
    breaker, a disconnect that wedges staging, and overlapping turns that defeat the message floor.

  \<^bold>\<open>Parameters.\<close>  Code outside the crates is an argument of the definitions that use it: the JSON library
  (\<open>serde\<close>, \<open>writer\<close>, \<open>value_json\<close>, \<open>agent_json\<close>), SHA-256, \<^verbatim>\<open>exp\<close> and \<^verbatim>\<open>ln\<close>, the encoders of
  \<^verbatim>\<open>format_core\<close>, the diff of \<^verbatim>\<open>similar\<close>, Unicode classification, the circuit breaker
  (\<open>failsafe\<close>), URI parsing, percent decoding, the decoder of control frames and the printer of the register frame.  Clocks, timing, the upstream and the summarizer's replies are
  choices of the environment.  SQLite is modelled by the effect of each statement on the rows.

  \<^bold>\<open>Not modelled.\<close>  Argument parsing, sockets and the HTTP and MCP libraries (\<^verbatim>\<open>main.rs\<close>), of which only the
  routing and the way the relay is closed appear; logging; the derived JSON readers of the configuration; the Go control plane
  (\<^verbatim>\<open>src/go\<close>), a supervisor in another language; tests, scripts and documentation.  Nothing poisons a lock
  in the model, since no operation under a lock panics, but every operation says what it does on a poisoned one.  The two zeros
  of binary64 are one value, sizes of data in memory are naturals, and 32-bit sums wrap as in the release profile.
\<close>

end
